(* ===== verification/Nova_Prelude.thy ===== *)
theory Nova_Prelude
  imports Main "HOL-Library.Word"
begin

text \<open>
  Shared vocabulary of the development: names for the machine integers of the C sources, the
  \<open>for\<close> loop that looks for the first index satisfying a test, byte-block copies, C strings
  stored in fixed-size arrays, and the generic lemmas on lists, words and maps which the
  component theories use.  \<open>size_t\<close> values that index a fixed-size array are \<open>nat\<close>; the
  invariants of the components bound them by the array size, so they never reach the width of
  the machine type.  Counters that can run away are kept at their width (\<open>u64\<close>).
\<close>

named_theorems nova_defs \<open>definitions of operations that case analysis unfolds\<close>
named_theorems nova_inv \<open>preservation of the components' invariants\<close>

type_synonym u8 = "8 word"
type_synonym u16 = "16 word"
type_synonym u32 = "32 word"
type_synonym u64 = "64 word"

subsection \<open>Loops over an index range\<close>

text \<open>
  \<open>for_find p i n\<close> is the loop \<open>for (; i < n; i++) { if (!p(i)) continue; ... return; }\<close>: the
  first index of the range on which the test holds, or \<open>None\<close> when the loop falls through.
\<close>

function for_find :: "(nat \<Rightarrow> bool) \<Rightarrow> nat \<Rightarrow> nat \<Rightarrow> nat option" where
  "for_find p i n = (if i < n then if p i then Some i else for_find p (Suc i) n else None)"
  by pat_completeness auto
termination
  by (relation "measure (\<lambda>(p, i, n). n - i)") auto

declare for_find.simps [simp del]

text \<open>
  \<open>memcpy dst src n\<close> is the destination block after \<open>memcpy(dst, src, n)\<close>: its first \<open>n\<close>
  bytes come from the source, the others are kept.
\<close>

definition memcpy :: "'a list \<Rightarrow> 'a list \<Rightarrow> nat \<Rightarrow> 'a list" where
  "memcpy dst src n = take n src @ drop n dst"

text \<open>
  Strings.  A C string argument is the list of its characters before the terminating zero
  (a list without the character 0); a string in a \<open>char\<close> array is read up to its first zero.
\<close>

abbreviation NUL :: char where
  "NUL \<equiv> CHR 0x00"

definition cstr :: "char list \<Rightarrow> string" where
  "cstr buf = takeWhile (\<lambda>c. c \<noteq> NUL) buf"

definition is_cstring :: "string \<Rightarrow> bool" where
  "is_cstring s \<longleftrightarrow> NUL \<notin> set s"

text \<open>
  \<open>strncpy dst src n\<close> is the array after \<open>strncpy(dst, src, n)\<close>: at most \<open>n\<close> characters are
  written, and when the source is shorter the rest of the \<open>n\<close> characters is zero-filled.
\<close>

definition strncpy :: "char list \<Rightarrow> string \<Rightarrow> nat \<Rightarrow> char list" where
  "strncpy dst src n = take n src @ replicate (n - length src) NUL @ drop n dst"

subsection \<open>Lemmas on the loop\<close>

lemma for_find_bounds:
  "for_find p i n = Some k \<Longrightarrow> i \<le> k \<and> k < n \<and> p k \<and> (\<forall>j. i \<le> j \<and> j < k \<longrightarrow> \<not> p j)"
proof (induction p i n rule: for_find.induct)
  case (1 p i n)
  show ?case
  proof (cases "i < n \<and> \<not> p i")
    case True
    then have rec: "for_find p (Suc i) n = Some k"
      using "1.prems" by (simp add: for_find.simps [of p i n])
    with "1.IH" True have "Suc i \<le> k \<and> k < n \<and> p k \<and> (\<forall>j. Suc i \<le> j \<and> j < k \<longrightarrow> \<not> p j)"
      by blast
    with True show ?thesis by (metis Suc_leI Suc_leD le_neq_implies_less)
  next
    case False
    with "1.prems" show ?thesis by (auto simp: for_find.simps [of p i n] split: if_splits)
  qed
qed

lemma for_find_None: "for_find p i n = None \<longleftrightarrow> (\<forall>j. i \<le> j \<and> j < n \<longrightarrow> \<not> p j)"
proof (induction p i n rule: for_find.induct)
  case (1 p i n)
  show ?case
  proof (cases "i < n \<and> \<not> p i")
    case True
    then have "for_find p i n = None \<longleftrightarrow> (\<forall>j. Suc i \<le> j \<and> j < n \<longrightarrow> \<not> p j)"
      using "1.IH" by (subst for_find.simps) simp
    also have "\<dots> \<longleftrightarrow> (\<forall>j. i \<le> j \<and> j < n \<longrightarrow> \<not> p j)"
      using True by (metis Suc_leD Suc_leI le_neq_implies_less)
    finally show ?thesis .
  next
    case False
    then show ?thesis by (subst for_find.simps) auto
  qed
qed

lemma for_find_SomeI:
  "i \<le> k \<Longrightarrow> k < n \<Longrightarrow> p k \<Longrightarrow> (\<And>j. i \<le> j \<Longrightarrow> j < k \<Longrightarrow> \<not> p j) \<Longrightarrow> for_find p i n = Some k"
proof (cases "for_find p i n")
  case (Some k')
  assume k: "i \<le> k" "k < n" "p k" "\<And>j. i \<le> j \<Longrightarrow> j < k \<Longrightarrow> \<not> p j"
  have b: "i \<le> k'" "p k'" "\<forall>j. i \<le> j \<and> j < k' \<longrightarrow> \<not> p j"
    using for_find_bounds [OF Some] by simp_all
  have "\<not> k' < k" using b(1,2) k(4) by blast
  moreover have "\<not> k < k'" using b(3) k(1,3) by blast
  ultimately show ?thesis using Some by simp
qed (auto simp: for_find_None)

lemma for_find_Some_iff:
  "for_find p i n = Some k \<longleftrightarrow> i \<le> k \<and> k < n \<and> p k \<and> (\<forall>j. i \<le> j \<and> j < k \<longrightarrow> \<not> p j)"
proof
  assume "i \<le> k \<and> k < n \<and> p k \<and> (\<forall>j. i \<le> j \<and> j < k \<longrightarrow> \<not> p j)"
  then show "for_find p i n = Some k" by (auto intro!: for_find_SomeI)
qed (rule for_find_bounds)

lemma for_find_cong:
  "(\<And>j. i \<le> j \<Longrightarrow> j < n \<Longrightarrow> p j = q j) \<Longrightarrow> for_find p i n = for_find q i n"
proof (cases "for_find q i n")
  case None
  assume "\<And>j. i \<le> j \<Longrightarrow> j < n \<Longrightarrow> p j = q j"
  with None have "for_find p i n = None" by (simp add: for_find_None)
  with None show ?thesis by simp
next
  case (Some k)
  assume "\<And>j. i \<le> j \<Longrightarrow> j < n \<Longrightarrow> p j = q j"
  with Some have "for_find p i n = Some k" by (auto simp: for_find_Some_iff)
  with Some show ?thesis by simp
qed

subsection \<open>Lemmas on arrays\<close>

lemma fold_upd_all:
  "n \<le> length xs \<Longrightarrow>
     fold (\<lambda>i ys. ys[i := f (ys ! i)]) [0..<n] xs = map f (take n xs) @ drop n xs"
proof (induction n)
  case (Suc n)
  then have n: "n < length xs" by simp
  then have "drop n xs = xs ! n # drop (Suc n) xs" by (simp add: Cons_nth_drop_Suc)
  with Suc n show ?case
    by (simp add: nth_append list_update_append take_Suc_conv_app_nth)
qed simp

lemma set_update_unchanged: "x \<in> set (xs[i := y]) \<Longrightarrow> x = y \<or> x \<in> set xs"
  using set_update_subset_insert by fastforce

lemma memcpy_length [simp]:
  "n \<le> length dst \<Longrightarrow> n \<le> length src \<Longrightarrow> length (memcpy dst src n) = length dst"
  by (simp add: memcpy_def)

lemma take_memcpy [simp]: "n \<le> length src \<Longrightarrow> take n (memcpy dst src n) = take n src"
  by (simp add: memcpy_def)

lemma drop_memcpy [simp]: "n \<le> length src \<Longrightarrow> drop n (memcpy dst src n) = drop n dst"
  by (simp add: memcpy_def)

lemma strncpy_length [simp]:
  "n \<le> length dst \<Longrightarrow> length (strncpy dst src n) = length dst"
  by (simp add: strncpy_def)

lemma cstr_prefix: "is_cstring s \<Longrightarrow> cstr (s @ NUL # rest) = s"
  by (induction s) (auto simp: cstr_def is_cstring_def)

lemma is_cstring_take: "is_cstring s \<Longrightarrow> is_cstring (take n s)"
  by (auto simp: is_cstring_def dest: in_set_takeD)

text \<open>
  The idiom \<open>strncpy(buf, s, N - 1); buf[N - 1] = 0;\<close> on an array of \<open>N\<close> characters stores the
  first \<open>N - 1\<close> characters of the string.
\<close>

lemma strncpy_terminated:
  assumes "length buf = n + 1"
  shows "(strncpy buf s n)[n := NUL] = take n s @ replicate (n - length s) NUL @ [NUL]"
proof -
  let ?a = "take n s @ replicate (n - length s) NUL"
  obtain c where c: "drop n buf = [c]"
    using assms by (cases "drop n buf") (auto dest: arg_cong [where f = length])
  have "length ?a = n" by simp
  then have "(?a @ [c])[n := NUL] = ?a @ [NUL]"
    by (metis list_update_length)
  with c show ?thesis by (simp add: strncpy_def)
qed

lemma cstr_strncpy_terminated:
  assumes len: "length buf = n + 1" and s: "is_cstring s"
  shows "cstr ((strncpy buf s n)[n := NUL]) = take n s"
proof -
  have "replicate (n - length s) NUL @ [NUL] = NUL # replicate (n - length s) NUL"
    by (simp add: replicate_append_same)
  then show ?thesis
    using s by (simp only: strncpy_terminated [OF len] cstr_prefix is_cstring_take)
qed

subsection \<open>Lemmas on words and maps\<close>

lemma unat_of_nat_small:
  "n < 2 ^ LENGTH('a) \<Longrightarrow> unat (of_nat n :: 'a::len word) = n"
  by (simp add: unsigned_of_nat take_bit_nat_eq_self)

lemma unat_succ_no_wrap:
  fixes w :: "'a::len word"
  shows "Suc (unat w) < 2 ^ LENGTH('a) \<Longrightarrow> unat (w + 1) = Suc (unat w)"
  by (metis of_nat_Suc of_nat_unat ucast_id add.commute unat_of_nat_small)

lemma unat_index_succ:
  "Suc n < 2 ^ LENGTH('a) \<Longrightarrow> unat (of_nat n + 1 :: 'a::len word) = Suc n"
  by (metis of_nat_Suc add.commute unat_of_nat_small)

text \<open>
  Tables of the kernel number their slots from 1: slot \<open>i\<close> has the 32-bit id \<open>i + 1\<close>, and the id 0
  names no slot.
\<close>

abbreviation slot_id :: "nat \<Rightarrow> u32" where
  "slot_id i \<equiv> of_nat i + 1"

lemma unat_slot_id: "i < 0xFFFF \<Longrightarrow> unat (slot_id i) = Suc i"
  by (rule unat_index_succ) simp

lemma slot_id_nonzero: "i < 0xFFFF \<Longrightarrow> slot_id i \<noteq> 0"
  using unat_slot_id [of i] by auto

lemma of_nat_u32_inject:
  "i < 0xFFFF \<Longrightarrow> j < 0xFFFF \<Longrightarrow> (of_nat i :: u32) = of_nat j \<longleftrightarrow> i = j"
  by (metis unat_slot_id nat.inject)

lemma id_cases:
  fixes tid :: u32
  obtains (bad) "tid = 0 \<or> unat tid > n" | (slot) i where "i < n" "tid = slot_id i"
proof (cases "tid = 0 \<or> unat tid > n")
  case False
  then obtain i where "unat tid = Suc i" by (metis unat_eq_zero not0_implies_Suc)
  with False slot [of i] show ?thesis
    by (metis Suc_le_eq add.commute not_less of_nat_Suc of_nat_unat ucast_id)
qed (use bad in blast)

lemma of_nat_unat_word [simp]: "of_nat (unat w) = (w :: 'a::len word)"
  by simp

lemma card_dom_upd:
  "finite (dom m) \<Longrightarrow> card (dom (m(k \<mapsto> v))) = (if k \<in> dom m then card (dom m) else Suc (card (dom m)))"
  by (simp add: insert_absorb)

end
