(* ===== verification/Nova_Core_Types.thy ===== *)
theory Nova_Core_Types
  imports Nova_Prelude
begin

text \<open>
  The constants, result codes and enumerations of \<open>kernel/core/include/nova_core.h\<close> that the
  scheduler, the IPC endpoints and the virtual-memory primitives share.
\<close>

abbreviation (input) NOVA_MAX_THREADS :: nat where "NOVA_MAX_THREADS \<equiv> 32"
abbreviation (input) NOVA_IPC_QUEUE_LENGTH :: nat where "NOVA_IPC_QUEUE_LENGTH \<equiv> 16"
abbreviation (input) NOVA_IPC_PAYLOAD_SIZE :: nat where "NOVA_IPC_PAYLOAD_SIZE \<equiv> 64"
abbreviation (input) NOVA_VM_MAX_PAGES :: nat where "NOVA_VM_MAX_PAGES \<equiv> 128"
abbreviation (input) NOVA_MAX_MAPPINGS :: nat where "NOVA_MAX_MAPPINGS \<equiv> 128"

datatype nova_result = NOVA_OK | NOVA_ERR | NOVA_FULL | NOVA_EMPTY | NOVA_NOT_FOUND

datatype nova_thread_state = NOVA_THREAD_DEAD | NOVA_THREAD_RUNNABLE | NOVA_THREAD_BLOCKED

end
