(* ===== verification/Nova_Interfaces.thy ===== *)
theory Nova_Interfaces
  imports Nova_Prelude
begin

text \<open>
  The contracts that several components of the kernel promise, as locales: a table that hands
  out handles (thread ids, physical pages, driver ids, socket descriptors), a bounded FIFO
  queue (an IPC endpoint), a bounded partial map (an address space) and a machine whose steps
  keep an invariant (the shell, the UI boot path, the network stack).  The client facts are
  proved once here; the component theories interpret the locales on their own operations.
\<close>

subsection \<open>Runs over lists of requests\<close>

text \<open>\<open>insert_all ins as s\<close> performs the insertions in order and collects the handles; it fails
  as soon as one of them fails.\<close>

fun insert_all :: "('a \<Rightarrow> 's \<Rightarrow> ('s \<times> 'h) option) \<Rightarrow> 'a list \<Rightarrow> 's \<Rightarrow> ('s \<times> 'h list) option" where
  "insert_all ins [] s = Some (s, [])"
| "insert_all ins (a # as) s =
     (case ins a s of None \<Rightarrow> None
      | Some (s1, h) \<Rightarrow>
          (case insert_all ins as s1 of None \<Rightarrow> None | Some (s2, hs) \<Rightarrow> Some (s2, h # hs)))"

text \<open>The map that a list of new handles and their entries adds.\<close>

fun entries :: "('a \<Rightarrow> 'h \<Rightarrow> 'v) \<Rightarrow> 'a list \<Rightarrow> 'h list \<Rightarrow> ('h \<times> 'v) list" where
  "entries e (a # as) (h # hs) = (h, e a h) # entries e as hs"
| "entries e _ _ = []"

text \<open>\<open>update_all upd kvs s\<close> performs the updates in order.\<close>

fun update_all :: "('k \<Rightarrow> 'v \<Rightarrow> 's \<Rightarrow> 's option) \<Rightarrow> ('k \<times> 'v) list \<Rightarrow> 's \<Rightarrow> 's option" where
  "update_all upd [] s = Some s"
| "update_all upd ((k, v) # kvs) s =
     (case upd k v s of None \<Rightarrow> None | Some s1 \<Rightarrow> update_all upd kvs s1)"

text \<open>
  A queue session: an operation is \<open>Some x\<close> (put \<open>x\<close>) or \<open>None\<close> (take one).  The run returns the
  elements accepted and the elements delivered, each in order; refused operations do nothing.
\<close>

fun queue_run ::
  "('a \<Rightarrow> 's \<Rightarrow> 's option) \<Rightarrow> ('s \<Rightarrow> ('c \<times> 's) option) \<Rightarrow> 'a option list \<Rightarrow> 's \<Rightarrow> 's \<times> 'a list \<times> 'c list"
where
  "queue_run enq deq [] s = (s, [], [])"
| "queue_run enq deq (Some x # ops) s =
     (case enq x s of
        None \<Rightarrow> queue_run enq deq ops s
      | Some s1 \<Rightarrow> (case queue_run enq deq ops s1 of (s2, ins, outs) \<Rightarrow> (s2, x # ins, outs)))"
| "queue_run enq deq (None # ops) s =
     (case deq s of
        None \<Rightarrow> queue_run enq deq ops s
      | Some (y, s1) \<Rightarrow> (case queue_run enq deq ops s1 of (s2, ins, outs) \<Rightarrow> (s2, ins, y # outs)))"

text \<open>States that a machine can reach from its start states.\<close>

inductive reach :: "('s \<Rightarrow> bool) \<Rightarrow> ('s \<Rightarrow> 's \<Rightarrow> bool) \<Rightarrow> 's \<Rightarrow> bool"
  for start :: "'s \<Rightarrow> bool" and step :: "'s \<Rightarrow> 's \<Rightarrow> bool" where
  reach_start: "start s \<Longrightarrow> reach start step s"
| reach_step: "reach start step s \<Longrightarrow> step s t \<Longrightarrow> reach start step t"

subsection \<open>Tables that hand out handles\<close>

locale handle_table =
  fixes inv :: "'s \<Rightarrow> bool"
    and lookup :: "'s \<Rightarrow> 'h \<Rightarrow> 'v option"
    and ins :: "'a \<Rightarrow> 's \<Rightarrow> ('s \<times> 'h) option"
    and entry :: "'a \<Rightarrow> 'h \<Rightarrow> 'v"
  assumes ins_inv: "inv s \<Longrightarrow> ins a s = Some (s', h) \<Longrightarrow> inv s'"
    and ins_fresh: "inv s \<Longrightarrow> ins a s = Some (s', h) \<Longrightarrow> lookup s h = None"
    and ins_lookup: "inv s \<Longrightarrow> ins a s = Some (s', h) \<Longrightarrow> lookup s' = (lookup s)(h \<mapsto> entry a h)"
begin

lemma insert_all_inv: "inv s \<Longrightarrow> insert_all ins as s = Some (s', hs) \<Longrightarrow> inv s'"
proof (induction as arbitrary: s hs)
  case (Cons a as)
  then obtain s1 h hs' where "ins a s = Some (s1, h)" "insert_all ins as s1 = Some (s', hs')"
    by (auto split: option.splits)
  with Cons.IH Cons.prems(1) show ?case by (blast intro: ins_inv)
qed simp

lemma insert_all_length: "insert_all ins as s = Some (s', hs) \<Longrightarrow> length hs = length as"
  by (induction as arbitrary: s hs) (auto split: option.splits)

lemma insert_all_spec:
  "inv s \<Longrightarrow> insert_all ins as s = Some (s', hs) \<Longrightarrow>
     distinct hs \<and> set hs \<inter> dom (lookup s) = {} \<and> dom (lookup s') = dom (lookup s) \<union> set hs \<and>
     lookup s' = lookup s ++ map_of (entries entry as hs)"
proof (induction as arbitrary: s hs)
  case (Cons a as)
  from Cons.prems(2) obtain s1 h hs' where
    ins: "ins a s = Some (s1, h)" and rest: "insert_all ins as s1 = Some (s', hs')"
    and hs: "hs = h # hs'"
    by (auto split: option.splits)
  have l1: "lookup s1 = (lookup s)(h \<mapsto> entry a h)" and fresh: "lookup s h = None"
    using Cons.prems(1) ins by (auto intro: ins_lookup ins_fresh)
  have IH: "distinct hs'" "set hs' \<inter> dom (lookup s1) = {}"
    "dom (lookup s') = dom (lookup s1) \<union> set hs'"
    "lookup s' = lookup s1 ++ map_of (entries entry as hs')"
    using Cons.IH [OF ins_inv [OF Cons.prems(1) ins] rest] by blast+
  have "h \<notin> dom (map_of (entries entry as hs'))"
  proof -
    have "fst ` set (entries entry as hs') \<subseteq> set hs'"
      by (induction entry as hs' rule: entries.induct) auto
    with IH(2) l1 show ?thesis by (auto simp: dom_map_of_conv_image_fst)
  qed
  then have "lookup s' = lookup s ++ map_of (entries entry (a # as) (h # hs'))"
    using IH(4) l1 by (auto simp: map_add_def fun_eq_iff split: option.splits)
  moreover have "distinct hs" "set hs \<inter> dom (lookup s) = {}"
    "dom (lookup s') = dom (lookup s) \<union> set hs"
    unfolding IH(3) using IH(1,2) l1 fresh hs by auto
  ultimately show ?case unfolding hs by blast
qed auto

lemma insert_all_from_empty:
  assumes "inv s" "lookup s = Map.empty" "insert_all ins as s = Some (s', hs)"
  shows "inv s' \<and> distinct hs \<and> dom (lookup s') = set hs \<and> lookup s' = map_of (entries entry as hs)"
proof -
  note spec = insert_all_spec [OF assms(1,3)]
  have "lookup s' = map_of (entries entry as hs)" using spec assms(2) by (metis empty_map_add)
  moreover have "dom (lookup s') = set hs" using spec assms(2) by (metis dom_empty Un_empty_left)
  ultimately show ?thesis using insert_all_inv [OF assms(1,3)] spec by blast
qed

end

text \<open>A table of fixed capacity, which refuses exactly when every handle is in use.\<close>

locale bounded_handle_table = handle_table +
  fixes cap :: nat
  assumes finite_lookup: "inv s \<Longrightarrow> finite (dom (lookup s))"
    and ins_full: "inv s \<Longrightarrow> ins a s = None \<longleftrightarrow> cap \<le> card (dom (lookup s))"
begin

lemma ins_card:
  "inv s \<Longrightarrow> ins a s = Some (s', h) \<Longrightarrow> card (dom (lookup s')) = Suc (card (dom (lookup s)))"
  using ins_lookup [of s a s' h] ins_fresh [of s a s' h] finite_lookup [of s]
  by (simp add: domIff)

lemma insert_all_fits:
  "inv s \<Longrightarrow> card (dom (lookup s)) \<le> cap \<Longrightarrow>
     (insert_all ins as s \<noteq> None) = (card (dom (lookup s)) + length as \<le> cap)"
proof (induction as arbitrary: s)
  case (Cons a as)
  show ?case
  proof (cases "ins a s")
    case None
    with Cons.prems ins_full [of s a] show ?thesis by simp
  next
    case (Some r)
    obtain s1 h where r: "r = (s1, h)" by (cases r)
    have c: "card (dom (lookup s1)) = Suc (card (dom (lookup s)))" and i: "inv s1"
      using Cons.prems(1) Some r by (auto intro: ins_card ins_inv)
    have "\<not> cap \<le> card (dom (lookup s))"
      using Some ins_full [OF Cons.prems(1), of a] by simp
    with c have "card (dom (lookup s1)) \<le> cap" by simp
    from Cons.IH [OF i this] c Some r show ?thesis by (auto split: option.splits)
  qed
qed simp

lemma insert_all_from_empty_fits:
  assumes "inv s" "lookup s = Map.empty"
  shows "insert_all ins as s \<noteq> None \<longleftrightarrow> length as \<le> cap"
  using insert_all_fits [OF assms(1), of as] by (simp add: assms(2))

end

subsection \<open>Bounded FIFO queues\<close>

locale bounded_queue =
  fixes inv :: "'s \<Rightarrow> bool"
    and contents :: "'s \<Rightarrow> 'b list"
    and sent :: "'a \<Rightarrow> 'b"
    and got :: "'c \<Rightarrow> 'b"
    and okay :: "'a \<Rightarrow> bool"
    and enq :: "'a \<Rightarrow> 's \<Rightarrow> 's option"
    and deq :: "'s \<Rightarrow> ('c \<times> 's) option"
    and cap :: nat
  assumes enq_iff: "inv s \<Longrightarrow> okay x \<Longrightarrow> enq x s = None \<longleftrightarrow> cap \<le> length (contents s)"
    and enq_contents: "inv s \<Longrightarrow> okay x \<Longrightarrow> enq x s = Some s' \<Longrightarrow> contents s' = contents s @ [sent x]"
    and enq_inv: "inv s \<Longrightarrow> okay x \<Longrightarrow> enq x s = Some s' \<Longrightarrow> inv s'"
    and deq_iff: "inv s \<Longrightarrow> deq s = None \<longleftrightarrow> contents s = []"
    and deq_contents: "inv s \<Longrightarrow> deq s = Some (y, s') \<Longrightarrow> contents s = got y # contents s'"
    and deq_inv: "inv s \<Longrightarrow> deq s = Some (y, s') \<Longrightarrow> inv s'"
begin

text \<open>Whatever the interleaving, what is delivered followed by what is still queued is what was
  queued at the start followed by what was accepted.\<close>

lemma queue_run_fifo:
  "inv s \<Longrightarrow> \<forall>x. Some x \<in> set ops \<longrightarrow> okay x \<Longrightarrow> queue_run enq deq ops s = (s', xs, ys) \<Longrightarrow>
     inv s' \<and> contents s @ map sent xs = map got ys @ contents s'"
proof (induction ops arbitrary: s s' xs ys)
  case (Cons op ops)
  have rest: "\<forall>x. Some x \<in> set ops \<longrightarrow> okay x" using Cons.prems(2) by simp
  show ?case
  proof (cases op)
    case None
    show ?thesis
    proof (cases "deq s")
      case (Some r)
      obtain y s1 where r: "r = (y, s1)" by (cases r)
      obtain ys' where run: "queue_run enq deq ops s1 = (s', xs, ys')" and ys: "ys = y # ys'"
        using Cons.prems(3) \<open>op = None\<close> Some r by (auto split: prod.splits)
      have "inv s1" "contents s = got y # contents s1"
        using Cons.prems(1) Some r by (auto intro: deq_inv deq_contents)
      with Cons.IH [OF _ rest run] ys show ?thesis by simp
    qed (use Cons.IH [OF Cons.prems(1) rest] Cons.prems(3) \<open>op = None\<close> in simp)
  next
    case (Some x)
    then have ok: "okay x" using Cons.prems(2) by simp
    show ?thesis
    proof (cases "enq x s")
      case (Some s1)
      obtain xs' where run: "queue_run enq deq ops s1 = (s', xs', ys)" and xs: "xs = x # xs'"
        using Cons.prems(3) \<open>op = Some x\<close> Some by (auto split: prod.splits)
      have "inv s1" "contents s1 = contents s @ [sent x]"
        using Cons.prems(1) ok Some by (auto intro: enq_inv enq_contents)
      with Cons.IH [OF _ rest run] xs show ?thesis by simp
    qed (use Cons.IH [OF Cons.prems(1) rest] Cons.prems(3) \<open>op = Some x\<close> in simp)
  qed
qed simp

end

subsection \<open>Bounded partial maps\<close>

locale bounded_map =
  fixes inv :: "'s \<Rightarrow> bool"
    and lookup :: "'s \<Rightarrow> 'k \<Rightarrow> 'v option"
    and upd :: "'k \<Rightarrow> 'v \<Rightarrow> 's \<Rightarrow> 's option"
    and cap :: nat
  assumes upd_inv: "inv s \<Longrightarrow> upd k v s = Some s' \<Longrightarrow> inv s'"
    and upd_lookup: "inv s \<Longrightarrow> upd k v s = Some s' \<Longrightarrow> lookup s' = (lookup s)(k \<mapsto> v)"
    and upd_full: "inv s \<Longrightarrow> upd k v s = None \<longleftrightarrow> k \<notin> dom (lookup s) \<and> cap \<le> card (dom (lookup s))"
    and finite_lookup: "inv s \<Longrightarrow> finite (dom (lookup s))"
begin

text \<open>After a run of updates every key holds the value written last.\<close>

lemma update_all_lookup:
  "inv s \<Longrightarrow> update_all upd kvs s = Some s' \<Longrightarrow> inv s' \<and> lookup s' = lookup s ++ map_of (rev kvs)"
proof (induction kvs arbitrary: s)
  case (Cons kv kvs)
  obtain k v where kv: "kv = (k, v)" by (cases kv)
  with Cons.prems(2) obtain s1 where s1: "upd k v s = Some s1"
    and rest: "update_all upd kvs s1 = Some s'"
    by (auto split: option.splits)
  have "inv s1" "lookup s1 = (lookup s)(k \<mapsto> v)"
    using Cons.prems(1) s1 by (auto intro: upd_inv upd_lookup)
  with Cons.IH [OF _ rest] kv show ?case
    by (auto simp: map_add_def fun_eq_iff split: option.splits)
qed simp

text \<open>A run of updates succeeds as long as the keys in use fit.\<close>

lemma update_all_fits:
  "inv s \<Longrightarrow> card (dom (lookup s) \<union> fst ` set kvs) \<le> cap \<Longrightarrow> update_all upd kvs s \<noteq> None"
proof (induction kvs arbitrary: s)
  case (Cons kv kvs)
  obtain k v where kv: "kv = (k, v)" by (cases kv)
  let ?all = "dom (lookup s) \<union> fst ` set (kv # kvs)"
  have fin: "finite ?all" using finite_lookup Cons.prems(1) by simp
  have "upd k v s \<noteq> None"
  proof
    assume "upd k v s = None"
    then have full: "k \<notin> dom (lookup s)" "cap \<le> card (dom (lookup s))"
      using upd_full Cons.prems(1) by auto
    then have "dom (lookup s) \<subset> ?all" using kv by auto
    then have "card (dom (lookup s)) < card ?all" by (rule psubset_card_mono [OF fin])
    with full Cons.prems(2) show False by simp
  qed
  then obtain s1 where s1: "upd k v s = Some s1" by auto
  then have "inv s1" "dom (lookup s1) \<union> fst ` set kvs = ?all"
    using Cons.prems(1) upd_inv upd_lookup kv by auto
  with Cons.IH [of s1] Cons.prems(2) s1 kv show ?case by simp
qed simp

end

subsection \<open>Machines with an invariant\<close>

locale invariant_machine =
  fixes start :: "'s \<Rightarrow> bool" and step :: "'s \<Rightarrow> 's \<Rightarrow> bool" and inv :: "'s \<Rightarrow> bool"
  assumes start_inv: "start s \<Longrightarrow> inv s"
    and step_inv: "inv s \<Longrightarrow> step s t \<Longrightarrow> inv t"
begin

lemma reach_inv: "reach start step s \<Longrightarrow> inv s"
  by (induction rule: reach.induct) (auto intro: start_inv step_inv)

end

subsection \<open>Calls that implement a specification\<close>

text \<open>
  A sequence of calls and what each returned; a run that gets stuck has no result.  The specification
  of a call relates the abstract state before it, what it returned and the abstract state after it,
  so that it may leave choices (an allocation that fails) to the implementation.  A client keeps the
  contract when every call of its sequence is allowed in whatever abstract state it may be made in.
\<close>

fun call_run :: "('o \<Rightarrow> 's \<Rightarrow> ('r \<times> 's) option) \<Rightarrow> 'o list \<Rightarrow> 's \<Rightarrow> ('r list \<times> 's) option" where
  "call_run exec [] s = Some ([], s)"
| "call_run exec (op # ops) s =
     (case exec op s of
        None \<Rightarrow> None
      | Some (r, s1) \<Rightarrow> map_option (\<lambda>(rs, s2). (r # rs, s2)) (call_run exec ops s1))"

inductive spec_run :: "('o \<Rightarrow> 'a \<Rightarrow> 'r \<Rightarrow> 'a \<Rightarrow> bool) \<Rightarrow> 'o list \<Rightarrow> 'a \<Rightarrow> 'r list \<Rightarrow> 'a \<Rightarrow> bool"
  for spec :: "'o \<Rightarrow> 'a \<Rightarrow> 'r \<Rightarrow> 'a \<Rightarrow> bool" where
  spec_stop: "spec_run spec [] a [] a"
| spec_call: "spec op a r b \<Longrightarrow> spec_run spec ops b rs c \<Longrightarrow> spec_run spec (op # ops) a (r # rs) c"

inductive_simps spec_run_Nil [simp]: "spec_run spec [] a rs b"
inductive_simps spec_run_Cons [simp]: "spec_run spec (op # ops) a rs b"

fun keeps_contract :: "('o \<Rightarrow> 'a \<Rightarrow> bool) \<Rightarrow> ('o \<Rightarrow> 'a \<Rightarrow> 'r \<Rightarrow> 'a \<Rightarrow> bool) \<Rightarrow> 'o list \<Rightarrow> 'a \<Rightarrow> bool" where
  "keeps_contract allowed spec [] a \<longleftrightarrow> True"
| "keeps_contract allowed spec (op # ops) a \<longleftrightarrow>
     allowed op a \<and> (\<forall>r b. spec op a r b \<longrightarrow> keeps_contract allowed spec ops b)"

lemma keeps_contract_static: "\<forall>op \<in> set ops. \<forall>a. allowed op a \<Longrightarrow> keeps_contract allowed spec ops a"
  by (induction ops arbitrary: a) auto

locale call_refinement =
  fixes sim :: "'s \<Rightarrow> 'a \<Rightarrow> bool"
    and exec :: "'o \<Rightarrow> 's \<Rightarrow> ('r \<times> 's) option"
    and allowed :: "'o \<Rightarrow> 'a \<Rightarrow> bool"
    and spec :: "'o \<Rightarrow> 'a \<Rightarrow> 'r \<Rightarrow> 'a \<Rightarrow> bool"
  assumes exec_sim: "sim s a \<Longrightarrow> allowed op a \<Longrightarrow> \<exists>r t b. exec op s = Some (r, t) \<and> spec op a r b \<and> sim t b"
begin

text \<open>A client that keeps the contract gets through its sequence, and sees a run of the specification.\<close>

lemma run_sim:
  "sim s a \<Longrightarrow> keeps_contract allowed spec ops a \<Longrightarrow>
     \<exists>rs t b. call_run exec ops s = Some (rs, t) \<and> spec_run spec ops a rs b \<and> sim t b"
proof (induction ops arbitrary: s a)
  case (Cons op ops)
  then obtain r s1 a1 where s1: "exec op s = Some (r, s1)" "spec op a r a1" "sim s1 a1"
    using exec_sim [of s a op] by auto
  with Cons obtain rs t b where "call_run exec ops s1 = Some (rs, t)" "spec_run spec ops a1 rs b" "sim t b"
    by fastforce
  with s1 show ?case by auto
qed simp

end

end
