(* ===== verification/Nova_Scheduler.thy ===== *)
theory Nova_Scheduler
  imports Nova_Core_Types Nova_Interfaces
begin

text \<open>
  The scheduler of \<open>kernel/core/scheduler.c\<close>: a table of 32 threads with priorities, states and
  consumed quanta.  The operations follow the C functions; an out-parameter is an option that
  is \<open>None\<close> where the C code leaves the caller's variable alone.  The theory shows the thread
  table to be a bounded handle table, characterises \<open>nova_sched_pick_next\<close> by the order
  \<open>preferred\<close> it implements, and derives the fair-share behaviour of pick-and-account rounds.
\<close>

record nova_thread_t =
  th_id :: u32
  th_priority :: u8
  th_quanta :: u64
  th_state :: nova_thread_state

record nova_scheduler_t =
  threads :: "nova_thread_t list"
  sched_count :: u64
  sched_tick :: u64

subsection \<open>Operations\<close>

definition nova_sched_init :: "nova_scheduler_t \<Rightarrow> nova_scheduler_t" where
  "nova_sched_init scheduler =
     scheduler\<lparr>sched_count := 0, sched_tick := 0,
       threads := fold (\<lambda>index ths. ths[index := (ths ! index)\<lparr>th_state := NOVA_THREAD_DEAD\<rparr>])
                    [0..<NOVA_MAX_THREADS] (threads scheduler)\<rparr>"

definition nova_sched_add ::
  "nova_scheduler_t \<Rightarrow> u8 \<Rightarrow> nova_result \<times> nova_scheduler_t \<times> u32 option" where
  "nova_sched_add scheduler priority =
     (case for_find (\<lambda>index. th_state (threads scheduler ! index) = NOVA_THREAD_DEAD)
             0 NOVA_MAX_THREADS of
        Some index \<Rightarrow>
          (let t = (threads scheduler ! index)
                     \<lparr>th_id := of_nat index + 1, th_priority := priority, th_quanta := 0,
                      th_state := NOVA_THREAD_RUNNABLE\<rparr>
           in (NOVA_OK,
               scheduler\<lparr>threads := (threads scheduler)[index := t],
                         sched_count := sched_count scheduler + 1\<rparr>,
               Some (th_id t)))
      | None \<Rightarrow> (NOVA_FULL, scheduler, None))"

definition nova_sched_set_state ::
  "nova_scheduler_t \<Rightarrow> u32 \<Rightarrow> nova_thread_state \<Rightarrow> nova_result \<times> nova_scheduler_t" where
  "nova_sched_set_state scheduler tid st =
     (if tid = 0 \<or> unat tid > NOVA_MAX_THREADS then (NOVA_NOT_FOUND, scheduler)
      else let index = unat tid - 1 in
        if th_state (threads scheduler ! index) = NOVA_THREAD_DEAD
        then (NOVA_NOT_FOUND, scheduler)
        else (NOVA_OK,
              scheduler\<lparr>threads := (threads scheduler)
                          [index := (threads scheduler ! index)\<lparr>th_state := st\<rparr>]\<rparr>))"

text \<open>One iteration of the selection loop; \<open>selected\<close> is the C variable, \<open>-1\<close> at the start.\<close>

definition pick_step :: "nova_thread_t list \<Rightarrow> nat \<Rightarrow> int \<Rightarrow> int" where
  "pick_step ths index selected =
     (let candidate = ths ! index in
      if th_state candidate \<noteq> NOVA_THREAD_RUNNABLE then selected
      else if selected < 0 then int index
      else let current = ths ! nat selected in
        if th_priority candidate > th_priority current \<or>
           (th_priority candidate = th_priority current \<and>
            th_quanta candidate < th_quanta current)
        then int index else selected)"

definition nova_sched_pick_next :: "nova_scheduler_t \<Rightarrow> int" where
  "nova_sched_pick_next scheduler =
     (let selected = fold (pick_step (threads scheduler)) [0..<NOVA_MAX_THREADS] (-1)
      in if selected < 0 then -1 else sint (th_id (threads scheduler ! nat selected)))"

definition nova_sched_account :: "nova_scheduler_t \<Rightarrow> u32 \<Rightarrow> nova_scheduler_t" where
  "nova_sched_account scheduler tid =
     (if tid = 0 \<or> unat tid > NOVA_MAX_THREADS then scheduler
      else let index = unat tid - 1; t = threads scheduler ! index in
        if th_state t \<noteq> NOVA_THREAD_DEAD
        then scheduler\<lparr>threads := (threads scheduler)[index := t\<lparr>th_quanta := th_quanta t + 1\<rparr>],
                       sched_tick := sched_tick scheduler + 1\<rparr>
        else scheduler)"

subsection \<open>Specification vocabulary\<close>

text \<open>The table invariant: 32 slots, and a live thread in slot \<open>i\<close> carries the id \<open>i + 1\<close>.\<close>

definition sched_wf :: "nova_scheduler_t \<Rightarrow> bool" where
  "sched_wf s \<longleftrightarrow> length (threads s) = NOVA_MAX_THREADS \<and>
     (\<forall>i < NOVA_MAX_THREADS. th_state (threads s ! i) \<noteq> NOVA_THREAD_DEAD \<longrightarrow>
        th_id (threads s ! i) = slot_id i)"

definition live_slots :: "nova_scheduler_t \<Rightarrow> nat set" where
  "live_slots s = {i. i < NOVA_MAX_THREADS \<and> th_state (threads s ! i) \<noteq> NOVA_THREAD_DEAD}"

text \<open>The live thread an id denotes, and the insertion interface of the thread table.\<close>

definition sched_lookup :: "nova_scheduler_t \<Rightarrow> u32 \<Rightarrow> nova_thread_t option" where
  "sched_lookup s tid =
     (if tid = 0 \<or> unat tid > NOVA_MAX_THREADS then None
      else let t = threads s ! (unat tid - 1) in
        if th_state t = NOVA_THREAD_DEAD then None else Some t)"

definition sched_ins :: "u8 \<Rightarrow> nova_scheduler_t \<Rightarrow> (nova_scheduler_t \<times> u32) option" where
  "sched_ins priority s =
     (case nova_sched_add s priority of (NOVA_OK, s', Some tid) \<Rightarrow> Some (s', tid) | _ \<Rightarrow> None)"

definition new_thread :: "u8 \<Rightarrow> u32 \<Rightarrow> nova_thread_t" where
  "new_thread priority tid =
     \<lparr>th_id = tid, th_priority = priority, th_quanta = 0, th_state = NOVA_THREAD_RUNNABLE\<rparr>"

definition runnable :: "nova_scheduler_t \<Rightarrow> nat \<Rightarrow> bool" where
  "runnable s i \<longleftrightarrow> i < NOVA_MAX_THREADS \<and> th_state (threads s ! i) = NOVA_THREAD_RUNNABLE"

text \<open>The order that selection implements: higher priority, then fewer quanta, then lower slot.\<close>

definition preferred :: "nova_thread_t list \<Rightarrow> nat \<Rightarrow> nat \<Rightarrow> bool" where
  "preferred ths i j \<longleftrightarrow>
     th_priority (ths ! j) < th_priority (ths ! i) \<or>
     th_priority (ths ! j) = th_priority (ths ! i) \<and>
       (th_quanta (ths ! i) < th_quanta (ths ! j) \<or>
        th_quanta (ths ! i) = th_quanta (ths ! j) \<and> i \<le> j)"

text \<open>The same order as a linear order of ranks, the better rank being the greater one.\<close>

datatype rank = Rank u8 u64 nat

instantiation rank :: linorder
begin

fun less_eq_rank :: "rank \<Rightarrow> rank \<Rightarrow> bool" where
  "Rank p q i \<le> Rank p' q' i' \<longleftrightarrow> p < p' \<or> p = p' \<and> (q' < q \<or> q = q' \<and> i' \<le> i)"

definition less_rank :: "rank \<Rightarrow> rank \<Rightarrow> bool" where
  "less_rank r r' \<longleftrightarrow> r \<le> r' \<and> \<not> r' \<le> r"

instance
proof
  fix r r' r'' :: rank
  show "r < r' \<longleftrightarrow> r \<le> r' \<and> \<not> r' \<le> r" by (rule less_rank_def)
  show "r \<le> r" by (cases r) simp
  show "r \<le> r' \<Longrightarrow> r' \<le> r'' \<Longrightarrow> r \<le> r''" by (cases r; cases r'; cases r'') auto
  show "r \<le> r' \<Longrightarrow> r' \<le> r \<Longrightarrow> r = r'" by (cases r; cases r') auto
  show "r \<le> r' \<or> r' \<le> r" by (cases r; cases r') auto
qed

end

definition rank_of :: "nova_thread_t list \<Rightarrow> nat \<Rightarrow> rank" where
  "rank_of ths i = Rank (th_priority (ths ! i)) (th_quanta (ths ! i)) i"

fun rank_slot :: "rank \<Rightarrow> nat" where
  "rank_slot (Rank p q i) = i"

lemma preferred_rank: "preferred ths i j \<longleftrightarrow> rank_of ths j \<le> rank_of ths i"
  by (auto simp: preferred_def rank_of_def)

text \<open>Reference: the slot of the greatest rank among the runnable threads.\<close>

definition sched_pick_reference :: "nova_scheduler_t \<Rightarrow> int" where
  "sched_pick_reference s =
     (let ranks = rank_of (threads s) ` {i. runnable s i}
      in if ranks = {} then -1 else int (rank_slot (Max ranks)) + 1)"

text \<open>A scheduling round: run the thread that \<open>nova_sched_pick_next\<close> names and account for it.\<close>

definition sched_round :: "nova_scheduler_t \<Rightarrow> nova_scheduler_t" where
  "sched_round s =
     (let r = nova_sched_pick_next s in
      if r < 0 then s else nova_sched_account s (word_of_int r))"

text \<open>The slots that compete for the processor: runnable, at the highest runnable priority.\<close>

definition top_slots :: "nova_scheduler_t \<Rightarrow> nat set" where
  "top_slots s =
     {i. runnable s i \<and>
         (\<forall>j. runnable s j \<longrightarrow> th_priority (threads s ! j) \<le> th_priority (threads s ! i))}"

abbreviation quanta_of :: "nova_scheduler_t \<Rightarrow> nat \<Rightarrow> nat" where
  "quanta_of s i \<equiv> unat (th_quanta (threads s ! i))"

text \<open>Sequences of calls, and the cycle that creates a thread and kills it again.\<close>

datatype sched_op = Sched_add u8 | Sched_set_state u32 nova_thread_state | Sched_account u32

fun sched_exec :: "sched_op \<Rightarrow> nova_scheduler_t \<Rightarrow> nova_scheduler_t" where
  "sched_exec (Sched_add p) s = fst (snd (nova_sched_add s p))"
| "sched_exec (Sched_set_state tid st) s = snd (nova_sched_set_state s tid st)"
| "sched_exec (Sched_account tid) s = nova_sched_account s tid"

fun is_kill :: "sched_op \<Rightarrow> bool" where
  "is_kill (Sched_set_state tid st) = (st = NOVA_THREAD_DEAD)"
| "is_kill _ = False"

definition add_and_kill :: "nova_scheduler_t \<Rightarrow> nova_scheduler_t" where
  "add_and_kill s =
     (case nova_sched_add s 10 of
        (r, s', Some tid) \<Rightarrow> snd (nova_sched_set_state s' tid NOVA_THREAD_DEAD)
      | (r, s', None) \<Rightarrow> s')"

text \<open>A scheduler in memory that was never initialised (every byte is arbitrary; here zero).\<close>

definition blank_thread :: nova_thread_t where
  "blank_thread =
     \<lparr>th_id = 0, th_priority = 0, th_quanta = 0, th_state = NOVA_THREAD_DEAD\<rparr>"

definition blank_scheduler :: nova_scheduler_t where
  "blank_scheduler =
     \<lparr>threads = replicate NOVA_MAX_THREADS blank_thread, sched_count = 7, sched_tick = 9\<rparr>"

text \<open>The state of the host test: two threads of priorities 10 and 50.\<close>

definition demo_scheduler :: nova_scheduler_t where
  "demo_scheduler = fold sched_exec [Sched_add 10, Sched_add 50] (nova_sched_init blank_scheduler)"

subsection \<open>The thread table\<close>

lemma sched_wf_init:
  assumes "length (threads s) = NOVA_MAX_THREADS"
  shows "sched_wf (nova_sched_init s) \<and> live_slots (nova_sched_init s) = {}"
  using assms by (auto simp: nova_sched_init_def sched_wf_def live_slots_def fold_upd_all)

lemma new_thread_eq [simp]:
  "t\<lparr>th_id := tid, th_priority := p, th_quanta := 0, th_state := NOVA_THREAD_RUNNABLE\<rparr> =
     new_thread p tid"
  by (cases t) (simp add: new_thread_def)

lemma new_thread_sel [simp]:
  "th_id (new_thread p tid) = tid" "th_priority (new_thread p tid) = p"
  "th_quanta (new_thread p tid) = 0" "th_state (new_thread p tid) = NOVA_THREAD_RUNNABLE"
  by (simp_all add: new_thread_def)

lemma add_cases [consumes 1, case_names full added]:
  assumes wf: "sched_wf s"
  obtains (full) "live_slots s = {..<NOVA_MAX_THREADS}" "nova_sched_add s p = (NOVA_FULL, s, None)"
  | (added) i where "i < NOVA_MAX_THREADS" "i \<notin> live_slots s" "\<And>j. j < i \<Longrightarrow> j \<in> live_slots s"
      "nova_sched_add s p =
         (NOVA_OK, s\<lparr>threads := (threads s)[i := new_thread p (slot_id i)],
                     sched_count := sched_count s + 1\<rparr>, Some (slot_id i))"
proof (cases "for_find (\<lambda>i. th_state (threads s ! i) = NOVA_THREAD_DEAD) 0 NOVA_MAX_THREADS")
  case None
  then have "live_slots s = {..<NOVA_MAX_THREADS}"
    by (auto simp: for_find_None live_slots_def)
  with None full show ?thesis by (simp add: nova_sched_add_def)
next
  case (Some i)
  then have "i < NOVA_MAX_THREADS" "i \<notin> live_slots s" "\<And>j. j < i \<Longrightarrow> j \<in> live_slots s"
    by (auto simp: for_find_Some_iff live_slots_def)
  with Some added [of i] show ?thesis
    by (simp add: nova_sched_add_def)
qed

lemma lookup_slot:
  "i < NOVA_MAX_THREADS \<Longrightarrow>
     sched_lookup s (slot_id i) = (if i \<in> live_slots s then Some (threads s ! i) else None)"
  by (simp add: sched_lookup_def live_slots_def unat_slot_id slot_id_nonzero)

lemma lookup_bad: "tid = 0 \<or> unat tid > NOVA_MAX_THREADS \<Longrightarrow> sched_lookup s tid = None"
  by (simp add: sched_lookup_def)

lemma dom_sched_lookup: "dom (sched_lookup s) = slot_id ` live_slots s"
proof (rule set_eqI)
  fix tid
  show "tid \<in> dom (sched_lookup s) \<longleftrightarrow> tid \<in> slot_id ` live_slots s"
  proof (cases tid rule: id_cases [of _ NOVA_MAX_THREADS])
    case bad
    moreover have "slot_id i \<noteq> 0 \<and> \<not> unat (slot_id i) > NOVA_MAX_THREADS" if "i \<in> live_slots s" for i
      using that by (simp add: live_slots_def unat_slot_id slot_id_nonzero)
    ultimately show ?thesis by (auto simp: domIff lookup_bad)
  next
    case (slot i)
    then show ?thesis
      by (auto simp: domIff lookup_slot image_iff live_slots_def of_nat_u32_inject)
  qed
qed

lemma finite_live_slots [simp]: "finite (live_slots s)"
  by (simp add: live_slots_def)

lemma card_dom_sched_lookup: "card (dom (sched_lookup s)) = card (live_slots s)"
  unfolding dom_sched_lookup
  by (rule card_image) (auto simp: inj_on_def live_slots_def of_nat_u32_inject)

lemma live_slots_full_iff:
  "live_slots s = {..<NOVA_MAX_THREADS} \<longleftrightarrow> NOVA_MAX_THREADS \<le> card (live_slots s)"
proof
  assume "NOVA_MAX_THREADS \<le> card (live_slots s)"
  moreover have "live_slots s \<subseteq> {..<NOVA_MAX_THREADS}" by (auto simp: live_slots_def)
  ultimately show "live_slots s = {..<NOVA_MAX_THREADS}"
    by (intro card_seteq) auto
qed simp

lemma lookup_set_slot:
  assumes "i < NOVA_MAX_THREADS" "length (threads s) = NOVA_MAX_THREADS"
    and "threads s' = (threads s)[i := t]"
  shows "sched_lookup s' =
    (sched_lookup s)(slot_id i := (if th_state t = NOVA_THREAD_DEAD then None else Some t))"
    (is "_ = ?new")
proof
  fix tid
  show "sched_lookup s' tid = ?new tid"
  proof (cases tid rule: id_cases [of _ NOVA_MAX_THREADS])
    case bad
    then have "tid \<noteq> slot_id i" using assms(1) by (auto simp: unat_slot_id slot_id_nonzero)
    with bad show ?thesis by (simp add: lookup_bad)
  next
    case (slot j)
    with assms show ?thesis
      by (auto simp: lookup_slot live_slots_def of_nat_u32_inject nth_list_update)
  qed
qed

lemma sched_wf_set_slot:
  assumes "sched_wf s" "i < NOVA_MAX_THREADS" "threads s' = (threads s)[i := t]"
    "th_state t \<noteq> NOVA_THREAD_DEAD \<Longrightarrow> th_id t = slot_id i"
  shows "sched_wf s'"
  using assms by (auto simp: sched_wf_def nth_list_update)

lemma sched_ins_cases:
  assumes wf: "sched_wf s" and ins: "sched_ins p s = Some (s', tid)"
  obtains i where "i < NOVA_MAX_THREADS" "i \<notin> live_slots s" "tid = slot_id i"
    "threads s' = (threads s)[i := new_thread p (slot_id i)]"
    "sched_count s' = sched_count s + 1" "sched_tick s' = sched_tick s"
  using ins by (cases rule: add_cases [OF wf, of p]) (auto simp: sched_ins_def)

interpretation sched_table:
  bounded_handle_table sched_wf sched_lookup sched_ins new_thread NOVA_MAX_THREADS
proof
  fix s :: nova_scheduler_t and p s' tid
  assume wf: "sched_wf s" and ins: "sched_ins p s = Some (s', tid)"
  have len: "length (threads s) = NOVA_MAX_THREADS" using wf by (simp add: sched_wf_def)
  obtain i where i: "i < NOVA_MAX_THREADS" "i \<notin> live_slots s" "tid = slot_id i"
    "threads s' = (threads s)[i := new_thread p (slot_id i)]"
    using wf ins by (rule sched_ins_cases)
  show "sched_wf s'" using wf i by (auto intro: sched_wf_set_slot)
  show "sched_lookup s tid = None" using i by (simp add: lookup_slot)
  show "sched_lookup s' = (sched_lookup s)(tid \<mapsto> new_thread p tid)"
    using lookup_set_slot [OF i(1) len i(4)] i(3) by simp
next
  fix s :: nova_scheduler_t and p
  assume wf: "sched_wf s"
  show "finite (dom (sched_lookup s))" by (simp add: dom_sched_lookup)
  show "(sched_ins p s = None) = (NOVA_MAX_THREADS \<le> card (dom (sched_lookup s)))"
    unfolding card_dom_sched_lookup live_slots_full_iff [symmetric]
    by (cases rule: add_cases [OF wf, of p]) (auto simp: sched_ins_def)
qed

lemma set_state_cases [consumes 1, case_names missing found]:
  assumes wf: "sched_wf s"
  obtains (missing) "sched_lookup s tid = None" "nova_sched_set_state s tid st = (NOVA_NOT_FOUND, s)"
  | (found) i where "i < NOVA_MAX_THREADS" "i \<in> live_slots s" "tid = slot_id i"
      "nova_sched_set_state s tid st =
         (NOVA_OK, s\<lparr>threads := (threads s)[i := (threads s ! i)\<lparr>th_state := st\<rparr>]\<rparr>)"
proof (cases tid rule: id_cases [of _ NOVA_MAX_THREADS])
  case bad
  with missing show ?thesis by (auto simp: nova_sched_set_state_def lookup_bad)
next
  case (slot i)
  with missing found [of i] show ?thesis
    by (cases "i \<in> live_slots s")
      (auto simp: nova_sched_set_state_def lookup_slot live_slots_def unat_slot_id slot_id_nonzero)
qed

lemma account_cases:
  obtains (missing) "sched_lookup s tid = None" "nova_sched_account s tid = s"
  | (found) i where "i < NOVA_MAX_THREADS" "i \<in> live_slots s" "tid = slot_id i"
      "nova_sched_account s tid =
         s\<lparr>threads := (threads s)[i := (threads s ! i)\<lparr>th_quanta := th_quanta (threads s ! i) + 1\<rparr>],
           sched_tick := sched_tick s + 1\<rparr>"
proof (cases tid rule: id_cases [of _ NOVA_MAX_THREADS])
  case bad
  with missing show ?thesis by (auto simp: nova_sched_account_def lookup_bad)
next
  case (slot i)
  with missing found [of i] show ?thesis
    by (cases "i \<in> live_slots s")
      (auto simp: nova_sched_account_def Let_def lookup_slot live_slots_def unat_slot_id slot_id_nonzero)
qed

lemma sched_wf_add [nova_inv]:
  assumes "sched_wf s" shows "sched_wf (fst (snd (nova_sched_add s p)))"
  by (cases rule: add_cases [OF assms, of p]) (auto intro: sched_wf_set_slot assms)

lemma sched_wf_set_state [nova_inv]:
  assumes "sched_wf s" shows "sched_wf (snd (nova_sched_set_state s tid st))"
  using assms
proof (cases rule: set_state_cases [of s tid st])
  case (found i)
  with assms show ?thesis
    by (auto simp: sched_wf_def live_slots_def nth_list_update)
qed (use assms in simp)

lemma sched_wf_account [nova_inv]:
  assumes "sched_wf s" shows "sched_wf (nova_sched_account s tid)"
proof (cases rule: account_cases [of s tid])
  case (found i)
  with assms show ?thesis
    by (auto simp: sched_wf_def live_slots_def nth_list_update)
qed (use assms in simp)

subsection \<open>Selection\<close>

text \<open>What the loop has established after the first \<open>n\<close> slots.\<close>

definition best_upto :: "nova_thread_t list \<Rightarrow> nat \<Rightarrow> int \<Rightarrow> bool" where
  "best_upto ths n sel \<longleftrightarrow>
     (if sel < 0 then sel = -1 \<and> (\<forall>j < n. th_state (ths ! j) \<noteq> NOVA_THREAD_RUNNABLE)
      else nat sel < n \<and> th_state (ths ! nat sel) = NOVA_THREAD_RUNNABLE \<and>
           (\<forall>j < n. th_state (ths ! j) = NOVA_THREAD_RUNNABLE \<longrightarrow> preferred ths (nat sel) j))"

lemma preferred_trans: "preferred ths i j \<Longrightarrow> preferred ths j k \<Longrightarrow> preferred ths i k"
  unfolding preferred_rank by (rule order_trans)

lemma preferred_refl: "preferred ths i i"
  by (simp add: preferred_rank)

lemma best_upto_step: "best_upto ths n sel \<Longrightarrow> best_upto ths (Suc n) (pick_step ths n sel)"
proof (cases "th_state (ths ! n) = NOVA_THREAD_RUNNABLE \<and> 0 \<le> sel")
  case False
  then show "best_upto ths n sel \<Longrightarrow> ?thesis"
    by (auto simp: best_upto_def pick_step_def Let_def less_Suc_eq preferred_refl)
next
  case True
  assume best: "best_upto ths n sel"
  let ?beats = "th_priority (ths ! n) > th_priority (ths ! nat sel) \<or>
    (th_priority (ths ! n) = th_priority (ths ! nat sel) \<and> th_quanta (ths ! n) < th_quanta (ths ! nat sel))"
  show ?thesis
  proof (cases ?beats)
    case b: True
    then have "preferred ths n (nat sel)" by (auto simp: preferred_def)
    with best True b show ?thesis
      by (auto simp: best_upto_def pick_step_def Let_def less_Suc_eq preferred_refl intro: preferred_trans)
  next
    case b: False
    with best True have "preferred ths (nat sel) n"
      by (auto simp: best_upto_def preferred_def not_less order_le_less)
    moreover have "pick_step ths n sel = sel"
      unfolding pick_step_def Let_def using b True by (simp only: if_False) auto
    ultimately show ?thesis using best True by (auto simp: best_upto_def less_Suc_eq)
  qed
qed

lemma best_upto_fold: "best_upto ths n (fold (pick_step ths) [0..<n] (-1))"
proof (induction n)
  case (Suc n)
  from best_upto_step [OF this] show ?case by simp
qed (simp add: best_upto_def)

lemma sint_slot_id:
  assumes "i < NOVA_MAX_THREADS" shows "sint (slot_id i) = int i + 1"
proof -
  have "sint (of_nat (Suc i) :: u32) = int (Suc i)"
    using assms by (simp only: signed_of_nat) (simp add: signed_take_bit_int_eq_self)
  then show ?thesis by (simp add: add.commute)
qed

lemma pick_next_cases [consumes 1, case_names idle picked]:
  assumes wf: "sched_wf s"
  obtains (idle) "\<forall>i. \<not> runnable s i" "nova_sched_pick_next s = -1"
  | (picked) i where "runnable s i" "\<forall>j. runnable s j \<longrightarrow> preferred (threads s) i j"
      "nova_sched_pick_next s = int i + 1"
proof -
  define sel where "sel = fold (pick_step (threads s)) [0..<NOVA_MAX_THREADS] (-1)"
  have best: "best_upto (threads s) NOVA_MAX_THREADS sel"
    unfolding sel_def by (rule best_upto_fold)
  have pick: "nova_sched_pick_next s = (if sel < 0 then -1 else sint (th_id (threads s ! nat sel)))"
    by (simp add: nova_sched_pick_next_def sel_def Let_def del: upt_conv_Cons)
  show thesis
  proof (cases "sel < 0")
    case True
    with best have "\<forall>i. \<not> runnable s i" by (simp add: best_upto_def runnable_def)
    with True pick idle show ?thesis by simp
  next
    case False
    with best have run: "runnable s (nat sel)"
      and pref: "\<forall>j. runnable s j \<longrightarrow> preferred (threads s) (nat sel) j"
      by (auto simp: best_upto_def runnable_def)
    have "th_id (threads s ! nat sel) = slot_id (nat sel)"
      using wf run by (simp add: sched_wf_def runnable_def)
    then have "nova_sched_pick_next s = int (nat sel) + 1"
      using run False pick by (simp only: if_False sint_slot_id runnable_def)
    with run pref picked [of "nat sel"] show ?thesis by blast
  qed
qed

subsection \<open>Fair share\<close>

lemma sched_round_cases [consumes 1, case_names idle ran]:
  assumes wf: "sched_wf s"
  obtains (idle) "top_slots s = {}" "sched_round s = s"
  | (ran) k where "k \<in> top_slots s" "\<forall>j \<in> top_slots s. quanta_of s k \<le> quanta_of s j"
      "sched_round s = nova_sched_account s (slot_id k)"
  using wf
proof (cases rule: pick_next_cases)
  case idle
  then show ?thesis by (intro that(1)) (auto simp: top_slots_def sched_round_def)
next
  case (picked k)
  have "k \<in> top_slots s"
    using picked by (auto simp: top_slots_def preferred_def)
  moreover have "\<forall>j \<in> top_slots s. quanta_of s k \<le> quanta_of s j"
  proof
    fix j
    assume "j \<in> top_slots s"
    then have "preferred (threads s) k j" "th_priority (threads s ! k) \<le> th_priority (threads s ! j)"
      using picked by (simp_all add: top_slots_def)
    then show "quanta_of s k \<le> quanta_of s j"
      by (auto simp: preferred_def word_le_nat_alt [symmetric])
  qed
  moreover have "sched_round s = nova_sched_account s (slot_id k)"
    using picked(3) by (simp add: sched_round_def Let_def)
  ultimately show ?thesis by (rule that(2))
qed

lemma account_top:
  assumes wf: "sched_wf s" and k: "k \<in> top_slots s" and small: "Suc (quanta_of s k) < 2 ^ 64"
  defines "s' \<equiv> nova_sched_account s (slot_id k)"
  shows "sched_wf s'" "top_slots s' = top_slots s"
    "quanta_of s' i = (if i = k then Suc (quanta_of s k) else quanta_of s i)"
proof -
  have k32: "k < NOVA_MAX_THREADS" and live: "k \<in> live_slots s"
    using k by (auto simp: top_slots_def runnable_def live_slots_def)
  let ?t = "(threads s ! k)\<lparr>th_quanta := th_quanta (threads s ! k) + 1\<rparr>"
  have len: "length (threads s) = NOVA_MAX_THREADS" using wf by (simp add: sched_wf_def)
  have thr: "threads s' = (threads s)[k := ?t]"
    using k32 live unfolding s'_def nova_sched_account_def
    by (simp add: Let_def live_slots_def unat_slot_id slot_id_nonzero)
  show "sched_wf s'" unfolding s'_def by (rule sched_wf_account [OF wf])
  have same: "th_state (threads s' ! i) = th_state (threads s ! i)"
    "th_priority (threads s' ! i) = th_priority (threads s ! i)" for i
    by (cases "i = k"; use k32 len in \<open>simp add: thr\<close>)+
  then show "top_slots s' = top_slots s"
    by (simp add: top_slots_def runnable_def)
  show "quanta_of s' i = (if i = k then Suc (quanta_of s k) else quanta_of s i)"
    using small k32 len by (auto simp: thr unat_succ_no_wrap)
qed

text \<open>A list of counters that are within one of each other is determined by its sum.\<close>

lemma balanced_value:
  fixes q :: "nat \<Rightarrow> nat"
  assumes fin: "finite A" and i: "i \<in> A" and bal: "\<forall>i \<in> A. \<forall>j \<in> A. q i \<le> q j + 1"
    and total: "sum q A = card A * base + n"
  shows "q i = base + n div card A \<or> q i = base + n div card A + 1"
proof -
  obtain k where k: "k \<in> A" and least: "\<forall>j \<in> A. q k \<le> q j"
    using fin i by (metis arg_min_if_finite(1) arg_min_least empty_iff)
  let ?m = "card A" let ?d = "\<lambda>j. q j - q k"
  have m: "?m > 0" using fin i by (auto simp: card_gt_0_iff)
  have d: "?d j \<le> 1" if "j \<in> A" for j using bal k that by (simp add: le_diff_conv)
  have "sum q A = sum (\<lambda>j. q k + ?d j) A" using least by (intro sum.cong) auto
  also have "\<dots> = ?m * q k + sum ?d A" by (simp add: sum.distrib)
  finally have eq: "?m * base + n = ?m * q k + sum ?d A" using total by simp
  have "sum ?d A = sum ?d (A - {k})" using fin k by (simp add: sum.remove [of A k])
  also have "\<dots> \<le> card (A - {k})" using sum_mono [of "A - {k}" ?d "\<lambda>_. 1"] d by simp
  finally have r: "sum ?d A < ?m" using fin k m by simp
  have "(?m * base + n) div ?m = q k" unfolding eq using r m by simp
  then have "q k = base + n div ?m" using m by simp
  moreover have "q i = q k \<or> q i = q k + 1" using d [OF i] least i by force
  ultimately show ?thesis by simp
qed

lemma fair_rounds:
  assumes wf: "sched_wf s" and eq: "\<forall>i \<in> top_slots s. quanta_of s i = base"
    and small: "base + n < 2 ^ 64"
  shows "sched_wf ((sched_round ^^ n) s) \<and> top_slots ((sched_round ^^ n) s) = top_slots s \<and>
    (\<forall>i \<in> top_slots s. \<forall>j \<in> top_slots s.
       quanta_of ((sched_round ^^ n) s) i \<le> quanta_of ((sched_round ^^ n) s) j + 1) \<and>
    (top_slots s \<noteq> {} \<longrightarrow>
       sum (quanta_of ((sched_round ^^ n) s)) (top_slots s) = card (top_slots s) * base + n)"
  using small
proof (induction n)
  case 0
  then show ?case using wf eq by simp
next
  case (Suc n)
  let ?s = "(sched_round ^^ n) s" and ?A = "top_slots s"
  have fin: "finite ?A" by (rule finite_subset [of _ "{..<32}"]) (auto simp: top_slots_def runnable_def)
  have IH: "sched_wf ?s" "top_slots ?s = ?A"
    "\<forall>i \<in> ?A. \<forall>j \<in> ?A. quanta_of ?s i \<le> quanta_of ?s j + 1"
    "?A \<noteq> {} \<Longrightarrow> sum (quanta_of ?s) ?A = card ?A * base + n"
    using Suc.IH Suc.prems by simp_all
  from IH(1) show ?case
  proof (cases rule: sched_round_cases)
    case idle
    then show ?thesis using IH by simp
  next
    case (ran k)
    have kA: "k \<in> ?A" and least: "\<forall>j \<in> ?A. quanta_of ?s k \<le> quanta_of ?s j"
      using ran IH(2) by auto
    have "card ?A * quanta_of ?s k \<le> sum (quanta_of ?s) ?A"
      using sum_mono [of ?A "\<lambda>_. quanta_of ?s k" "quanta_of ?s"] least by simp
    also have "\<dots> = card ?A * base + n" using IH(4) kA by blast
    also have "\<dots> \<le> card ?A * (base + n)"
      using fin kA by (auto simp: add_mult_distrib2 card_gt_0_iff Suc_le_eq)
    finally have "quanta_of ?s k \<le> base + n"
      using fin kA by (auto simp: card_gt_0_iff)
    then have small: "Suc (quanta_of ?s k) < 2 ^ 64" using Suc.prems by simp
    note upd = account_top [OF IH(1) ran(1) small, folded ran(3)]
    have "sum (quanta_of (sched_round ?s)) ?A = Suc (quanta_of ?s k) + sum (quanta_of ?s) (?A - {k})"
      using fin kA upd(3) by (simp add: sum.remove [of ?A k])
    also have "\<dots> = Suc (sum (quanta_of ?s) ?A)" using fin kA by (simp add: sum.remove [of ?A k])
    finally have total: "sum (quanta_of (sched_round ?s)) ?A = card ?A * base + Suc n"
      using IH(4) kA by auto
    have "\<forall>i \<in> ?A. \<forall>j \<in> ?A. quanta_of (sched_round ?s) i \<le> quanta_of (sched_round ?s) j + 1"
    proof (intro ballI)
      fix i j
      assume "i \<in> ?A" "j \<in> ?A"
      then show "quanta_of (sched_round ?s) i \<le> quanta_of (sched_round ?s) j + 1"
        using IH(3) [rule_format, of i j] least [rule_format, of j] unfolding upd(3) by auto
    qed
    with upd(1,2) IH(2) total show ?thesis by simp
  qed
qed

subsection \<open>The live-thread counter\<close>

lemma live_slots_set_slot:
  "i < NOVA_MAX_THREADS \<Longrightarrow> length (threads s) = NOVA_MAX_THREADS \<Longrightarrow>
     threads s' = (threads s)[i := t] \<Longrightarrow>
     live_slots s' = (if th_state t = NOVA_THREAD_DEAD then live_slots s - {i} else insert i (live_slots s))"
  by (auto simp: live_slots_def nth_list_update split: if_splits)

lemma sched_exec_wf: "sched_wf s \<Longrightarrow> sched_wf (sched_exec op s)"
  by (cases op) (auto simp: nova_inv)

lemma count_exec:
  assumes wf: "sched_wf s" and nk: "\<not> is_kill op" and count: "sched_count s = of_nat (card (live_slots s))"
  shows "sched_count (sched_exec op s) = of_nat (card (live_slots (sched_exec op s)))"
proof -
  have len: "length (threads s) = NOVA_MAX_THREADS" using wf by (simp add: sched_wf_def)
  show ?thesis
  proof (cases op)
    case (Sched_add p)
    from wf show ?thesis
    proof (cases rule: add_cases [of s p])
      case (added i)
      then have thr: "threads (sched_exec op s) = (threads s)[i := new_thread p (slot_id i)]"
        using Sched_add by simp
      have "live_slots (sched_exec op s) = insert i (live_slots s)"
        using live_slots_set_slot [OF added(1) len thr] by simp
      with added Sched_add count show ?thesis by (simp add: add.commute)
    qed (use Sched_add count in simp)
  next
    case (Sched_set_state tid st)
    from wf show ?thesis
    proof (cases rule: set_state_cases [of s tid st])
      case (found i)
      with nk Sched_set_state have "live_slots (sched_exec op s) = live_slots s"
        using len by (auto simp: live_slots_def nth_list_update)
      with found Sched_set_state count show ?thesis by simp
    qed (use Sched_set_state count in simp)
  next
    case (Sched_account tid)
    show ?thesis
    proof (cases rule: account_cases [of s tid])
      case (found i)
      with Sched_account have "live_slots (sched_exec op s) = live_slots s"
        using len by (auto simp: live_slots_def nth_list_update)
      with found Sched_account count show ?thesis by simp
    qed (use Sched_account count in simp)
  qed
qed

lemma add_and_kill_effect:
  assumes wf: "sched_wf s" and empty: "live_slots s = {}"
  shows "sched_wf (add_and_kill s) \<and> live_slots (add_and_kill s) = {} \<and>
         sched_count (add_and_kill s) = sched_count s + 1"
proof -
  have len: "length (threads s) = NOVA_MAX_THREADS" using wf by (simp add: sched_wf_def)
  from wf show ?thesis
  proof (cases rule: add_cases [of s 10])
    case full
    then have "(0::nat) \<in> live_slots s" by simp
    then show ?thesis by (simp add: empty)
  next
    case (added i)
    let ?s1 = "s\<lparr>threads := (threads s)[i := new_thread 10 (slot_id i)], sched_count := sched_count s + 1\<rparr>"
    let ?s2 = "?s1\<lparr>threads := (threads ?s1)[i := (threads ?s1 ! i)\<lparr>th_state := NOVA_THREAD_DEAD\<rparr>]\<rparr>"
    have wf1: "sched_wf ?s1" using sched_wf_add [OF wf, of 10] added(4) by simp
    have "nova_sched_set_state ?s1 (slot_id i) NOVA_THREAD_DEAD = (NOVA_OK, ?s2)"
      using added(1) len by (simp add: nova_sched_set_state_def unat_slot_id slot_id_nonzero)
    then have eq: "add_and_kill s = ?s2" by (simp add: add_and_kill_def added(4))
    have "sched_wf ?s2"
      using sched_wf_set_state [OF wf1, of "slot_id i" NOVA_THREAD_DEAD] \<open>nova_sched_set_state _ _ _ = _\<close>
      by simp
    then show ?thesis
      unfolding eq using empty added(1) len by (auto simp: live_slots_def nth_list_update)
  qed
qed

subsection \<open>Properties\<close>

text \<open>
  Selection: on a well-formed scheduler \<open>nova_sched_pick_next\<close> returns \<open>-1\<close> exactly when
  no thread is runnable, and otherwise the id of a runnable thread that no runnable thread beats:
  its priority is the highest, among those its consumed quanta are the fewest, and among those its
  slot is the lowest.
\<close>

lemma sched_pick_next_correct:
  assumes "sched_wf s"
  shows "(nova_sched_pick_next s = -1 \<longleftrightarrow> (\<forall>i. \<not> runnable s i)) \<and>
    (nova_sched_pick_next s \<noteq> -1 \<longrightarrow>
       (\<exists>i. runnable s i \<and> nova_sched_pick_next s = int i + 1 \<and>
            sched_lookup s (word_of_int (nova_sched_pick_next s)) = Some (threads s ! i) \<and>
            (\<forall>j. runnable s j \<longrightarrow> preferred (threads s) i j)))"
  using assms
proof (cases rule: pick_next_cases)
  case (picked i)
  then have "sched_lookup s (slot_id i) = Some (threads s ! i)"
    by (auto simp: runnable_def lookup_slot live_slots_def)
  with picked show ?thesis by auto
qed auto

text \<open>
  Claim C18. The selection loop computes its reference: the id that \<open>nova_sched_pick_next\<close> returns is
  that of the slot with the greatest rank among the runnable threads, and -1 when there is none.
\<close>

theorem sched_pick_is_max:
  assumes "sched_wf s"
  shows "nova_sched_pick_next s = sched_pick_reference s"
  using assms
proof (cases rule: pick_next_cases)
  case idle
  then show ?thesis by (simp add: sched_pick_reference_def)
next
  case (picked i)
  let ?R = "rank_of (threads s) ` {i. runnable s i}"
  have "{j. runnable s j} \<subseteq> {..<NOVA_MAX_THREADS}" by (auto simp: runnable_def)
  then have fin: "finite {j. runnable s j}" by (rule finite_subset) simp
  have "Max ?R = rank_of (threads s) i"
  proof (rule Max_eqI)
    show "finite ?R" using fin by (rule finite_imageI)
    show "rank_of (threads s) i \<in> ?R" using picked(1) by (intro imageI CollectI)
    show "r \<le> rank_of (threads s) i" if "r \<in> ?R" for r
    proof -
      obtain j where j: "r = rank_of (threads s) j" "runnable s j" using \<open>r \<in> ?R\<close> by (elim imageE CollectE)
      then have "preferred (threads s) i j" using picked(2) by blast
      then show ?thesis unfolding j(1) preferred_rank .
    qed
  qed
  moreover have "?R \<noteq> {}" using picked(1) by blast
  then have "sched_pick_reference s = int (rank_slot (Max ?R)) + 1"
    unfolding sched_pick_reference_def Let_def by (rule if_not_P)
  moreover have "rank_slot (rank_of (threads s) i) = i" by (simp add: rank_of_def)
  ultimately show ?thesis using picked(3) by (simp only:)
qed

theorem sched_pick_is_max_witness: "sched_pick_reference demo_scheduler = 2"
proof -
  have "sched_wf demo_scheduler" "nova_sched_pick_next demo_scheduler = 2" by code_simp+
  with sched_pick_is_max [of demo_scheduler] show ?thesis by simp
qed

text \<open>
  Claim C16.  Fair share: when the threads that compete for the processor (runnable, at the highest
  runnable priority) start with equal quanta, then after \<open>n\<close> rounds of picking and accounting each
  of the \<open>m\<close> competitors has received \<open>n div m\<close> or \<open>n div m + 1\<close> quanta, as long as the 64-bit
  counters do not wrap.
\<close>

theorem sched_fair_share:
  assumes "sched_wf s" "\<forall>i \<in> top_slots s. quanta_of s i = base" "base + n < 2 ^ 64"
    and "i \<in> top_slots s"
  shows "quanta_of ((sched_round ^^ n) s) i = base + n div card (top_slots s) \<or>
         quanta_of ((sched_round ^^ n) s) i = base + n div card (top_slots s) + 1"
proof -
  have "finite (top_slots s)"
    by (rule finite_subset [of _ "{..<32}"]) (auto simp: top_slots_def runnable_def)
  then show ?thesis
    using assms(4) fair_rounds [OF assms(1-3)] by (intro balanced_value) auto
qed

theorem sched_fair_share_witness:
  "quanta_of ((sched_round ^^ 5) demo_scheduler) 1 = 5 \<or>
   quanta_of ((sched_round ^^ 5) demo_scheduler) 1 = 6"
proof -
  have wf: "sched_wf demo_scheduler" by code_simp
  have run: "runnable demo_scheduler i \<longleftrightarrow> i = 0 \<or> i = 1" for i
  proof -
    have "\<forall>i<32. (th_state (threads demo_scheduler ! i) = NOVA_THREAD_RUNNABLE) = (i = 0 \<or> i = 1)"
      by code_simp
    then show ?thesis by (auto simp: runnable_def)
  qed
  have "th_priority (threads demo_scheduler ! 0) = 10" "th_priority (threads demo_scheduler ! 1) = 50"
    by code_simp+
  then have top: "top_slots demo_scheduler = {1}" by (auto simp: top_slots_def run)
  have "quanta_of demo_scheduler 1 = 0" by code_simp
  then show ?thesis
    using sched_fair_share [OF wf, of 0 5 1] by (simp add: top)
qed

text \<open>
  Claim C28.  The thread table: starting from an initialised scheduler, a sequence of
  \<open>nova_sched_add\<close> calls succeeds exactly when there are at most 32 of them; the ids handed out are
  distinct, and each of them denotes a runnable thread with the requested priority and no quanta.
\<close>

theorem sched_add_all:
  assumes "length (threads s) = NOVA_MAX_THREADS"
  shows "(insert_all sched_ins ps (nova_sched_init s) \<noteq> None \<longleftrightarrow> length ps \<le> NOVA_MAX_THREADS) \<and>
    (\<forall>s' ids. insert_all sched_ins ps (nova_sched_init s) = Some (s', ids) \<longrightarrow>
       sched_wf s' \<and> distinct ids \<and> dom (sched_lookup s') = set ids \<and>
       sched_lookup s' = map_of (entries new_thread ps ids))"
proof -
  have wf: "sched_wf (nova_sched_init s)" and empty: "live_slots (nova_sched_init s) = {}"
    using sched_wf_init [OF assms] by auto
  have dom: "dom (sched_lookup (nova_sched_init s)) = {}"
    by (simp add: dom_sched_lookup empty)
  then have none: "sched_lookup (nova_sched_init s) = Map.empty" by simp
  show ?thesis
    using sched_table.insert_all_from_empty_fits [OF wf none]
      sched_table.insert_all_from_empty [OF wf none]
    by blast
qed

theorem sched_add_all_witness:
  "\<exists>s' ids. insert_all sched_ins [10, 50] (nova_sched_init blank_scheduler) = Some (s', ids) \<and>
     distinct ids \<and> dom (sched_lookup s') = set ids"
proof -
  have "length (threads blank_scheduler) = NOVA_MAX_THREADS" by (simp add: blank_scheduler_def)
  from sched_add_all [OF this, of "[10, 50]"] show ?thesis by fastforce
qed

text \<open>
  State changes and accounting: \<open>nova_sched_set_state\<close> refuses an id that denotes no live
  thread and otherwise changes exactly that thread's state; \<open>nova_sched_account\<close> charges exactly
  the thread the id denotes and does nothing for any other id.  Every other thread is untouched
  and the table invariant is kept.
\<close>

lemma sched_update_spec:
  assumes "sched_wf s"
  shows "(case sched_lookup s tid of
      None \<Rightarrow> nova_sched_set_state s tid st = (NOVA_NOT_FOUND, s) \<and> nova_sched_account s tid = s
    | Some t \<Rightarrow>
        fst (nova_sched_set_state s tid st) = NOVA_OK \<and>
        sched_lookup (snd (nova_sched_set_state s tid st)) =
          (sched_lookup s)(tid := (if st = NOVA_THREAD_DEAD then None else Some (t\<lparr>th_state := st\<rparr>))) \<and>
        sched_lookup (nova_sched_account s tid) =
          (sched_lookup s)(tid \<mapsto> t\<lparr>th_quanta := th_quanta t + 1\<rparr>) \<and>
        sched_tick (nova_sched_account s tid) = sched_tick s + 1) \<and>
    sched_wf (snd (nova_sched_set_state s tid st)) \<and> sched_wf (nova_sched_account s tid)"
proof -
  have len: "length (threads s) = NOVA_MAX_THREADS" using assms by (simp add: sched_wf_def)
  have thread: "sched_lookup s (slot_id i) = Some (threads s ! i)"
    if "i < NOVA_MAX_THREADS" "i \<in> live_slots s" for i
    using that by (simp add: lookup_slot)
  have set_state: "case sched_lookup s tid of
      None \<Rightarrow> nova_sched_set_state s tid st = (NOVA_NOT_FOUND, s)
    | Some t \<Rightarrow> fst (nova_sched_set_state s tid st) = NOVA_OK \<and>
        sched_lookup (snd (nova_sched_set_state s tid st)) =
          (sched_lookup s)(tid := (if st = NOVA_THREAD_DEAD then None else Some (t\<lparr>th_state := st\<rparr>)))"
    using assms
  proof (cases rule: set_state_cases [of s tid st])
    case (found i)
    with thread [of i] lookup_set_slot [OF found(1) len] show ?thesis by simp
  qed simp
  have account: "case sched_lookup s tid of
      None \<Rightarrow> nova_sched_account s tid = s
    | Some t \<Rightarrow> sched_lookup (nova_sched_account s tid) =
          (sched_lookup s)(tid \<mapsto> t\<lparr>th_quanta := th_quanta t + 1\<rparr>) \<and>
        sched_tick (nova_sched_account s tid) = sched_tick s + 1"
  proof (cases rule: account_cases [of s tid])
    case (found i)
    then have "th_state (threads s ! i) \<noteq> NOVA_THREAD_DEAD" by (simp add: live_slots_def)
    with found thread [of i] lookup_set_slot [OF found(1) len] show ?thesis by simp
  qed simp
  show ?thesis
    using set_state account sched_wf_set_state [OF assms] sched_wf_account [OF assms]
    by (auto split: option.splits)
qed

text \<open>
  Claim C36.  The counter \<open>count\<close> of the scheduler is the number of live threads only as long as no
  thread is killed: any sequence of calls without a transition to \<open>NOVA_THREAD_DEAD\<close> keeps it
  exact, but creating and killing a thread \<open>n\<close> times leaves no live thread and the counter at
  \<open>n\<close>, since no operation ever decrements it.
\<close>

theorem sched_count_drifts:
  assumes "length (threads s) = NOVA_MAX_THREADS"
  shows "(\<forall>ops. (\<forall>op \<in> set ops. \<not> is_kill op) \<longrightarrow>
      sched_count (fold sched_exec ops (nova_sched_init s)) =
        of_nat (card (live_slots (fold sched_exec ops (nova_sched_init s))))) \<and>
    live_slots ((add_and_kill ^^ n) (nova_sched_init s)) = {} \<and>
    sched_count ((add_and_kill ^^ n) (nova_sched_init s)) = of_nat n"
proof -
  have init: "sched_wf (nova_sched_init s)" "live_slots (nova_sched_init s) = {}"
    "sched_count (nova_sched_init s) = 0"
    using sched_wf_init [OF assms] by (simp_all add: nova_sched_init_def)
  have "sched_count (fold sched_exec ops t) = of_nat (card (live_slots (fold sched_exec ops t)))"
    if "sched_wf t" "sched_count t = of_nat (card (live_slots t))" "\<forall>op \<in> set ops. \<not> is_kill op"
    for ops t
    using that by (induction ops arbitrary: t) (auto intro: count_exec sched_exec_wf)
  moreover have "sched_wf ((add_and_kill ^^ n) (nova_sched_init s)) \<and>
      live_slots ((add_and_kill ^^ n) (nova_sched_init s)) = {} \<and>
      sched_count ((add_and_kill ^^ n) (nova_sched_init s)) = of_nat n"
    using init add_and_kill_effect by (induction n) (auto simp: add.commute)
  ultimately show ?thesis using init by simp
qed

theorem sched_count_drifts_witness:
  "live_slots ((add_and_kill ^^ 3) (nova_sched_init blank_scheduler)) = {} \<and>
   sched_count ((add_and_kill ^^ 3) (nova_sched_init blank_scheduler)) = 3"
  using sched_count_drifts [of blank_scheduler 3] by (simp add: blank_scheduler_def)

end
