(* ===== verification/Nova_Sched_Api.thy ===== *)
theory Nova_Sched_Api
  imports Nova_Scheduler
begin

text \<open>
  The contract of the scheduler of \<open>kernel/core/scheduler.c\<close>: a partial map from ids to threads and
  a clock.  The table of \<open>Nova_Scheduler\<close>, with its slots, its reuse of dead slots and its selection
  loop, implements it call by call.
\<close>

subsection \<open>The specification\<close>

datatype sched_call =
  Call_init | Call_add u8 | Call_set_state u32 nova_thread_state | Call_account u32 | Call_pick

datatype sched_answer = Nothing | Code nova_result | Added nova_result "u32 option" | Picked int

fun sched_call_exec :: "sched_call \<Rightarrow> nova_scheduler_t \<Rightarrow> (sched_answer \<times> nova_scheduler_t) option" where
  "sched_call_exec Call_init s = Some (Nothing, nova_sched_init s)"
| "sched_call_exec (Call_add p) s = (case nova_sched_add s p of (r, t, out) \<Rightarrow> Some (Added r out, t))"
| "sched_call_exec (Call_set_state tid st) s = (case nova_sched_set_state s tid st of (r, t) \<Rightarrow> Some (Code r, t))"
| "sched_call_exec (Call_account tid) s = Some (Nothing, nova_sched_account s tid)"
| "sched_call_exec Call_pick s = Some (Picked (nova_sched_pick_next s), s)"

record task_state =
  tasks_of :: "u32 \<Rightarrow> nova_thread_t option"
  task_clock :: u64

definition no_tasks :: task_state where
  "no_tasks = \<lparr>tasks_of = Map.empty, task_clock = 0\<rparr>"

definition thread_id :: "u32 \<Rightarrow> bool" where
  "thread_id tid \<longleftrightarrow> tid \<noteq> 0 \<and> unat tid \<le> NOVA_MAX_THREADS"

text \<open>Higher priority first, then fewer quanta consumed, then the lower id.\<close>

definition runs_before :: "nova_thread_t \<times> u32 \<Rightarrow> nova_thread_t \<times> u32 \<Rightarrow> bool" where
  "runs_before x y \<longleftrightarrow> (case (x, y) of ((t, i), (u, j)) \<Rightarrow>
     th_priority u < th_priority t \<or>
     th_priority u = th_priority t \<and> (th_quanta t < th_quanta u \<or> th_quanta t = th_quanta u \<and> i \<le> j))"

definition can_run :: "task_state \<Rightarrow> u32 \<Rightarrow> nova_thread_t \<Rightarrow> bool" where
  "can_run a tid t \<longleftrightarrow> tasks_of a tid = Some t \<and> th_state t = NOVA_THREAD_RUNNABLE"

fun sched_spec :: "sched_call \<Rightarrow> task_state \<Rightarrow> sched_answer \<Rightarrow> task_state \<Rightarrow> bool" where
  "sched_spec Call_init a r b \<longleftrightarrow> r = Nothing \<and> b = no_tasks"
| "sched_spec (Call_add p) a r b \<longleftrightarrow>
     (if \<forall>tid. thread_id tid \<longrightarrow> tasks_of a tid \<noteq> None then r = Added NOVA_FULL None \<and> b = a
      else \<exists>tid. r = Added NOVA_OK (Some tid) \<and> thread_id tid \<and> tasks_of a tid = None \<and>
        (\<forall>lower. thread_id lower \<longrightarrow> lower < tid \<longrightarrow> tasks_of a lower \<noteq> None) \<and>
        b = a\<lparr>tasks_of := (tasks_of a)(tid \<mapsto> new_thread p tid)\<rparr>)"
| "sched_spec (Call_set_state tid st) a r b \<longleftrightarrow>
     (case tasks_of a tid of
        None \<Rightarrow> r = Code NOVA_NOT_FOUND \<and> b = a
      | Some t \<Rightarrow> r = Code NOVA_OK \<and>
          b = a\<lparr>tasks_of := (tasks_of a)(tid := if st = NOVA_THREAD_DEAD then None else Some (t\<lparr>th_state := st\<rparr>))\<rparr>)"
| "sched_spec (Call_account tid) a r b \<longleftrightarrow> r = Nothing \<and>
     (case tasks_of a tid of
        None \<Rightarrow> b = a
      | Some t \<Rightarrow> b = \<lparr>tasks_of = (tasks_of a)(tid \<mapsto> t\<lparr>th_quanta := th_quanta t + 1\<rparr>), task_clock = task_clock a + 1\<rparr>)"
| "sched_spec Call_pick a r b \<longleftrightarrow> b = a \<and>
     (r = Picked (-1) \<and> (\<forall>tid t. \<not> can_run a tid t) \<or>
      (\<exists>tid t. r = Picked (int (unat tid)) \<and> can_run a tid t \<and>
        (\<forall>tid' t'. can_run a tid' t' \<longrightarrow> runs_before (t, tid) (t', tid'))))"

definition sched_sim :: "nova_scheduler_t \<Rightarrow> task_state \<Rightarrow> bool" where
  "sched_sim s a \<longleftrightarrow> sched_wf s \<and> tasks_of a = sched_lookup s \<and> task_clock a = sched_tick s"

subsection \<open>The simulation\<close>

lemma lookup_Some_slot:
  assumes "sched_lookup s tid = Some t"
  obtains i where "i < NOVA_MAX_THREADS" "i \<in> live_slots s" "tid = slot_id i" "t = threads s ! i"
proof (cases tid rule: id_cases [of _ NOVA_MAX_THREADS])
  case bad
  with assms show ?thesis by (simp add: lookup_bad)
next
  case (slot i)
  with assms that [of i] show ?thesis by (simp add: lookup_slot split: if_splits)
qed

lemma thread_id_slot: "thread_id tid \<longleftrightarrow> (\<exists>i < NOVA_MAX_THREADS. tid = slot_id i)"
  by (cases tid rule: id_cases [of _ NOVA_MAX_THREADS]) (auto simp: thread_id_def unat_slot_id slot_id_nonzero)

lemma slot_id_less: "i < NOVA_MAX_THREADS \<Longrightarrow> j < NOVA_MAX_THREADS \<Longrightarrow> slot_id i \<le> slot_id j \<longleftrightarrow> i \<le> j"
  by (simp add: word_le_nat_alt unat_slot_id)

lemma init_sim: "sched_wf s \<Longrightarrow> sched_sim (nova_sched_init s) no_tasks"
proof -
  assume "sched_wf s"
  then have "sched_wf (nova_sched_init s)" "live_slots (nova_sched_init s) = {}"
    using sched_wf_init by (simp_all add: sched_wf_def)
  moreover from this have "sched_lookup (nova_sched_init s) = Map.empty"
    using dom_sched_lookup [of "nova_sched_init s"] by simp
  ultimately show ?thesis by (simp add: sched_sim_def no_tasks_def) (simp add: nova_sched_init_def)
qed

lemma add_sim:
  assumes sim: "sched_sim s a"
  shows "\<exists>r t b. sched_call_exec (Call_add p) s = Some (r, t) \<and> sched_spec (Call_add p) a r b \<and> sched_sim t b"
proof -
  have wf: "sched_wf s" and tab: "tasks_of a = sched_lookup s" and tick: "task_clock a = sched_tick s"
    and len: "length (threads s) = NOVA_MAX_THREADS" using sim by (simp_all add: sched_sim_def sched_wf_def)
  from wf show ?thesis
  proof (cases rule: add_cases [of s p])
    case full
    then have "\<forall>tid. thread_id tid \<longrightarrow> tasks_of a tid \<noteq> None" by (auto simp: tab thread_id_slot lookup_slot)
    with full sim show ?thesis by simp
  next
    case (added i)
    let ?t = "s\<lparr>threads := (threads s)[i := new_thread p (slot_id i)], sched_count := sched_count s + 1\<rparr>"
    have free: "thread_id (slot_id i)" "tasks_of a (slot_id i) = None"
      using added(1,2) by (auto simp: thread_id_slot tab lookup_slot)
    have "tasks_of a lower \<noteq> None" if "thread_id lower" "lower < slot_id i" for lower
      using that added(1,3) by (auto simp: thread_id_slot tab lookup_slot not_le [symmetric] slot_id_less)
    moreover have "sched_lookup ?t = (sched_lookup s)(slot_id i \<mapsto> new_thread p (slot_id i))"
      using lookup_set_slot [OF added(1) len, of ?t] by simp
    moreover have "sched_wf ?t" by (rule sched_wf_set_slot [OF wf added(1), of _ "new_thread p (slot_id i)"]) (simp, simp only: new_thread_sel)
    ultimately have "sched_sim ?t (a\<lparr>tasks_of := (tasks_of a)(slot_id i \<mapsto> new_thread p (slot_id i))\<rparr>)"
      and "\<forall>lower. thread_id lower \<longrightarrow> lower < slot_id i \<longrightarrow> tasks_of a lower \<noteq> None"
      by (simp_all add: sched_sim_def tab tick)
    with added(4) free show ?thesis by auto
  qed
qed

lemma set_state_sim:
  assumes sim: "sched_sim s a"
  shows "\<exists>r t b. sched_call_exec (Call_set_state tid st) s = Some (r, t) \<and> sched_spec (Call_set_state tid st) a r b \<and> sched_sim t b"
proof -
  have wf: "sched_wf s" and tab: "tasks_of a = sched_lookup s" and tick: "task_clock a = sched_tick s"
    and len: "length (threads s) = NOVA_MAX_THREADS" using sim by (simp_all add: sched_sim_def sched_wf_def)
  from wf show ?thesis
  proof (cases rule: set_state_cases [of s tid st])
    case (found i)
    let ?t = "s\<lparr>threads := (threads s)[i := (threads s ! i)\<lparr>th_state := st\<rparr>]\<rparr>"
    have "sched_lookup ?t = (sched_lookup s)(tid := if st = NOVA_THREAD_DEAD then None else Some ((threads s ! i)\<lparr>th_state := st\<rparr>))"
      using lookup_set_slot [OF found(1) len, of ?t] found(3) by simp
    moreover have "sched_wf ?t" using sched_wf_set_state [OF wf, of tid st] found(4) by simp
    moreover have "tasks_of a tid = Some (threads s ! i)" using found(1-3) by (simp add: tab lookup_slot)
    ultimately show ?thesis using found(4) by (auto simp: sched_sim_def tab tick)
  qed (use sim tab in simp)
qed

lemma account_sim:
  assumes sim: "sched_sim s a"
  shows "\<exists>r t b. sched_call_exec (Call_account tid) s = Some (r, t) \<and> sched_spec (Call_account tid) a r b \<and> sched_sim t b"
proof -
  have wf: "sched_wf s" and tab: "tasks_of a = sched_lookup s" and tick: "task_clock a = sched_tick s"
    and len: "length (threads s) = NOVA_MAX_THREADS" using sim by (simp_all add: sched_sim_def sched_wf_def)
  show ?thesis
  proof (cases rule: account_cases [of s tid])
    case (found i)
    then have live: "th_state (threads s ! i) \<noteq> NOVA_THREAD_DEAD" by (simp add: live_slots_def)
    have "sched_lookup (nova_sched_account s tid) =
        (sched_lookup s)(tid \<mapsto> (threads s ! i)\<lparr>th_quanta := th_quanta (threads s ! i) + 1\<rparr>)"
      using lookup_set_slot [OF found(1) len, of "nova_sched_account s tid"] found(3,4) live by simp
    moreover have "sched_wf (nova_sched_account s tid)" by (rule sched_wf_account [OF wf])
    moreover have "tasks_of a tid = Some (threads s ! i)" using found(1-3) by (simp add: tab lookup_slot)
    moreover have "sched_tick (nova_sched_account s tid) = sched_tick s + 1" using found(4) by simp
    ultimately show ?thesis by (auto simp: sched_sim_def tab tick)
  qed (use sim tab in simp)
qed

lemma can_run_slot:
  "tasks_of a = sched_lookup s \<Longrightarrow> can_run a tid t \<longleftrightarrow> (\<exists>i. runnable s i \<and> tid = slot_id i \<and> t = threads s ! i)"
  by (auto simp: can_run_def runnable_def lookup_slot live_slots_def elim!: lookup_Some_slot)

lemma pick_sim:
  assumes sim: "sched_sim s a"
  shows "sched_spec Call_pick a (Picked (nova_sched_pick_next s)) a"
proof -
  have wf: "sched_wf s" and run: "can_run a tid t \<longleftrightarrow> (\<exists>i. runnable s i \<and> tid = slot_id i \<and> t = threads s ! i)" for tid t
    using sim by (simp_all add: sched_sim_def can_run_slot)
  from wf show ?thesis
  proof (cases rule: pick_next_cases)
    case idle
    then show ?thesis by (auto simp: run)
  next
    case (picked i)
    then have i: "i < NOVA_MAX_THREADS" by (simp add: runnable_def)
    have "runs_before (threads s ! i, slot_id i) (t, tid)" if "can_run a tid t" for tid t
      using that picked(2) i by (auto simp: run runs_before_def preferred_def runnable_def slot_id_less)
    moreover have "nova_sched_pick_next s = int (unat (slot_id i))" using picked(3) i by (simp add: unat_slot_id)
    moreover have "can_run a (slot_id i) (threads s ! i)" using picked(1) run by blast
    ultimately show ?thesis by auto
  qed
qed

interpretation scheduler_api: call_refinement sched_sim sched_call_exec "\<lambda>op a. True" sched_spec
proof unfold_locales
  fix s a op
  assume sim: "sched_sim s a"
  show "\<exists>r t b. sched_call_exec op s = Some (r, t) \<and> sched_spec op a r b \<and> sched_sim t b"
  proof (cases op)
    case Call_init
    with sim init_sim show ?thesis by (auto simp: sched_sim_def)
  next
    case Call_pick
    with pick_sim [OF sim] sim show ?thesis by auto
  qed (use add_sim [OF sim] set_state_sim [OF sim] account_sim [OF sim] in \<open>simp_all del: sched_spec.simps sched_call_exec.simps\<close>)
qed

subsection \<open>The property\<close>

text \<open>
  Claim C3. The scheduler implements its contract: after initialising any memory, every sequence of
  calls with any arguments (creating threads, changing states, killing, charging quanta, picking,
  initialising again) answers as the abstract map of threads does.  A new thread gets the lowest free
  id and is runnable with no quanta, creation fails only when all 32 ids are in use, an id without a
  live thread is refused or ignored, a killed thread's id is free again, and picking answers -1
  exactly when no thread can run and otherwise the thread of highest priority, fewest quanta and
  lowest id.
\<close>
theorem sched_api_refines:
  assumes "length (threads s) = NOVA_MAX_THREADS"
  shows "\<exists>rs t b. call_run sched_call_exec calls (nova_sched_init s) = Some (rs, t) \<and>
    spec_run sched_spec calls no_tasks rs b \<and> sched_lookup t = tasks_of b \<and> sched_tick t = task_clock b"
proof -
  have "sched_lookup (nova_sched_init s) = Map.empty"
    using dom_sched_lookup [of "nova_sched_init s"] sched_wf_init [OF assms] by simp
  then have "sched_sim (nova_sched_init s) no_tasks"
    using sched_wf_init [OF assms] by (simp add: sched_sim_def no_tasks_def) (simp add: nova_sched_init_def)
  moreover have "keeps_contract (\<lambda>op a. True) sched_spec calls no_tasks" by (rule keeps_contract_static) simp
  ultimately show ?thesis using scheduler_api.run_sim unfolding sched_sim_def by metis
qed

subsection \<open>Witness\<close>

theorem sched_api_refines_witness:
  "\<exists>rs t b. call_run sched_call_exec [Call_add 5, Call_add 9, Call_set_state 2 NOVA_THREAD_DEAD, Call_pick]
      (nova_sched_init blank_scheduler) = Some (rs, t) \<and>
    spec_run sched_spec [Call_add 5, Call_add 9, Call_set_state 2 NOVA_THREAD_DEAD, Call_pick] no_tasks rs b \<and>
    sched_lookup t = tasks_of b"
proof -
  have "length (threads blank_scheduler) = NOVA_MAX_THREADS" by (simp add: blank_scheduler_def)
  from sched_api_refines [OF this] show ?thesis by blast
qed

end
