(* ===== verification/Nova_Ipc.thy ===== *)
theory Nova_Ipc
  imports Nova_Core_Types Nova_Interfaces
begin

text \<open>
  The IPC endpoints of \<open>kernel/core/ipc.c\<close>: a ring of 16 message slots with head, tail and count.
  The theory shows that the ring implements the bounded FIFO queue of \<open>bounded_queue\<close>, and what a
  received message structure contains byte for byte.
\<close>

record nova_ipc_message_t =
  msg_sender :: u32
  msg_length :: u16
  msg_payload :: "u8 list"

record nova_ipc_endpoint_t =
  messages :: "nova_ipc_message_t list"
  ep_head :: nat
  ep_tail :: nat
  ep_count :: nat

subsection \<open>Operations\<close>

definition nova_ipc_endpoint_init :: "nova_ipc_endpoint_t \<Rightarrow> nova_ipc_endpoint_t" where
  "nova_ipc_endpoint_init endpoint = endpoint\<lparr>ep_head := 0, ep_tail := 0, ep_count := 0\<rparr>"

definition nova_ipc_send ::
  "nova_ipc_endpoint_t \<Rightarrow> u32 \<Rightarrow> u8 list \<Rightarrow> nat \<Rightarrow> nova_result \<times> nova_ipc_endpoint_t" where
  "nova_ipc_send endpoint sender payload len =
     (if len > NOVA_IPC_PAYLOAD_SIZE then (NOVA_ERR, endpoint)
      else if ep_count endpoint = NOVA_IPC_QUEUE_LENGTH then (NOVA_FULL, endpoint)
      else let slot = messages endpoint ! ep_tail endpoint;
               message = slot\<lparr>msg_sender := sender, msg_length := of_nat len,
                              msg_payload := memcpy (msg_payload slot) payload len\<rparr>
        in (NOVA_OK,
            endpoint\<lparr>messages := (messages endpoint)[ep_tail endpoint := message],
                     ep_tail := (ep_tail endpoint + 1) mod NOVA_IPC_QUEUE_LENGTH,
                     ep_count := ep_count endpoint + 1\<rparr>))"

definition nova_ipc_receive ::
  "nova_ipc_endpoint_t \<Rightarrow> nova_result \<times> nova_ipc_endpoint_t \<times> nova_ipc_message_t option" where
  "nova_ipc_receive endpoint =
     (if ep_count endpoint = 0 then (NOVA_EMPTY, endpoint, None)
      else (NOVA_OK,
            endpoint\<lparr>ep_head := (ep_head endpoint + 1) mod NOVA_IPC_QUEUE_LENGTH,
                     ep_count := ep_count endpoint - 1\<rparr>,
            Some (messages endpoint ! ep_head endpoint)))"

subsection \<open>Specification vocabulary\<close>

definition msg_wf :: "nova_ipc_message_t \<Rightarrow> bool" where
  "msg_wf m \<longleftrightarrow> length (msg_payload m) = NOVA_IPC_PAYLOAD_SIZE"

text \<open>Index of the \<open>k\<close>-th queued message of a ring whose head is \<open>head\<close>.\<close>

definition ring_index :: "nat \<Rightarrow> nat \<Rightarrow> nat" where
  "ring_index head k = (head + k) mod NOVA_IPC_QUEUE_LENGTH"

definition ep_wf :: "nova_ipc_endpoint_t \<Rightarrow> bool" where
  "ep_wf ep \<longleftrightarrow> length (messages ep) = NOVA_IPC_QUEUE_LENGTH \<and>
     (\<forall>i < NOVA_IPC_QUEUE_LENGTH. msg_wf (messages ep ! i)) \<and>
     ep_head ep < NOVA_IPC_QUEUE_LENGTH \<and> ep_count ep \<le> NOVA_IPC_QUEUE_LENGTH \<and>
     ep_tail ep = ring_index (ep_head ep) (ep_count ep)"

text \<open>What a message says: its sender and the bytes its length covers.\<close>

definition msg_view :: "nova_ipc_message_t \<Rightarrow> u32 \<times> u8 list" where
  "msg_view m = (msg_sender m, take (unat (msg_length m)) (msg_payload m))"

definition ep_contents :: "nova_ipc_endpoint_t \<Rightarrow> (u32 \<times> u8 list) list" where
  "ep_contents ep = map (\<lambda>k. msg_view (messages ep ! ring_index (ep_head ep) k)) [0..<ep_count ep]"

text \<open>A send request, whether the caller's buffer covers it, and the queue interface.\<close>

type_synonym ipc_request = "u32 \<times> u8 list \<times> nat"

definition request_ok :: "ipc_request \<Rightarrow> bool" where
  "request_ok r \<longleftrightarrow> (case r of (sender, payload, len) \<Rightarrow>
     len \<le> NOVA_IPC_PAYLOAD_SIZE \<and> len \<le> length payload)"

definition request_view :: "ipc_request \<Rightarrow> u32 \<times> u8 list" where
  "request_view r = (case r of (sender, payload, len) \<Rightarrow> (sender, take len payload))"

definition ipc_enq :: "ipc_request \<Rightarrow> nova_ipc_endpoint_t \<Rightarrow> nova_ipc_endpoint_t option" where
  "ipc_enq r ep = (case r of (sender, payload, len) \<Rightarrow>
     (case nova_ipc_send ep sender payload len of (NOVA_OK, ep') \<Rightarrow> Some ep' | _ \<Rightarrow> None))"

definition ipc_deq ::
  "nova_ipc_endpoint_t \<Rightarrow> (nova_ipc_message_t \<times> nova_ipc_endpoint_t) option" where
  "ipc_deq ep =
     (case nova_ipc_receive ep of (NOVA_OK, ep', Some m) \<Rightarrow> Some (m, ep') | _ \<Rightarrow> None)"

text \<open>An endpoint in memory whose slots hold old bytes.\<close>

definition demo_endpoint :: nova_ipc_endpoint_t where
  "demo_endpoint =
     \<lparr>messages = replicate NOVA_IPC_QUEUE_LENGTH
        \<lparr>msg_sender = 99, msg_length = 3, msg_payload = replicate NOVA_IPC_PAYLOAD_SIZE 0xAA\<rparr>,
      ep_head = 5, ep_tail = 0, ep_count = 11\<rparr>"

subsection \<open>The ring\<close>

lemma ring_index_less [simp]: "ring_index h k < NOVA_IPC_QUEUE_LENGTH"
  by (simp add: ring_index_def)

lemma ring_index_Suc [simp]:
  "Suc (ring_index h k) mod NOVA_IPC_QUEUE_LENGTH = ring_index h (Suc k)"
  "ring_index (Suc h mod NOVA_IPC_QUEUE_LENGTH) k = ring_index h (Suc k)"
  unfolding ring_index_def
  by (simp_all add: mod_Suc_eq mod_add_left_eq)

lemma ring_distinct:
  fixes h k c n :: nat
  assumes "k < c" "c < n"
  shows "(h + k) mod n \<noteq> (h + c) mod n"
proof
  assume "(h + k) mod n = (h + c) mod n"
  then have "n dvd (h + c) - (h + k)"
    using assms by (metis mod_eq_dvd_iff_nat add_le_cancel_left less_imp_le)
  then show False using assms by (auto dest: dvd_imp_le)
qed

lemma ep_wf_init: "length (messages ep) = NOVA_IPC_QUEUE_LENGTH \<Longrightarrow>
    (\<forall>i < NOVA_IPC_QUEUE_LENGTH. msg_wf (messages ep ! i)) \<Longrightarrow>
    ep_wf (nova_ipc_endpoint_init ep) \<and> ep_contents (nova_ipc_endpoint_init ep) = []"
  by (simp add: ep_wf_def nova_ipc_endpoint_init_def ring_index_def ep_contents_def)

lemma length_contents [simp]: "length (ep_contents ep) = ep_count ep"
  by (simp add: ep_contents_def)

text \<open>A successful send, in one equation.\<close>

definition sent_message :: "nova_ipc_message_t \<Rightarrow> u32 \<Rightarrow> u8 list \<Rightarrow> nat \<Rightarrow> nova_ipc_message_t" where
  "sent_message slot sender payload len =
     \<lparr>msg_sender = sender, msg_length = of_nat len,
      msg_payload = memcpy (msg_payload slot) payload len\<rparr>"

lemma sent_message_eq [simp]:
  "slot\<lparr>msg_sender := sender, msg_length := l, msg_payload := p\<rparr> =
     \<lparr>msg_sender = sender, msg_length = l, msg_payload = p\<rparr>"
  by (cases slot) simp

lemma sent_message_view:
  assumes "len \<le> NOVA_IPC_PAYLOAD_SIZE" "len \<le> length payload"
  shows "msg_view (sent_message slot sender payload len) = (sender, take len payload)"
proof -
  have "unat (of_nat len :: u16) = len" using assms by (intro unat_of_nat_small) simp
  with assms show ?thesis by (simp add: msg_view_def sent_message_def)
qed

lemma sent_message_wf:
  "msg_wf slot \<Longrightarrow> len \<le> NOVA_IPC_PAYLOAD_SIZE \<Longrightarrow> len \<le> length payload \<Longrightarrow>
     msg_wf (sent_message slot sender payload len)"
  by (simp add: msg_wf_def sent_message_def)

lemma send_ok:
  assumes wf: "ep_wf ep" and ok: "len \<le> NOVA_IPC_PAYLOAD_SIZE" "len \<le> length payload"
    and room: "ep_count ep < NOVA_IPC_QUEUE_LENGTH"
  obtains ep' where "nova_ipc_send ep sender payload len = (NOVA_OK, ep')" "ep_wf ep'"
    "ep_contents ep' = ep_contents ep @ [(sender, take len payload)]"
    "ep_head ep' = ep_head ep" "ep_count ep' = Suc (ep_count ep)"
    "messages ep' = (messages ep)
       [ep_tail ep := sent_message (messages ep ! ep_tail ep) sender payload len]"
proof -
  let ?m = "sent_message (messages ep ! ep_tail ep) sender payload len"
  let ?ep' = "ep\<lparr>messages := (messages ep)[ep_tail ep := ?m],
    ep_tail := (ep_tail ep + 1) mod NOVA_IPC_QUEUE_LENGTH, ep_count := ep_count ep + 1\<rparr>"
  have send: "nova_ipc_send ep sender payload len = (NOVA_OK, ?ep')"
    using ok room by (simp add: nova_ipc_send_def Let_def sent_message_def)
  have tail: "ep_tail ep < length (messages ep)" "ep_tail ep = ring_index (ep_head ep) (ep_count ep)"
    using wf by (simp_all add: ep_wf_def)
  have wf': "ep_wf ?ep'"
    using wf room ok tail(1)
    by (auto simp: ep_wf_def nth_list_update intro!: sent_message_wf)
  have "ep_tail ep \<noteq> ring_index (ep_head ep) k" if "k < ep_count ep" for k
    unfolding tail(2) ring_index_def using that room by (rule ring_distinct [THEN not_sym])
  then have "ep_contents ?ep' = ep_contents ep @ [msg_view ?m]"
    using tail by (simp add: ep_contents_def)
  with send wf' ok show thesis by (intro that [of ?ep']) (simp_all add: sent_message_view)
qed

lemma receive_ok:
  assumes wf: "ep_wf ep" and some: "ep_count ep \<noteq> 0"
  obtains ep' where
    "nova_ipc_receive ep = (NOVA_OK, ep', Some (messages ep ! ep_head ep))" "ep_wf ep'"
    "ep_contents ep = msg_view (messages ep ! ep_head ep) # ep_contents ep'"
proof -
  let ?ep' = "ep\<lparr>ep_head := (ep_head ep + 1) mod NOVA_IPC_QUEUE_LENGTH, ep_count := ep_count ep - 1\<rparr>"
  have rcv: "nova_ipc_receive ep = (NOVA_OK, ?ep', Some (messages ep ! ep_head ep))"
    using some by (simp add: nova_ipc_receive_def)
  obtain c where c: "ep_count ep = Suc c" using some by (cases "ep_count ep") auto
  have "ep_wf ?ep'" using wf c by (auto simp: ep_wf_def)
  moreover have "ep_contents ep = msg_view (messages ep ! ep_head ep) # ep_contents ?ep'"
  proof -
    have "[0..<Suc c] = 0 # map Suc [0..<c]" by (simp add: map_Suc_upt upt_conv_Cons)
    moreover have "ring_index (ep_head ep) 0 = ep_head ep" using wf by (simp add: ep_wf_def ring_index_def)
    ultimately show ?thesis using c by (simp add: ep_contents_def)
  qed
  ultimately show thesis using rcv by (intro that)
qed

interpretation ipc_queue:
  bounded_queue ep_wf ep_contents request_view msg_view request_ok ipc_enq ipc_deq NOVA_IPC_QUEUE_LENGTH
proof
  fix s :: nova_ipc_endpoint_t and x s' y
  assume wf: "ep_wf s"
  {
    assume ok: "request_ok x"
    obtain sender payload len where x: "x = (sender, payload, len)" by (cases x)
    have lens: "len \<le> NOVA_IPC_PAYLOAD_SIZE" "len \<le> length payload"
      using ok x by (simp_all add: request_ok_def)
    have send: "\<exists>ep'. nova_ipc_send s sender payload len = (NOVA_OK, ep') \<and> ep_wf ep' \<and>
        ep_contents ep' = ep_contents s @ [(sender, take len payload)]"
      if "ep_count s < NOVA_IPC_QUEUE_LENGTH"
      using wf lens that by (rule send_ok) blast
    have full: "ipc_enq x s = None \<longleftrightarrow> \<not> ep_count s < NOVA_IPC_QUEUE_LENGTH"
      using send x lens wf
      by (auto simp: ipc_enq_def nova_ipc_send_def ep_wf_def Let_def)
    show "(ipc_enq x s = None) = (NOVA_IPC_QUEUE_LENGTH \<le> length (ep_contents s))"
      by (simp add: full not_less)
    assume enq: "ipc_enq x s = Some s'"
    then have "ep_count s < NOVA_IPC_QUEUE_LENGTH" using full by auto
    from send [OF this] enq x
    show "ep_contents s' = ep_contents s @ [request_view x]" "ep_wf s'"
      by (auto simp: ipc_enq_def request_view_def)
  }
  {
    show empty: "(ipc_deq s = None) = (ep_contents s = [])"
      by (simp add: ipc_deq_def nova_ipc_receive_def ep_contents_def)
    assume deq: "ipc_deq s = Some (y, s')"
    then have "ep_count s \<noteq> 0" by (auto simp: ipc_deq_def nova_ipc_receive_def split: if_splits)
    with wf obtain ep' where
      "nova_ipc_receive s = (NOVA_OK, ep', Some (messages s ! ep_head s))" "ep_wf ep'"
      "ep_contents s = msg_view (messages s ! ep_head s) # ep_contents ep'"
      by (rule receive_ok)
    with deq show "ep_contents s = msg_view y # ep_contents s'" "ep_wf s'"
      by (auto simp: ipc_deq_def)
  }
qed

subsection \<open>Properties\<close>

text \<open>
  Claim C4.  FIFO: from an initialised endpoint, any interleaving of sends (whose buffers cover
  their length of at most 64 bytes) and receives delivers the accepted messages in order, without
  loss, duplication or corruption: the accepted requests are the delivered messages followed by
  the messages still queued, compared by sender and payload bytes.
\<close>

theorem ipc_fifo:
  assumes "length (messages ep) = NOVA_IPC_QUEUE_LENGTH"
    and "\<forall>i < NOVA_IPC_QUEUE_LENGTH. msg_wf (messages ep ! i)"
    and "\<forall>r. Some r \<in> set ops \<longrightarrow> request_ok r"
    and "queue_run ipc_enq ipc_deq ops (nova_ipc_endpoint_init ep) = (ep', accepted, delivered)"
  shows "map request_view accepted = map msg_view delivered @ ep_contents ep'"
  using ipc_queue.queue_run_fifo [OF _ assms(3,4)] ep_wf_init [OF assms(1,2)] by simp

theorem ipc_fifo_witness:
  "let ops = [Some (7, [1, 2, 3], 2), None, None, Some (8, [4], 1), Some (9, [], 0)];
       (ep', accepted, delivered) = queue_run ipc_enq ipc_deq ops (nova_ipc_endpoint_init demo_endpoint)
   in map request_view accepted = map msg_view delivered @ ep_contents ep' \<and>
      map msg_view delivered = [(7, [1, 2])]"
proof -
  let ?ops = "[Some (7, [1, 2, 3], 2), None, None, Some (8, [4], 1), Some (9, [], 0)] ::
    ipc_request option list"
  obtain ep' acc del where
    run: "queue_run ipc_enq ipc_deq ?ops (nova_ipc_endpoint_init demo_endpoint) = (ep', acc, del)"
    by (metis prod_cases3)
  have "map msg_view (snd (snd (queue_run ipc_enq ipc_deq ?ops (nova_ipc_endpoint_init demo_endpoint))))
      = [(7, [1, 2])]"
    by code_simp
  moreover have "map request_view acc = map msg_view del @ ep_contents ep'"
    by (rule ipc_fifo [OF _ _ _ run])
      (auto simp: demo_endpoint_def msg_wf_def request_ok_def)
  ultimately show ?thesis unfolding Let_def by (simp only: run) simp
qed

text \<open>
  Claim C29.  Every branch of a send on a well-formed endpoint: an oversized request is refused with
  \<open>NOVA_ERR\<close> (even when the queue is full), a request to a full queue with \<open>NOVA_FULL\<close>, both
  leaving the endpoint as it was; any other request is queued last, and the ring stays well-formed.
\<close>

theorem ipc_send_spec:
  assumes "ep_wf ep" "len \<le> length payload"
  shows "if len > NOVA_IPC_PAYLOAD_SIZE then nova_ipc_send ep sender payload len = (NOVA_ERR, ep)
    else if length (ep_contents ep) = NOVA_IPC_QUEUE_LENGTH
      then nova_ipc_send ep sender payload len = (NOVA_FULL, ep)
    else \<exists>ep'. nova_ipc_send ep sender payload len = (NOVA_OK, ep') \<and> ep_wf ep' \<and>
           ep_contents ep' = ep_contents ep @ [(sender, take len payload)]"
proof -
  have le: "ep_count ep \<le> NOVA_IPC_QUEUE_LENGTH" using assms(1) by (simp add: ep_wf_def)
  have accepted: "\<exists>ep'. nova_ipc_send ep sender payload len = (NOVA_OK, ep') \<and> ep_wf ep' \<and>
      ep_contents ep' = ep_contents ep @ [(sender, take len payload)]"
    if "len \<le> NOVA_IPC_PAYLOAD_SIZE" "ep_count ep < NOVA_IPC_QUEUE_LENGTH"
    using assms(1) that(1) assms(2) that(2) by (rule send_ok) blast
  show ?thesis
  proof (cases "len > NOVA_IPC_PAYLOAD_SIZE \<or> ep_count ep = NOVA_IPC_QUEUE_LENGTH")
    case True
    then show ?thesis by (auto simp: nova_ipc_send_def)
  next
    case False
    with accepted le show ?thesis by simp
  qed
qed

theorem ipc_send_spec_witness:
  "ep_wf demo_endpoint \<and> nova_ipc_send demo_endpoint 1 (replicate 65 0) 65 = (NOVA_ERR, demo_endpoint)"
proof -
  have wf: "ep_wf demo_endpoint" by code_simp
  show ?thesis using ipc_send_spec [OF wf, of 65 "replicate 65 0" 1] wf by simp
qed

text \<open>
  Claim C35.  Round trip and residue: a message sent to an empty endpoint is the message received
  next, with its sender, its length and its bytes; and, since the whole message structure is copied
  out, the bytes after the message's length are the bytes that an earlier message left in the
  slot.
\<close>

theorem ipc_send_receive:
  assumes "ep_wf ep" "ep_count ep = 0" "len \<le> NOVA_IPC_PAYLOAD_SIZE" "len \<le> length payload"
  shows "\<exists>ep1 ep2 m. nova_ipc_send ep sender payload len = (NOVA_OK, ep1) \<and>
     nova_ipc_receive ep1 = (NOVA_OK, ep2, Some m) \<and> ep_wf ep2 \<and> ep_contents ep2 = [] \<and>
     msg_sender m = sender \<and> unat (msg_length m) = len \<and>
     take len (msg_payload m) = take len payload \<and>
     drop len (msg_payload m) = drop len (msg_payload (messages ep ! ep_tail ep))"
proof -
  have room: "ep_count ep < NOVA_IPC_QUEUE_LENGTH" using assms(2) by simp
  obtain ep1 where ep1: "nova_ipc_send ep sender payload len = (NOVA_OK, ep1)" "ep_wf ep1"
    "ep_contents ep1 = ep_contents ep @ [(sender, take len payload)]"
    "ep_head ep1 = ep_head ep" "ep_count ep1 = Suc (ep_count ep)"
    "messages ep1 = (messages ep)
       [ep_tail ep := sent_message (messages ep ! ep_tail ep) sender payload len]"
    by (rule send_ok [OF assms(1,3,4) room])
  have "ep_tail ep = ep_head ep" "ep_tail ep < length (messages ep)"
    using assms(1,2) by (simp_all add: ep_wf_def ring_index_def)
  then have m: "messages ep1 ! ep_head ep1 = sent_message (messages ep ! ep_tail ep) sender payload len"
    using ep1 by simp
  obtain ep2 where ep2: "nova_ipc_receive ep1 = (NOVA_OK, ep2, Some (messages ep1 ! ep_head ep1))"
    "ep_wf ep2" "ep_contents ep1 = msg_view (messages ep1 ! ep_head ep1) # ep_contents ep2"
    using receive_ok [OF ep1(2)] ep1(5) by auto
  have "ep_contents ep = []" using assms(2) by (simp add: ep_contents_def)
  then have "ep_contents ep2 = []" using ep1(3) ep2(3) by simp
  moreover have "unat (of_nat len :: u16) = len" using assms(3) by (intro unat_of_nat_small) simp
  ultimately show ?thesis using ep1(1) ep2(1,2) m assms(3,4) by (auto simp: sent_message_def)
qed

theorem ipc_send_receive_witness:
  "\<exists>ep1 ep2 m. nova_ipc_send (nova_ipc_endpoint_init demo_endpoint) 7 [1, 2] 2 = (NOVA_OK, ep1) \<and>
     nova_ipc_receive ep1 = (NOVA_OK, ep2, Some m) \<and> take 2 (msg_payload m) = [1, 2] \<and>
     drop 2 (msg_payload m) = replicate 62 0xAA"
proof -
  let ?ep = "nova_ipc_endpoint_init demo_endpoint"
  have "ep_wf ?ep" "ep_count ?ep = 0" "drop 2 (msg_payload (messages ?ep ! ep_tail ?ep)) = replicate 62 0xAA"
    by code_simp+
  then show ?thesis using ipc_send_receive [of ?ep 2 "[1, 2]" 7] by auto
qed

end
