(* ===== verification/Nova_Vm.thy ===== *)
theory Nova_Vm
  imports Nova_Core_Types Nova_Interfaces
begin

text \<open>
  The virtual-memory primitives of \<open>kernel/core/vm.c\<close>: an allocator of 128 physical pages and
  address spaces of up to 128 mappings.  The allocator is shown to be a bounded handle table and
  an address space a bounded partial map from virtual pages to a physical page and a writable
  flag.
\<close>

record nova_page_allocator_t =
  allocated :: "u8 list"

record nova_vm_mapping_t =
  virtual_page :: u64
  physical_page :: u32
  writable :: u8

record nova_address_space_t =
  mappings :: "nova_vm_mapping_t list"
  map_count :: nat

subsection \<open>The page allocator\<close>

definition nova_vm_init :: "nova_page_allocator_t \<Rightarrow> nova_page_allocator_t" where
  "nova_vm_init allocator =
     allocator\<lparr>allocated := fold (\<lambda>index xs. xs[index := 0]) [0..<NOVA_VM_MAX_PAGES] (allocated allocator)\<rparr>"

definition nova_vm_alloc_page ::
  "nova_page_allocator_t \<Rightarrow> nova_result \<times> nova_page_allocator_t \<times> u32 option" where
  "nova_vm_alloc_page allocator =
     (case for_find (\<lambda>index. allocated allocator ! index = 0) 0 NOVA_VM_MAX_PAGES of
        Some index \<Rightarrow>
          (NOVA_OK, allocator\<lparr>allocated := (allocated allocator)[index := 1]\<rparr>, Some (of_nat index))
      | None \<Rightarrow> (NOVA_FULL, allocator, None))"

definition nova_vm_free_page ::
  "nova_page_allocator_t \<Rightarrow> u32 \<Rightarrow> nova_result \<times> nova_page_allocator_t" where
  "nova_vm_free_page allocator page =
     (if unat page \<ge> NOVA_VM_MAX_PAGES \<or> allocated allocator ! unat page = 0
      then (NOVA_NOT_FOUND, allocator)
      else (NOVA_OK, allocator\<lparr>allocated := (allocated allocator)[unat page := 0]\<rparr>))"

subsection \<open>Address spaces\<close>

definition nova_vm_address_space_init :: "nova_address_space_t \<Rightarrow> nova_address_space_t" where
  "nova_vm_address_space_init space = space\<lparr>map_count := 0\<rparr>"

definition nova_vm_map ::
  "nova_address_space_t \<Rightarrow> u64 \<Rightarrow> u32 \<Rightarrow> u8 \<Rightarrow> nova_result \<times> nova_address_space_t" where
  "nova_vm_map space vpage ppage wr =
     (case for_find (\<lambda>index. virtual_page (mappings space ! index) = vpage) 0 (map_count space) of
        Some index \<Rightarrow>
          (NOVA_OK,
           space\<lparr>mappings := (mappings space)
                   [index := (mappings space ! index)\<lparr>physical_page := ppage, writable := wr\<rparr>]\<rparr>)
      | None \<Rightarrow>
          if map_count space = NOVA_MAX_MAPPINGS then (NOVA_FULL, space)
          else (NOVA_OK,
                space\<lparr>mappings := (mappings space)
                        [map_count space := (mappings space ! map_count space)
                           \<lparr>virtual_page := vpage, physical_page := ppage, writable := wr\<rparr>],
                      map_count := map_count space + 1\<rparr>))"

definition nova_vm_translate ::
  "nova_address_space_t \<Rightarrow> u64 \<Rightarrow> nova_result \<times> (u32 \<times> u8) option" where
  "nova_vm_translate space vpage =
     (case for_find (\<lambda>index. virtual_page (mappings space ! index) = vpage) 0 (map_count space) of
        Some index \<Rightarrow>
          (NOVA_OK, Some (physical_page (mappings space ! index), writable (mappings space ! index)))
      | None \<Rightarrow> (NOVA_NOT_FOUND, None))"

subsection \<open>Specification vocabulary\<close>

definition pages_wf :: "nova_page_allocator_t \<Rightarrow> bool" where
  "pages_wf a \<longleftrightarrow> length (allocated a) = NOVA_VM_MAX_PAGES"

definition used_pages :: "nova_page_allocator_t \<Rightarrow> nat set" where
  "used_pages a = {i. i < NOVA_VM_MAX_PAGES \<and> allocated a ! i \<noteq> 0}"

definition page_lookup :: "nova_page_allocator_t \<Rightarrow> u32 \<Rightarrow> unit option" where
  "page_lookup a p = (if unat p \<in> used_pages a then Some () else None)"

definition page_ins :: "unit \<Rightarrow> nova_page_allocator_t \<Rightarrow> (nova_page_allocator_t \<times> u32) option" where
  "page_ins u a = (case nova_vm_alloc_page a of (NOVA_OK, a', Some p) \<Rightarrow> Some (a', p) | _ \<Rightarrow> None)"

text \<open>The mappings in use, as an association list.\<close>

definition space_alist :: "nova_address_space_t \<Rightarrow> (u64 \<times> u32 \<times> u8) list" where
  "space_alist sp =
     map (\<lambda>m. (virtual_page m, physical_page m, writable m)) (take (map_count sp) (mappings sp))"

definition space_wf :: "nova_address_space_t \<Rightarrow> bool" where
  "space_wf sp \<longleftrightarrow> length (mappings sp) = NOVA_MAX_MAPPINGS \<and> map_count sp \<le> NOVA_MAX_MAPPINGS \<and>
     distinct (map fst (space_alist sp))"

definition space_lookup :: "nova_address_space_t \<Rightarrow> u64 \<Rightarrow> (u32 \<times> u8) option" where
  "space_lookup sp v = snd (nova_vm_translate sp v)"

definition space_upd ::
  "u64 \<Rightarrow> u32 \<times> u8 \<Rightarrow> nova_address_space_t \<Rightarrow> nova_address_space_t option" where
  "space_upd v pw sp =
     (case nova_vm_map sp v (fst pw) (snd pw) of (NOVA_OK, sp') \<Rightarrow> Some sp' | _ \<Rightarrow> None)"

definition demo_allocator :: nova_page_allocator_t where
  "demo_allocator = \<lparr>allocated = replicate NOVA_VM_MAX_PAGES 5\<rparr>"

definition empty_allocator :: nova_page_allocator_t where
  "empty_allocator = \<lparr>allocated = replicate NOVA_VM_MAX_PAGES 0\<rparr>"

definition demo_space :: nova_address_space_t where
  "demo_space =
     \<lparr>mappings = replicate NOVA_MAX_MAPPINGS \<lparr>virtual_page = 3, physical_page = 4, writable = 5\<rparr>,
      map_count = 77\<rparr>"

subsection \<open>The allocator is a bounded handle table\<close>

lemma pages_init:
  assumes "length (allocated a) = NOVA_VM_MAX_PAGES"
  shows "pages_wf (nova_vm_init a) \<and> used_pages (nova_vm_init a) = {}"
  using assms fold_upd_all [of NOVA_VM_MAX_PAGES "allocated a" "\<lambda>_. 0"]
  by (simp add: nova_vm_init_def pages_wf_def used_pages_def)

lemma finite_used [simp]: "finite (used_pages a)"
  by (simp add: used_pages_def)

lemma alloc_page_cases [case_names full got]:
  obtains (full) "used_pages a = {..<NOVA_VM_MAX_PAGES}" "nova_vm_alloc_page a = (NOVA_FULL, a, None)"
  | (got) i where "i < NOVA_VM_MAX_PAGES" "i \<notin> used_pages a" "\<And>j. j < i \<Longrightarrow> j \<in> used_pages a"
      "nova_vm_alloc_page a =
         (NOVA_OK, a\<lparr>allocated := (allocated a)[i := 1]\<rparr>, Some (of_nat i))"
proof (cases "for_find (\<lambda>i. allocated a ! i = 0) 0 NOVA_VM_MAX_PAGES")
  case None
  then have "used_pages a = {..<NOVA_VM_MAX_PAGES}" by (auto simp: for_find_None used_pages_def)
  with None full show ?thesis by (simp add: nova_vm_alloc_page_def)
next
  case (Some i)
  then have "i < NOVA_VM_MAX_PAGES" "i \<notin> used_pages a" "\<And>j. j < i \<Longrightarrow> j \<in> used_pages a"
    by (auto simp: for_find_Some_iff used_pages_def)
  with Some got [of i] show ?thesis by (simp add: nova_vm_alloc_page_def)
qed

lemma unat_page [simp]: "i < NOVA_VM_MAX_PAGES \<Longrightarrow> unat (of_nat i :: u32) = i"
  by (rule unat_of_nat_small) simp

lemma used_after_set:
  "pages_wf a \<Longrightarrow> i < NOVA_VM_MAX_PAGES \<Longrightarrow>
     used_pages (a\<lparr>allocated := (allocated a)[i := v]\<rparr>) =
       (if v = 0 then used_pages a - {i} else insert i (used_pages a))"
  by (auto simp: used_pages_def pages_wf_def nth_list_update split: if_splits)

lemma dom_page_lookup: "dom (page_lookup a) = of_nat ` used_pages a"
proof -
  have "unat p \<in> used_pages a \<longleftrightarrow> p \<in> of_nat ` used_pages a" for p :: u32
  proof
    assume "unat p \<in> used_pages a"
    then show "p \<in> of_nat ` used_pages a" by (intro image_eqI [of _ _ "unat p"]) simp_all
  qed (auto simp: used_pages_def)
  then show ?thesis by (auto simp: page_lookup_def split: if_splits)
qed

lemma card_dom_page_lookup: "card (dom (page_lookup a)) = card (used_pages a)"
  unfolding dom_page_lookup
proof (rule card_image, rule inj_onI)
  fix i j
  assume ij: "i \<in> used_pages a" "j \<in> used_pages a" "(of_nat i :: u32) = of_nat j"
  then have "unat (of_nat i :: u32) = unat (of_nat j :: u32)" by simp
  with ij(1,2) show "i = j" by (simp add: used_pages_def)
qed

lemma used_full_iff:
  "used_pages a = {..<NOVA_VM_MAX_PAGES} \<longleftrightarrow> NOVA_VM_MAX_PAGES \<le> card (used_pages a)"
proof
  assume "NOVA_VM_MAX_PAGES \<le> card (used_pages a)"
  moreover have "used_pages a \<subseteq> {..<NOVA_VM_MAX_PAGES}" by (auto simp: used_pages_def)
  ultimately show "used_pages a = {..<NOVA_VM_MAX_PAGES}" by (intro card_seteq) auto
qed simp

interpretation page_table:
  bounded_handle_table pages_wf page_lookup page_ins "\<lambda>_ _. ()" NOVA_VM_MAX_PAGES
proof
  fix a :: nova_page_allocator_t and u a' p
  assume wf: "pages_wf a" and ins: "page_ins u a = Some (a', p)"
  obtain i where i: "i < NOVA_VM_MAX_PAGES" "i \<notin> used_pages a" "p = of_nat i"
    "a' = a\<lparr>allocated := (allocated a)[i := 1]\<rparr>"
    using ins by (cases rule: alloc_page_cases [of a]) (auto simp: page_ins_def)
  show "pages_wf a'" using wf i by (simp add: pages_wf_def)
  show "page_lookup a p = None" using i by (simp add: page_lookup_def)
  show "page_lookup a' = (page_lookup a)(p \<mapsto> ())"
  proof
    fix q :: u32
    have "unat q = i \<longleftrightarrow> q = p" using i by (metis unat_page of_nat_unat_word)
    then show "page_lookup a' q = ((page_lookup a)(p \<mapsto> ())) q"
      using used_after_set [OF wf i(1), of 1] i(4) by (simp add: page_lookup_def)
  qed
next
  fix a :: nova_page_allocator_t and u
  show "finite (dom (page_lookup a))" by (simp add: dom_page_lookup)
  show "(page_ins u a = None) = (NOVA_VM_MAX_PAGES \<le> card (dom (page_lookup a)))"
    unfolding card_dom_page_lookup used_full_iff [symmetric]
    by (cases rule: alloc_page_cases [of a]) (auto simp: page_ins_def)
qed

subsection \<open>An address space is a bounded partial map\<close>

lemma length_space_alist [simp]:
  "space_wf sp \<Longrightarrow> length (space_alist sp) = map_count sp"
  by (simp add: space_alist_def space_wf_def)

lemma nth_space_alist:
  "space_wf sp \<Longrightarrow> i < map_count sp \<Longrightarrow>
     space_alist sp ! i = (virtual_page (mappings sp ! i), physical_page (mappings sp ! i), writable (mappings sp ! i))"
  by (simp add: space_alist_def space_wf_def)

lemma find_mapping:
  assumes "space_wf sp"
  shows "for_find (\<lambda>i. virtual_page (mappings sp ! i) = v) 0 (map_count sp) = Some i \<longleftrightarrow>
           i < map_count sp \<and> virtual_page (mappings sp ! i) = v"
    (is "?find = _ \<longleftrightarrow> ?hit i")
proof
  assume "?find = Some i"
  then show "?hit i" by (simp add: for_find_Some_iff)
next
  assume hit: "?hit i"
  have unique: "j = i" if "?hit j" for j
  proof -
    have "map fst (space_alist sp) ! j = map fst (space_alist sp) ! i"
      using that hit assms by (simp add: nth_space_alist)
    moreover have "distinct (map fst (space_alist sp))" using assms by (simp add: space_wf_def)
    ultimately show ?thesis
      using that hit assms by (metis nth_eq_iff_index_eq length_map length_space_alist)
  qed
  show "?find = Some i"
  proof (rule for_find_SomeI)
    show "virtual_page (mappings sp ! j) \<noteq> v" if "j < i" for j
      using unique [of j] hit that by fastforce
  qed (use hit in simp_all)
qed

lemma no_mapping:
  assumes "space_wf sp"
  shows "for_find (\<lambda>i. virtual_page (mappings sp ! i) = v) 0 (map_count sp) = None \<longleftrightarrow>
           v \<notin> fst ` set (space_alist sp)"
proof -
  have "set (space_alist sp) = (!) (space_alist sp) ` {0..<map_count sp}"
    using nth_image [of "map_count sp" "space_alist sp"] length_space_alist [OF assms] by simp
  then have "fst ` set (space_alist sp) = (\<lambda>i. fst (space_alist sp ! i)) ` {0..<map_count sp}"
    by (simp add: image_image)
  also have "\<dots> = (\<lambda>i. virtual_page (mappings sp ! i)) ` {0..<map_count sp}"
    using assms by (intro image_cong) (simp_all add: nth_space_alist)
  finally show ?thesis by (auto simp: for_find_None)
qed

lemma space_lookup_alist:
  assumes wf: "space_wf sp"
  shows "space_lookup sp = map_of (space_alist sp)"
proof
  fix v
  show "space_lookup sp v = map_of (space_alist sp) v"
  proof (cases "for_find (\<lambda>i. virtual_page (mappings sp ! i) = v) 0 (map_count sp)")
    case None
    then have "map_of (space_alist sp) v = None"
      using no_mapping [OF wf] by (simp add: map_of_eq_None_iff)
    with None show ?thesis by (simp add: space_lookup_def nova_vm_translate_def)
  next
    case (Some i)
    then have i: "i < map_count sp" "virtual_page (mappings sp ! i) = v"
      using find_mapping [OF wf] by auto
    have "(v, physical_page (mappings sp ! i), writable (mappings sp ! i)) \<in> set (space_alist sp)"
      using nth_space_alist [OF wf i(1)] i length_space_alist [OF wf] by (metis nth_mem)
    then have "map_of (space_alist sp) v = Some (physical_page (mappings sp ! i), writable (mappings sp ! i))"
      using wf by (simp add: space_wf_def)
    with Some show ?thesis by (simp add: space_lookup_def nova_vm_translate_def)
  qed
qed

text \<open>The three outcomes of a mapping request.\<close>

lemma vm_map_cases [consumes 1, case_names replaced full added]:
  assumes wf: "space_wf sp"
  obtains (replaced) i sp' where "i < map_count sp" "fst (space_alist sp ! i) = v"
      "nova_vm_map sp v p w = (NOVA_OK, sp')" "space_wf sp'"
      "space_alist sp' = (space_alist sp)[i := (v, p, w)]"
  | (full) "v \<notin> fst ` set (space_alist sp)" "map_count sp = NOVA_MAX_MAPPINGS"
      "nova_vm_map sp v p w = (NOVA_FULL, sp)"
  | (added) sp' where "v \<notin> fst ` set (space_alist sp)" "map_count sp < NOVA_MAX_MAPPINGS"
      "nova_vm_map sp v p w = (NOVA_OK, sp')" "space_wf sp'"
      "space_alist sp' = space_alist sp @ [(v, p, w)]"
proof (cases "for_find (\<lambda>i. virtual_page (mappings sp ! i) = v) 0 (map_count sp)")
  case None
  note new = None [unfolded no_mapping [OF wf]]
  show ?thesis
  proof (cases "map_count sp = NOVA_MAX_MAPPINGS")
    case True
    with None new full show ?thesis by (simp add: nova_vm_map_def)
  next
    case False
    then have room: "map_count sp < NOVA_MAX_MAPPINGS" using wf by (simp add: space_wf_def)
    let ?m = "(mappings sp ! map_count sp)\<lparr>virtual_page := v, physical_page := p, writable := w\<rparr>"
    let ?sp' = "sp\<lparr>mappings := (mappings sp)[map_count sp := ?m], map_count := map_count sp + 1\<rparr>"
    have "nova_vm_map sp v p w = (NOVA_OK, ?sp')"
      using None False by (simp add: nova_vm_map_def)
    moreover have al: "space_alist ?sp' = space_alist sp @ [(v, p, w)]"
      using wf room by (simp add: space_alist_def space_wf_def take_Suc_conv_app_nth)
    moreover have "space_wf ?sp'"
      using wf room new unfolding space_wf_def al by simp
    ultimately show ?thesis using new room by (intro added)
  qed
next
  case (Some i)
  then have i: "i < map_count sp" "virtual_page (mappings sp ! i) = v"
    using find_mapping [OF wf] by auto
  let ?sp' = "sp\<lparr>mappings := (mappings sp)
    [i := (mappings sp ! i)\<lparr>physical_page := p, writable := w\<rparr>]\<rparr>"
  have map: "nova_vm_map sp v p w = (NOVA_OK, ?sp')"
    using Some by (simp add: nova_vm_map_def)
  have al: "space_alist ?sp' = (space_alist sp)[i := (v, p, w)]"
    using i by (simp add: space_alist_def take_update_swap map_update)
  have key: "fst (space_alist sp ! i) = v" using nth_space_alist [OF wf i(1)] i(2) by simp
  then have "map fst ((space_alist sp)[i := (v, p, w)]) = map fst (space_alist sp)"
    using i(1) wf by (simp add: map_update) (metis length_space_alist list_update_id nth_map)
  then have "space_wf ?sp'" using wf unfolding space_wf_def al by simp
  with i(1) key map al show ?thesis by (intro replaced)
qed

lemma map_of_update_key:
  assumes "i < length al" "distinct (map fst al)" "fst (al ! i) = k"
  shows "map_of (al[i := (k, v)]) = (map_of al)(k \<mapsto> v)"
proof -
  have split: "al = take i al @ al ! i # drop (Suc i) al" using assms(1) by (rule id_take_nth_drop)
  have "k \<notin> fst ` set (take i al)"
    using assms split by (metis distinct_append list.set_map map_append disjoint_iff
        list.simps(9) list.set_intros(1))
  then show ?thesis
    unfolding upd_conv_take_nth_drop [OF assms(1)]
    by (subst (3) split)
      (use assms(3) in \<open>auto simp: fun_eq_iff map_add_def split: option.splits
          dest: map_of_SomeD intro: rev_image_eqI\<close>)
qed

interpretation vm_space: bounded_map space_wf space_lookup space_upd NOVA_MAX_MAPPINGS
proof
  fix sp :: nova_address_space_t and v :: u64 and pw :: "u32 \<times> u8" and sp'
  assume wf: "space_wf sp"
  obtain p w where pw: "pw = (p, w)" by (cases pw)
  note look = space_lookup_alist [OF wf]
  have card: "card (dom (space_lookup sp)) = map_count sp"
  proof -
    have "card (set (map fst (space_alist sp))) = length (map fst (space_alist sp))"
      using wf by (intro distinct_card) (simp add: space_wf_def)
    then show ?thesis using wf unfolding look by (simp add: dom_map_of_conv_image_fst)
  qed
  show "finite (dom (space_lookup sp))" unfolding look by (rule finite_dom_map_of)
  have full: "(space_upd v pw sp = None) =
      (v \<notin> dom (space_lookup sp) \<and> NOVA_MAX_MAPPINGS \<le> map_count sp)"
    using wf
  proof (cases rule: vm_map_cases [of sp v p w])
    case (replaced i s1)
    then have "v \<in> fst ` set (space_alist sp)" using wf by (metis image_eqI length_space_alist nth_mem)
    with replaced pw show ?thesis
      by (simp add: space_upd_def look dom_map_of_conv_image_fst)
  qed (simp_all add: space_upd_def pw look dom_map_of_conv_image_fst)
  show "(space_upd v pw sp = None) =
      (v \<notin> dom (space_lookup sp) \<and> NOVA_MAX_MAPPINGS \<le> card (dom (space_lookup sp)))"
    unfolding card by (rule full)
  assume upd: "space_upd v pw sp = Some sp'"
  from wf have "space_wf sp' \<and> space_lookup sp' = (space_lookup sp)(v \<mapsto> pw)"
  proof (cases rule: vm_map_cases [of sp v p w])
    case (replaced i s1)
    then have "sp' = s1" using upd pw by (simp add: space_upd_def)
    moreover have "map_of (space_alist s1) = (map_of (space_alist sp))(v \<mapsto> (p, w))"
      unfolding replaced(5) using replaced(1,2) wf
      by (intro map_of_update_key) (simp_all, simp add: space_wf_def)
    ultimately show ?thesis
      using replaced(4) unfolding look by (simp add: space_lookup_alist pw)
  next
    case (added s1)
    then have "sp' = s1" using upd pw by (simp add: space_upd_def)
    moreover have "map_of (space_alist sp) v = None" using added(1) by (simp add: map_of_eq_None_iff)
    ultimately show ?thesis
      using added unfolding look by (auto simp: space_lookup_alist pw fun_eq_iff map_add_def split: option.splits)
  qed (use upd pw in \<open>simp add: space_upd_def\<close>)
  then show "space_wf sp'" "space_lookup sp' = (space_lookup sp)(v \<mapsto> pw)" by auto
qed

subsection \<open>Properties\<close>

text \<open>
  Claim C21.  Page allocation: from an initialised allocator, \<open>n\<close> successive allocations succeed
  exactly when \<open>n\<close> is at most 128; the pages handed out are pairwise different, below 128, and
  exactly the pages in use afterwards.
\<close>

theorem vm_alloc_all:
  assumes "length (allocated a) = NOVA_VM_MAX_PAGES"
  shows "(insert_all page_ins (replicate n ()) (nova_vm_init a) \<noteq> None \<longleftrightarrow> n \<le> NOVA_VM_MAX_PAGES) \<and>
    (\<forall>a' pages. insert_all page_ins (replicate n ()) (nova_vm_init a) = Some (a', pages) \<longrightarrow>
       length pages = n \<and> distinct pages \<and> (\<forall>p \<in> set pages. unat p < NOVA_VM_MAX_PAGES) \<and>
       unat ` set pages = used_pages a')"
proof -
  have wf: "pages_wf (nova_vm_init a)" and empty: "used_pages (nova_vm_init a) = {}"
    using pages_init [OF assms] by auto
  have none: "page_lookup (nova_vm_init a) = Map.empty"
    by (simp add: page_lookup_def empty fun_eq_iff)
  have used: "unat ` set pages = used_pages a' \<and> (\<forall>p \<in> set pages. unat p < NOVA_VM_MAX_PAGES)"
    if "dom (page_lookup a') = set pages" for a' pages
  proof -
    have "unat ` (of_nat ` used_pages a' :: u32 set) = used_pages a'"
      unfolding image_image by (force simp: used_pages_def)
    then show ?thesis using that unfolding dom_page_lookup by (auto simp: used_pages_def)
  qed
  show ?thesis
    using page_table.insert_all_from_empty_fits [OF wf none, of "replicate n ()"]
      page_table.insert_all_from_empty [OF wf none, of "replicate n ()"]
      page_table.insert_all_length [of "replicate n ()" "nova_vm_init a"] used
    by (metis length_replicate)
qed

theorem vm_alloc_all_witness:
  "insert_all page_ins (replicate 129 ()) (nova_vm_init demo_allocator) = None \<and>
   (\<exists>a' pages. insert_all page_ins (replicate 2 ()) (nova_vm_init demo_allocator) = Some (a', pages) \<and>
      distinct pages)"
proof -
  have "length (allocated demo_allocator) = NOVA_VM_MAX_PAGES" by (simp add: demo_allocator_def)
  from vm_alloc_all [OF this, of 129] vm_alloc_all [OF this, of 2] show ?thesis by fastforce
qed

lemma free_page_outcome:
  assumes "pages_wf b"
  shows "if unat q \<in> used_pages b
    then \<exists>b'. nova_vm_free_page b q = (NOVA_OK, b') \<and> pages_wf b' \<and>
           used_pages b' = used_pages b - {unat q} \<and> nova_vm_free_page b' q = (NOVA_NOT_FOUND, b')
    else nova_vm_free_page b q = (NOVA_NOT_FOUND, b)"
proof (cases "unat q \<in> used_pages b")
  case True
  then have q: "unat q < NOVA_VM_MAX_PAGES" "allocated b ! unat q \<noteq> 0" by (auto simp: used_pages_def)
  with assms show ?thesis
    by (simp add: True nova_vm_free_page_def used_after_set pages_wf_def)
qed (auto simp: nova_vm_free_page_def used_pages_def)

text \<open>
  Freeing: a page is freed exactly when it is in range and in use, and then it alone
  leaves the pages in use; any other request is refused and changes nothing, so a second free of
  the same page is refused.  The next allocation returns a lowest free page, and freeing what was
  just allocated restores the pages in use.
\<close>

lemma vm_free_spec:
  assumes "pages_wf a"
  shows "(if unat p \<in> used_pages a
      then \<exists>a'. nova_vm_free_page a p = (NOVA_OK, a') \<and> pages_wf a' \<and>
             used_pages a' = used_pages a - {unat p} \<and> nova_vm_free_page a' p = (NOVA_NOT_FOUND, a')
      else nova_vm_free_page a p = (NOVA_NOT_FOUND, a)) \<and>
    (\<forall>a' q. nova_vm_alloc_page a = (NOVA_OK, a', Some q) \<longrightarrow>
       unat q \<notin> used_pages a \<and> (\<forall>i < unat q. i \<in> used_pages a) \<and>
       fst (nova_vm_free_page a' q) = NOVA_OK \<and>
       used_pages (snd (nova_vm_free_page a' q)) = used_pages a)"
proof -
  note free = free_page_outcome
  have "unat q \<notin> used_pages a \<and> (\<forall>i < unat q. i \<in> used_pages a) \<and>
      fst (nova_vm_free_page a' q) = NOVA_OK \<and>
      used_pages (snd (nova_vm_free_page a' q)) = used_pages a"
    if alloc: "nova_vm_alloc_page a = (NOVA_OK, a', Some q)" for a' q
  proof (cases rule: alloc_page_cases [of a])
    case (got i)
    then have a': "a' = a\<lparr>allocated := (allocated a)[i := 1]\<rparr>" and q: "unat q = i"
      using alloc by auto
    have wf': "pages_wf a'" and used: "used_pages a' = insert i (used_pages a)"
      using assms got(1) by (simp_all add: a' used_after_set) (simp add: pages_wf_def)
    show ?thesis using free [OF wf', of q] used q got(2,3) by auto
  qed (use alloc in simp)
  with free [OF assms, of p] show ?thesis by blast
qed

text \<open>
  Freeing a page does not reach the address spaces: after a page is allocated and mapped, the
  free succeeds and takes the allocator back to where it was, the mapping still translates to the
  page, and the next allocation hands the very same page out again, now for a second owner.
\<close>
lemma vm_stale_mapping:
  assumes wf: "pages_wf a" "space_wf sp" and alloc: "nova_vm_alloc_page a = (NOVA_OK, a1, Some p)"
    and mapped: "nova_vm_map sp v p w = (NOVA_OK, sp1)"
  shows "nova_vm_free_page a1 p = (NOVA_OK, a) \<and> nova_vm_translate sp1 v = (NOVA_OK, Some (p, w)) \<and>
    nova_vm_alloc_page (snd (nova_vm_free_page a1 p)) = (NOVA_OK, a1, Some p)"
proof -
  have freed: "nova_vm_free_page a1 p = (NOVA_OK, a)"
  proof (cases rule: alloc_page_cases [of a])
    case (got i)
    then have i: "i < length (allocated a)" "allocated a ! i = 0" "unat p = i"
      and a1: "a1 = a\<lparr>allocated := (allocated a)[i := 1]\<rparr>"
      using alloc wf(1) by (auto simp: pages_wf_def used_pages_def)
    have "(allocated a)[i := 0] = allocated a" using i(2) by (metis list_update_id)
    then show ?thesis using i got(1) by (simp add: nova_vm_free_page_def a1)
  qed (use alloc in simp)
  have "space_upd v (p, w) sp = Some sp1" using mapped by (simp add: space_upd_def)
  then have "space_lookup sp1 v = Some (p, w)" using vm_space.upd_lookup [OF wf(2)] by simp
  then have "nova_vm_translate sp1 v = (NOVA_OK, Some (p, w))"
    by (auto simp: space_lookup_def nova_vm_translate_def split: option.splits)
  with freed alloc show ?thesis by simp
qed

text \<open>
  Claim C9.  Translation after mapping: from an initialised address space, a sequence of mapping
  requests succeeds whenever it names at most 128 different virtual pages, and afterwards
  \<open>nova_vm_translate\<close> finds for every virtual page exactly the physical page and writable flag of
  the last request that named it, and reports \<open>NOVA_NOT_FOUND\<close> for every other page.
\<close>

theorem vm_map_translate:
  assumes "length (mappings sp) = NOVA_MAX_MAPPINGS"
    and "card (fst ` set kvs) \<le> NOVA_MAX_MAPPINGS"
  shows "\<exists>sp'. update_all space_upd kvs (nova_vm_address_space_init sp) = Some sp' \<and>
    (\<forall>v. nova_vm_translate sp' v =
       (case map_of (rev kvs) v of Some pw \<Rightarrow> (NOVA_OK, Some pw) | None \<Rightarrow> (NOVA_NOT_FOUND, None)))"
proof -
  let ?sp0 = "nova_vm_address_space_init sp"
  have wf: "space_wf ?sp0"
    using assms(1) by (simp add: space_wf_def nova_vm_address_space_init_def space_alist_def)
  have empty: "space_lookup ?sp0 = Map.empty"
    unfolding space_lookup_alist [OF wf] by (simp add: space_alist_def nova_vm_address_space_init_def)
  obtain sp' where run: "update_all space_upd kvs ?sp0 = Some sp'"
    using vm_space.update_all_fits [OF wf, of kvs] assms(2) by (auto simp: empty)
  have look: "space_lookup sp' = map_of (rev kvs)"
    using vm_space.update_all_lookup [OF wf run] by (simp only: empty empty_map_add)
  have "nova_vm_translate sp' v =
      (case space_lookup sp' v of Some pw \<Rightarrow> (NOVA_OK, Some pw) | None \<Rightarrow> (NOVA_NOT_FOUND, None))" for v
    by (simp add: space_lookup_def nova_vm_translate_def split: option.splits)
  with run look show ?thesis by auto
qed

theorem vm_map_translate_witness:
  "\<exists>sp'. update_all space_upd [(0x1000, 7, 1), (0x2000, 8, 0), (0x1000, 9, 0)]
       (nova_vm_address_space_init demo_space) = Some sp' \<and>
     nova_vm_translate sp' 0x1000 = (NOVA_OK, Some (9, 0)) \<and>
     nova_vm_translate sp' 3 = (NOVA_NOT_FOUND, None)"
proof -
  let ?kvs = "[(0x1000, 7, 1), (0x2000, 8, 0), (0x1000, 9, 0)] :: (u64 \<times> u32 \<times> u8) list"
  have "length (mappings demo_space) = NOVA_MAX_MAPPINGS" "card (fst ` set ?kvs) \<le> NOVA_MAX_MAPPINGS"
    by (simp add: demo_space_def) code_simp
  from vm_map_translate [OF this] show ?thesis by auto
qed

text \<open>
  Every branch of a mapping request on a well-formed address space: a page that is
  already mapped is remapped, even when the table is full; a new page is refused with \<open>NOVA_FULL\<close>
  and no change when 128 pages are mapped, and is added otherwise.  Other translations never
  change.
\<close>

lemma vm_map_spec:
  assumes "space_wf sp"
  shows "if space_lookup sp v = None \<and> card (dom (space_lookup sp)) = NOVA_MAX_MAPPINGS
    then nova_vm_map sp v p w = (NOVA_FULL, sp)
    else \<exists>sp'. nova_vm_map sp v p w = (NOVA_OK, sp') \<and> space_wf sp' \<and>
           space_lookup sp' = (space_lookup sp)(v \<mapsto> (p, w))"
proof -
  have full: "space_upd v (p, w) sp = None \<longleftrightarrow>
      space_lookup sp v = None \<and> NOVA_MAX_MAPPINGS \<le> card (dom (space_lookup sp))"
    unfolding vm_space.upd_full [OF assms] domIff by (simp only: not_not)
  have bound: "card (dom (space_lookup sp)) \<le> NOVA_MAX_MAPPINGS"
  proof -
    have "card (dom (space_lookup sp)) \<le> length (space_alist sp)"
      unfolding space_lookup_alist [OF assms] dom_map_of_conv_image_fst
      by (metis card_length length_map list.set_map)
    then show ?thesis using assms by simp (simp add: space_wf_def)
  qed
  from assms show ?thesis
  proof (cases rule: vm_map_cases [of sp v p w])
    case full': full
    then show ?thesis using full bound by (auto simp: space_upd_def)
  next
    case (replaced i s1)
    then have "space_upd v (p, w) sp = Some s1" by (simp add: space_upd_def)
    with full bound replaced vm_space.upd_lookup [OF assms this] show ?thesis by auto
  next
    case (added s1)
    then have "space_upd v (p, w) sp = Some s1" by (simp add: space_upd_def)
    with full bound added vm_space.upd_lookup [OF assms this] show ?thesis by auto
  qed
qed

end
