(* ===== verification/Nova_Vm_Api.thy ===== *)
theory Nova_Vm_Api
  imports Nova_Vm
begin

text \<open>
  The contract of virtual memory in \<open>kernel/core/vm.c\<close>: a set of physical pages in use and a partial
  map from virtual pages to a physical page and a flag.  A page allocator and an address space, used
  in any order, implement it call by call.
\<close>

subsection \<open>The specification\<close>

datatype vm_call =
  Pages_init | Alloc_page | Free_page u32 | Space_init | Map_page u64 u32 u8 | Translate u64

datatype vm_answer = No_answer | Result nova_result | Page nova_result "u32 option" | Target nova_result "(u32 \<times> u8) option"

type_synonym vm_memory = "nova_page_allocator_t \<times> nova_address_space_t"

fun vm_call_exec :: "vm_call \<Rightarrow> vm_memory \<Rightarrow> (vm_answer \<times> vm_memory) option" where
  "vm_call_exec Pages_init (al, sp) = Some (No_answer, nova_vm_init al, sp)"
| "vm_call_exec Alloc_page (al, sp) = (case nova_vm_alloc_page al of (r, al', p) \<Rightarrow> Some (Page r p, al', sp))"
| "vm_call_exec (Free_page p) (al, sp) = (case nova_vm_free_page al p of (r, al') \<Rightarrow> Some (Result r, al', sp))"
| "vm_call_exec Space_init (al, sp) = Some (No_answer, al, nova_vm_address_space_init sp)"
| "vm_call_exec (Map_page v p w) (al, sp) = (case nova_vm_map sp v p w of (r, sp') \<Rightarrow> Some (Result r, al, sp'))"
| "vm_call_exec (Translate v) (al, sp) = (case nova_vm_translate sp v of (r, out) \<Rightarrow> Some (Target r out, al, sp))"

record vm_state =
  vm_used :: "nat set"
  vm_mapped :: "u64 \<Rightarrow> (u32 \<times> u8) option"

fun vm_spec :: "vm_call \<Rightarrow> vm_state \<Rightarrow> vm_answer \<Rightarrow> vm_state \<Rightarrow> bool" where
  "vm_spec Pages_init a r b \<longleftrightarrow> r = No_answer \<and> b = a\<lparr>vm_used := {}\<rparr>"
| "vm_spec Alloc_page a r b \<longleftrightarrow>
     (if vm_used a = {..<NOVA_VM_MAX_PAGES} then r = Page NOVA_FULL None \<and> b = a
      else \<exists>p. r = Page NOVA_OK (Some p) \<and> unat p < NOVA_VM_MAX_PAGES \<and> unat p \<notin> vm_used a \<and>
        {..<unat p} \<subseteq> vm_used a \<and> b = a\<lparr>vm_used := insert (unat p) (vm_used a)\<rparr>)"
| "vm_spec (Free_page p) a r b \<longleftrightarrow>
     r = Result (if unat p \<in> vm_used a then NOVA_OK else NOVA_NOT_FOUND) \<and> b = a\<lparr>vm_used := vm_used a - {unat p}\<rparr>"
| "vm_spec Space_init a r b \<longleftrightarrow> r = No_answer \<and> b = a\<lparr>vm_mapped := Map.empty\<rparr>"
| "vm_spec (Map_page v p w) a r b \<longleftrightarrow>
     (if v \<notin> dom (vm_mapped a) \<and> card (dom (vm_mapped a)) = NOVA_MAX_MAPPINGS then r = Result NOVA_FULL \<and> b = a
      else r = Result NOVA_OK \<and> b = a\<lparr>vm_mapped := (vm_mapped a)(v \<mapsto> (p, w))\<rparr>)"
| "vm_spec (Translate v) a r b \<longleftrightarrow> b = a \<and>
     r = Target (if v \<in> dom (vm_mapped a) then NOVA_OK else NOVA_NOT_FOUND) (vm_mapped a v)"

definition vm_sim :: "vm_memory \<Rightarrow> vm_state \<Rightarrow> bool" where
  "vm_sim m a \<longleftrightarrow> (case m of (al, sp) \<Rightarrow>
     pages_wf al \<and> space_wf sp \<and> vm_used a = used_pages al \<and> vm_mapped a = space_lookup sp)"

subsection \<open>The simulation\<close>

lemma space_init_empty:
  "length (mappings sp) = NOVA_MAX_MAPPINGS \<Longrightarrow>
     space_wf (nova_vm_address_space_init sp) \<and> space_lookup (nova_vm_address_space_init sp) = Map.empty"
proof -
  assume "length (mappings sp) = NOVA_MAX_MAPPINGS"
  then have wf: "space_wf (nova_vm_address_space_init sp)"
    by (simp add: space_wf_def nova_vm_address_space_init_def space_alist_def)
  then show ?thesis
    by (simp add: space_lookup_alist [OF wf]) (simp add: nova_vm_address_space_init_def space_alist_def)
qed

lemma translate_lookup:
  "nova_vm_translate sp v = (if v \<in> dom (space_lookup sp) then NOVA_OK else NOVA_NOT_FOUND, space_lookup sp v)"
  by (auto simp: space_lookup_def nova_vm_translate_def split: option.splits)

interpretation vm_api: call_refinement vm_sim vm_call_exec "\<lambda>op a. True" vm_spec
proof unfold_locales
  fix m a op
  assume sim: "vm_sim m a"
  obtain al sp where m: "m = (al, sp)" by (cases m)
  have wf: "pages_wf al" "space_wf sp" and abs: "vm_used a = used_pages al" "vm_mapped a = space_lookup sp"
    using sim m by (simp_all add: vm_sim_def)
  show "\<exists>r t b. vm_call_exec op m = Some (r, t) \<and> vm_spec op a r b \<and> vm_sim t b"
  proof (cases op)
    case Pages_init
    with wf abs pages_init [of al] show ?thesis by (simp add: m vm_sim_def pages_wf_def)
  next
    case Alloc_page
    show ?thesis
    proof (cases rule: alloc_page_cases [of al])
      case full
      with Alloc_page sim show ?thesis by (simp add: m abs)
    next
      case (got i)
      let ?al = "al\<lparr>allocated := (allocated al)[i := 1]\<rparr>"
      have "used_pages ?al = insert i (used_pages al)" "pages_wf ?al"
        using used_after_set [OF wf(1) got(1), of 1] wf(1) by (simp_all add: pages_wf_def)
      then have "vm_sim (?al, sp) (a\<lparr>vm_used := insert i (used_pages al)\<rparr>)" using wf abs by (simp add: vm_sim_def)
      moreover have "used_pages al \<noteq> {..<NOVA_VM_MAX_PAGES}" using got(1,2) by auto
      ultimately show ?thesis using Alloc_page got unat_page [OF got(1)] by (auto simp: m abs simp del: unat_page)
    qed
  next
    case (Free_page p)
    show ?thesis
    proof (cases "unat p \<in> used_pages al")
      case True
      with free_page_outcome [OF wf(1), of p] Free_page wf show ?thesis by (auto simp: m abs vm_sim_def)
    next
      case False
      have a: "a = \<lparr>vm_used = used_pages al, vm_mapped = space_lookup sp\<rparr>" using abs by simp
      from False free_page_outcome [OF wf(1), of p] Free_page sim show ?thesis unfolding m a by simp
    qed
  next
    case Space_init
    with wf abs space_init_empty [of sp] show ?thesis by (simp add: m vm_sim_def space_wf_def)
  next
    case (Map_page v p w)
    with vm_map_spec [OF wf(2), of v p w] wf sim show ?thesis
      by (cases "space_lookup sp v = None \<and> card (dom (space_lookup sp)) = NOVA_MAX_MAPPINGS")
        (auto simp: m abs vm_sim_def domIff)
  next
    case (Translate v)
    with sim show ?thesis by (simp add: m translate_lookup abs)
  qed
qed

subsection \<open>The property\<close>

text \<open>
  Claim C8. Virtual memory implements its contract: after initialising any memory, every sequence of
  allocator and address-space calls with any arguments answers as a set of pages in use and a map
  of translations do.  Allocation gives the lowest free page and fails only when all 128 are in use;
  a page that is not in use cannot be freed; a mapping is refused only for a new page when 128 are
  mapped and replaces the page's earlier one otherwise; translation answers what was mapped last.
  The two halves are independent: freeing a page leaves the translations to it in place.
\<close>
theorem vm_api_refines:
  assumes "length (allocated al) = NOVA_VM_MAX_PAGES" "length (mappings sp) = NOVA_MAX_MAPPINGS"
  shows "\<exists>rs al' sp' b. call_run vm_call_exec calls (nova_vm_init al, nova_vm_address_space_init sp) = Some (rs, al', sp') \<and>
    spec_run vm_spec calls \<lparr>vm_used = {}, vm_mapped = Map.empty\<rparr> rs b \<and>
    used_pages al' = vm_used b \<and> space_lookup sp' = vm_mapped b"
proof -
  have "vm_sim (nova_vm_init al, nova_vm_address_space_init sp) \<lparr>vm_used = {}, vm_mapped = Map.empty\<rparr>"
    using pages_init [OF assms(1)] space_init_empty [OF assms(2)] by (simp add: vm_sim_def)
  moreover have "keeps_contract (\<lambda>op a. True) vm_spec calls \<lparr>vm_used = {}, vm_mapped = Map.empty\<rparr>"
    by (rule keeps_contract_static) simp
  ultimately obtain rs m b where "call_run vm_call_exec calls (nova_vm_init al, nova_vm_address_space_init sp) = Some (rs, m)"
    "spec_run vm_spec calls \<lparr>vm_used = {}, vm_mapped = Map.empty\<rparr> rs b" "vm_sim m b"
    using vm_api.run_sim by blast
  then show ?thesis by (cases m) (auto simp: vm_sim_def)
qed

subsection \<open>Witness\<close>

theorem vm_api_refines_witness:
  "\<exists>rs al' sp' b. call_run vm_call_exec [Alloc_page, Map_page 5 0 1, Free_page 0, Translate 5]
      (nova_vm_init demo_allocator, nova_vm_address_space_init demo_space) = Some (rs, al', sp') \<and>
    rs = [Page NOVA_OK (Some 0), Result NOVA_OK, Result NOVA_OK, Target NOVA_OK (Some (0, 1))] \<and>
    used_pages al' = {}"
proof -
  let ?calls = "[Alloc_page, Map_page 5 0 1, Free_page 0, Translate 5]"
  have "length (allocated demo_allocator) = NOVA_VM_MAX_PAGES" "length (mappings demo_space) = NOVA_MAX_MAPPINGS"
    by (simp_all add: demo_allocator_def demo_space_def)
  from vm_api_refines [OF this, of ?calls]
  obtain rs al' sp' b where run: "call_run vm_call_exec ?calls (nova_vm_init demo_allocator, nova_vm_address_space_init demo_space) =
      Some (rs, al', sp')"
    and spec: "spec_run vm_spec ?calls \<lparr>vm_used = {}, vm_mapped = Map.empty\<rparr> rs b" "used_pages al' = vm_used b" by blast
  have "{..<NOVA_VM_MAX_PAGES} \<noteq> ({} :: nat set)" by (simp add: lessThan_empty_iff)
  with spec have "rs = [Page NOVA_OK (Some 0), Result NOVA_OK, Result NOVA_OK, Target NOVA_OK (Some (0, 1))]" "vm_used b = {}"
    by (auto simp: unat_eq_0 lessThan_empty_iff)
  with run spec(2) show ?thesis by simp
qed

end
