(* ===== verification/Novakit_Registry.thy ===== *)
theory Novakit_Registry
  imports Nova_Interfaces
begin

text \<open>
  The NovaKit driver registry of \<open>kernel/novakit/registry.c\<close> and \<open>include/novakit.h\<close>: an
  append-only table of 64 devices with an attachment state and a bounded name.  The registry is
  shown to be a bounded handle table whose lookup is \<open>novakit_find\<close>, and to implement a list of
  devices for every sequence of calls.  \<open>novakit_find\<close> returns a
  pointer into the table; the model returns the device it points to at that moment.
\<close>

abbreviation (input) NOVAKIT_MAX_DEVICES :: nat where "NOVAKIT_MAX_DEVICES \<equiv> 64"
abbreviation (input) NOVAKIT_NAME_LENGTH :: nat where "NOVAKIT_NAME_LENGTH \<equiv> 48"

datatype novakit_device_class_t =
  NOVAKIT_STORAGE | NOVAKIT_NETWORK | NOVAKIT_GPU | NOVAKIT_INPUT | NOVAKIT_AUDIO | NOVAKIT_BUS

datatype novakit_device_state_t = NOVAKIT_DETACHED | NOVAKIT_ATTACHED

record novakit_device_t =
  nk_id :: u32
  nk_vendor_id :: u16
  nk_device_id :: u16
  nk_class :: novakit_device_class_t
  nk_state :: novakit_device_state_t
  nk_name :: "char list"

record novakit_registry_t =
  nk_devices :: "novakit_device_t list"
  nk_count :: nat

subsection \<open>Operations\<close>

text \<open>The all-zero device that \<open>memset\<close> leaves in every slot.\<close>

definition zero_device :: novakit_device_t where
  "zero_device =
     \<lparr>nk_id = 0, nk_vendor_id = 0, nk_device_id = 0, nk_class = NOVAKIT_STORAGE,
      nk_state = NOVAKIT_DETACHED, nk_name = replicate NOVAKIT_NAME_LENGTH NUL\<rparr>"

definition novakit_registry_init :: "novakit_registry_t \<Rightarrow> novakit_registry_t" where
  "novakit_registry_init registry =
     \<lparr>nk_devices = replicate NOVAKIT_MAX_DEVICES zero_device, nk_count = 0\<rparr>"

definition novakit_register_device ::
  "novakit_registry_t \<Rightarrow> u16 \<Rightarrow> u16 \<Rightarrow> novakit_device_class_t \<Rightarrow> string \<Rightarrow>
     int \<times> novakit_registry_t \<times> u32 option" where
  "novakit_register_device registry vendor device cls name =
     (if nk_count registry = NOVAKIT_MAX_DEVICES then (-1, registry, None)
      else let slot = nk_devices registry ! nk_count registry;
               dev = slot\<lparr>nk_id := of_nat (nk_count registry) + 1, nk_vendor_id := vendor,
                          nk_device_id := device, nk_class := cls, nk_state := NOVAKIT_DETACHED,
                          nk_name := (strncpy (nk_name slot) name (NOVAKIT_NAME_LENGTH - 1))
                                       [NOVAKIT_NAME_LENGTH - 1 := NUL]\<rparr>
        in (0, registry\<lparr>nk_devices := (nk_devices registry)[nk_count registry := dev],
                        nk_count := nk_count registry + 1\<rparr>,
            Some (nk_id dev)))"

definition novakit_set_state ::
  "novakit_registry_t \<Rightarrow> u32 \<Rightarrow> novakit_device_state_t \<Rightarrow> int \<times> novakit_registry_t" where
  "novakit_set_state registry did st =
     (if did = 0 \<or> unat did > nk_count registry then (-1, registry)
      else let index = unat did - 1 in
        (0, registry\<lparr>nk_devices := (nk_devices registry)
                       [index := (nk_devices registry ! index)\<lparr>nk_state := st\<rparr>]\<rparr>))"

definition novakit_find :: "novakit_registry_t \<Rightarrow> u32 \<Rightarrow> novakit_device_t option" where
  "novakit_find registry did =
     (if did = 0 \<or> unat did > nk_count registry then None
      else Some (nk_devices registry ! (unat did - 1)))"

subsection \<open>Specification vocabulary\<close>

definition registry_wf :: "novakit_registry_t \<Rightarrow> bool" where
  "registry_wf r \<longleftrightarrow> length (nk_devices r) = NOVAKIT_MAX_DEVICES \<and> nk_count r \<le> NOVAKIT_MAX_DEVICES \<and>
     (\<forall>i < NOVAKIT_MAX_DEVICES. length (nk_name (nk_devices r ! i)) = NOVAKIT_NAME_LENGTH)"

type_synonym device_request = "u16 \<times> u16 \<times> novakit_device_class_t \<times> string"

definition registry_ins ::
  "device_request \<Rightarrow> novakit_registry_t \<Rightarrow> (novakit_registry_t \<times> u32) option" where
  "registry_ins q r = (case q of (vendor, device, cls, name) \<Rightarrow>
     (case novakit_register_device r vendor device cls name of
        (_, r', Some did) \<Rightarrow> Some (r', did) | (_, _, None) \<Rightarrow> None))"

text \<open>The device a request creates: detached, its name cut to 47 characters and zero-padded.\<close>

definition new_device :: "device_request \<Rightarrow> u32 \<Rightarrow> novakit_device_t" where
  "new_device q did = (case q of (vendor, device, cls, name) \<Rightarrow>
     \<lparr>nk_id = did, nk_vendor_id = vendor, nk_device_id = device, nk_class = cls,
      nk_state = NOVAKIT_DETACHED,
      nk_name = take (NOVAKIT_NAME_LENGTH - 1) name @
                replicate (NOVAKIT_NAME_LENGTH - 1 - length name) NUL @ [NUL]\<rparr>)"

text \<open>A registry in memory that was never initialised, and the registry of the host test.\<close>

definition raw_registry :: novakit_registry_t where
  "raw_registry = \<lparr>nk_devices = [], nk_count = 9\<rparr>"

definition demo_registry :: novakit_registry_t where
  "demo_registry =
     fst (snd (novakit_register_device (novakit_registry_init raw_registry) 0x1AF4 0x1000
       NOVAKIT_NETWORK ''virtio-net''))"

subsection \<open>The registry is a bounded handle table\<close>

lemma registry_wf_init: "registry_wf (novakit_registry_init r) \<and> novakit_find (novakit_registry_init r) = Map.empty"
  by (auto simp: registry_wf_def novakit_registry_init_def zero_device_def novakit_find_def
      unat_eq_zero)

lemma find_slot:
  "registry_wf r \<Longrightarrow> i < NOVAKIT_MAX_DEVICES \<Longrightarrow>
     novakit_find r (slot_id i) = (if i < nk_count r then Some (nk_devices r ! i) else None)"
  by (simp add: novakit_find_def unat_slot_id slot_id_nonzero)

lemma find_bad: "did = 0 \<or> unat did > nk_count r \<Longrightarrow> novakit_find r did = None"
  by (auto simp: novakit_find_def)

lemma dom_find:
  assumes "registry_wf r"
  shows "dom (novakit_find r) = slot_id ` {..<nk_count r}"
proof (rule set_eqI)
  fix did
  have le: "nk_count r \<le> NOVAKIT_MAX_DEVICES" using assms by (simp add: registry_wf_def)
  show "did \<in> dom (novakit_find r) \<longleftrightarrow> did \<in> slot_id ` {..<nk_count r}"
  proof (cases did rule: id_cases [of _ "nk_count r"])
    case bad
    then show ?thesis using le by (auto simp: domIff find_bad unat_slot_id slot_id_nonzero)
  next
    case (slot i)
    then show ?thesis using le by (auto simp: domIff find_slot [OF assms])
  qed
qed

lemma card_dom_find:
  assumes "registry_wf r"
  shows "card (dom (novakit_find r)) = nk_count r"
proof -
  have "inj_on slot_id {..<nk_count r}"
    using assms by (auto simp: inj_on_def of_nat_u32_inject registry_wf_def)
  then show ?thesis unfolding dom_find [OF assms] by (simp add: card_image)
qed

lemma device_fill:
  "slot\<lparr>nk_id := a, nk_vendor_id := b, nk_device_id := c, nk_class := d, nk_state := e, nk_name := f\<rparr> =
     \<lparr>nk_id = a, nk_vendor_id = b, nk_device_id = c, nk_class = d, nk_state = e, nk_name = f\<rparr>"
  by (cases slot) simp

lemma register_ok:
  assumes wf: "registry_wf r" and room: "nk_count r < NOVAKIT_MAX_DEVICES"
  shows "novakit_register_device r vendor device cls name =
     (0, r\<lparr>nk_devices := (nk_devices r)
             [nk_count r := new_device (vendor, device, cls, name) (slot_id (nk_count r))],
           nk_count := nk_count r + 1\<rparr>, Some (slot_id (nk_count r)))"
proof -
  have "length (nk_name (nk_devices r ! nk_count r)) = (NOVAKIT_NAME_LENGTH - 1) + 1"
    using wf room by (simp add: registry_wf_def)
  note name = strncpy_terminated [OF this, of name]
  show ?thesis
    unfolding novakit_register_device_def Let_def device_fill name
    using room by (simp add: new_device_def)
qed

lemma find_set_slot:
  assumes "i < NOVAKIT_MAX_DEVICES" "length (nk_devices r) = NOVAKIT_MAX_DEVICES"
    "nk_devices r' = (nk_devices r)[i := d]" "i \<le> nk_count r"
    "nk_count r' = (if i = nk_count r then nk_count r + 1 else nk_count r)"
    "nk_count r' \<le> NOVAKIT_MAX_DEVICES"
  shows "novakit_find r' = (novakit_find r)(slot_id i \<mapsto> d)"
proof
  fix did
  show "novakit_find r' did = ((novakit_find r)(slot_id i \<mapsto> d)) did"
  proof (cases did rule: id_cases [of _ "nk_count r'"])
    case bad
    then have "did \<noteq> slot_id i" "novakit_find r' did = None" "novakit_find r did = None"
      using assms by (auto simp: unat_slot_id slot_id_nonzero find_bad split: if_splits)
    then show ?thesis by simp
  next
    case (slot j)
    then show ?thesis
      using assms by (auto simp: novakit_find_def unat_slot_id slot_id_nonzero of_nat_u32_inject
          split: if_splits)
  qed
qed

interpretation nk_table:
  bounded_handle_table registry_wf novakit_find registry_ins new_device NOVAKIT_MAX_DEVICES
proof
  fix r :: novakit_registry_t and q :: device_request
  assume wf: "registry_wf r"
  obtain vendor device cls name where q: "q = (vendor, device, cls, name)" by (cases q)
  have len: "length (nk_devices r) = NOVAKIT_MAX_DEVICES" and le: "nk_count r \<le> NOVAKIT_MAX_DEVICES"
    using wf by (auto simp: registry_wf_def)
  show "finite (dom (novakit_find r))" by (simp add: dom_find [OF wf])
  have full: "registry_ins q r = None \<longleftrightarrow> \<not> nk_count r < NOVAKIT_MAX_DEVICES"
    using le register_ok [OF wf] by (auto simp: registry_ins_def q novakit_register_device_def)
  show "(registry_ins q r = None) = (NOVAKIT_MAX_DEVICES \<le> card (dom (novakit_find r)))"
    unfolding full card_dom_find [OF wf] by (rule not_less)
  fix r' did
  assume ins: "registry_ins q r = Some (r', did)"
  then have room: "nk_count r < NOVAKIT_MAX_DEVICES" using full by auto
  have r': "nk_devices r' = (nk_devices r)[nk_count r := new_device q did]"
    "nk_count r' = nk_count r + 1" and did: "did = slot_id (nk_count r)"
    using ins register_ok [OF wf room] by (auto simp: registry_ins_def q)
  show "registry_wf r'"
    using wf room r' by (auto simp: registry_wf_def nth_list_update new_device_def q)
  show "novakit_find r did = None" using wf room did by (simp add: find_slot)
  show "novakit_find r' = (novakit_find r)(did \<mapsto> new_device q did)"
    unfolding did by (rule find_set_slot [OF room len]) (use r' room did in auto)
qed

subsection \<open>Properties\<close>

text \<open>
  Claim C31.  Registration: on an initialised registry a sequence of registrations succeeds exactly
  when there are at most 64; the device ids are distinct and non-zero, every id finds the device it
  was returned for, detached and with the requested identity and class, and no other id finds
  anything.
\<close>

theorem novakit_register_all:
  "(insert_all registry_ins qs (novakit_registry_init r) \<noteq> None \<longleftrightarrow> length qs \<le> NOVAKIT_MAX_DEVICES) \<and>
   (\<forall>r' ids. insert_all registry_ins qs (novakit_registry_init r) = Some (r', ids) \<longrightarrow>
      registry_wf r' \<and> distinct ids \<and> dom (novakit_find r') = set ids \<and> 0 \<notin> set ids \<and>
      novakit_find r' = map_of (entries new_device qs ids))"
proof -
  have wf: "registry_wf (novakit_registry_init r)" and none: "novakit_find (novakit_registry_init r) = Map.empty"
    using registry_wf_init by auto
  have "0 \<notin> dom (novakit_find r')" for r' by (simp add: domIff novakit_find_def)
  with nk_table.insert_all_from_empty_fits [OF wf none] nk_table.insert_all_from_empty [OF wf none]
  show ?thesis by blast
qed

theorem novakit_register_all_witness:
  "\<exists>r' ids. insert_all registry_ins [(1, 2, NOVAKIT_GPU, ''gpu'')] (novakit_registry_init raw_registry) =
     Some (r', ids) \<and> distinct ids \<and> dom (novakit_find r') = set ids"
  using novakit_register_all [of "[(1, 2, NOVAKIT_GPU, ''gpu'')]" raw_registry] by fastforce

text \<open>
  State changes: \<open>novakit_set_state\<close> succeeds exactly on the ids that \<open>novakit_find\<close>
  resolves, changes the state of that device and of no other device, and otherwise returns \<open>-1\<close>
  and leaves the registry alone.
\<close>

lemma novakit_set_state_spec:
  assumes "registry_wf r"
  shows "case novakit_find r did of
      None \<Rightarrow> novakit_set_state r did st = (-1, r)
    | Some d \<Rightarrow> \<exists>r'. novakit_set_state r did st = (0, r') \<and> registry_wf r' \<and>
        novakit_find r' = (novakit_find r)(did \<mapsto> d\<lparr>nk_state := st\<rparr>)"
proof (cases did rule: id_cases [of _ "nk_count r"])
  case bad
  then show ?thesis by (auto simp: find_bad novakit_set_state_def)
next
  case (slot i)
  have len: "length (nk_devices r) = NOVAKIT_MAX_DEVICES" and i: "i < NOVAKIT_MAX_DEVICES"
    and le: "nk_count r \<le> NOVAKIT_MAX_DEVICES"
    using assms slot by (auto simp: registry_wf_def)
  let ?d = "nk_devices r ! i"
  let ?r' = "r\<lparr>nk_devices := (nk_devices r)[i := ?d\<lparr>nk_state := st\<rparr>]\<rparr>"
  have set: "novakit_set_state r did st = (0, ?r')"
    using slot i by (simp add: novakit_set_state_def unat_slot_id slot_id_nonzero)
  have "registry_wf ?r'" using assms i by (auto simp: registry_wf_def nth_list_update)
  moreover have "novakit_find ?r' = (novakit_find r)(slot_id i \<mapsto> ?d\<lparr>nk_state := st\<rparr>)"
    by (rule find_set_slot [OF i len]) (use slot le in auto)
  moreover have "novakit_find r did = Some ?d" using slot i assms by (simp add: find_slot)
  ultimately show ?thesis using set slot by simp
qed

text \<open>
  Names: whatever the registry slot held before, the name stored by a registration is
  zero-terminated inside its 48 bytes and reads back as the first 47 characters of the given name,
  so names of up to 47 characters round-trip.
\<close>

lemma novakit_name_roundtrip:
  assumes "registry_wf r" "nk_count r < NOVAKIT_MAX_DEVICES" "is_cstring name"
    and "novakit_register_device r vendor device cls name = (rc, r', Some did)"
  shows "\<exists>d. novakit_find r' did = Some d \<and> length (nk_name d) = NOVAKIT_NAME_LENGTH \<and>
    nk_name d ! (NOVAKIT_NAME_LENGTH - 1) = NUL \<and>
    cstr (nk_name d) = take (NOVAKIT_NAME_LENGTH - 1) name"
proof -
  let ?q = "(vendor, device, cls, name)" and ?n = "NOVAKIT_NAME_LENGTH - 1"
  have "registry_ins ?q r = Some (r', did)" using assms(4) by (simp add: registry_ins_def)
  then have find: "novakit_find r' did = Some (new_device ?q did)"
    using nk_table.ins_lookup [OF assms(1)] by simp
  have "replicate (?n - length name) NUL @ [NUL] = NUL # replicate (?n - length name) NUL"
    by (rule replicate_append_same)
  then have "cstr (nk_name (new_device ?q did)) = take ?n name"
    using cstr_prefix [OF is_cstring_take [OF assms(3)]] by (simp add: new_device_def)
  with find show ?thesis by (auto simp: new_device_def nth_append)
qed

subsection \<open>The contract\<close>

text \<open>
  What a caller knows of the registry is the list of its devices in the order of their registration:
  the device with the id \<open>i + 1\<close> stands at place \<open>i\<close>, and its name is the string that the stored
  bytes hold.
\<close>

type_synonym device_view =
  "u16 \<times> u16 \<times> novakit_device_class_t \<times> novakit_device_state_t \<times> string"

datatype nk_op =
  Nk_register u16 u16 novakit_device_class_t string | Nk_set_state u32 novakit_device_state_t | Nk_find u32

datatype nk_result = Registered int "u32 option" | State_set int | Found "device_view option"

definition view_of :: "novakit_device_t \<Rightarrow> device_view" where
  "view_of d = (nk_vendor_id d, nk_device_id d, nk_class d, nk_state d, cstr (nk_name d))"

fun nk_exec :: "nk_op \<Rightarrow> novakit_registry_t \<Rightarrow> (nk_result \<times> novakit_registry_t) option" where
  "nk_exec (Nk_register vendor device cls name) r =
     (case novakit_register_device r vendor device cls name of (c, r', did) \<Rightarrow> Some (Registered c did, r'))"
| "nk_exec (Nk_set_state did st) r = (case novakit_set_state r did st of (c, r') \<Rightarrow> Some (State_set c, r'))"
| "nk_exec (Nk_find did) r = Some (Found (map_option view_of (novakit_find r did)), r)"

definition place :: "u32 \<Rightarrow> device_view list \<Rightarrow> nat option" where
  "place did ds = (if did = 0 \<or> length ds < unat did then None else Some (unat did - 1))"

fun nk_spec :: "nk_op \<Rightarrow> device_view list \<Rightarrow> nk_result \<Rightarrow> device_view list \<Rightarrow> bool" where
  "nk_spec (Nk_register vendor device cls name) ds r es \<longleftrightarrow>
     (if length ds = NOVAKIT_MAX_DEVICES then r = Registered (-1) None \<and> es = ds
      else r = Registered 0 (Some (of_nat (length ds + 1))) \<and>
        es = ds @ [(vendor, device, cls, NOVAKIT_DETACHED, take (NOVAKIT_NAME_LENGTH - 1) name)])"
| "nk_spec (Nk_set_state did st) ds r es \<longleftrightarrow>
     (case place did ds of
        None \<Rightarrow> r = State_set (-1) \<and> es = ds
      | Some i \<Rightarrow> r = State_set 0 \<and>
          es = ds[i := (case ds ! i of (vendor, device, cls, _, name) \<Rightarrow> (vendor, device, cls, st, name))])"
| "nk_spec (Nk_find did) ds r es \<longleftrightarrow> r = Found (map_option ((!) ds) (place did ds)) \<and> es = ds"

text \<open>Names are C strings.\<close>

fun nk_allowed :: "nk_op \<Rightarrow> device_view list \<Rightarrow> bool" where
  "nk_allowed (Nk_register vendor device cls name) ds \<longleftrightarrow> is_cstring name"
| "nk_allowed _ ds \<longleftrightarrow> True"

definition nk_sim :: "novakit_registry_t \<Rightarrow> device_view list \<Rightarrow> bool" where
  "nk_sim r ds \<longleftrightarrow> registry_wf r \<and> ds = map view_of (take (nk_count r) (nk_devices r))"

lemma nk_sim_sel:
  assumes "nk_sim r ds"
  shows "registry_wf r" "length ds = nk_count r" "length (nk_devices r) = NOVAKIT_MAX_DEVICES"
    "nk_count r \<le> NOVAKIT_MAX_DEVICES" "i < nk_count r \<Longrightarrow> ds ! i = view_of (nk_devices r ! i)"
  using assms by (auto simp: nk_sim_def registry_wf_def)

lemma view_new_device:
  assumes "is_cstring name"
  shows "view_of (new_device (vendor, device, cls, name) did) =
    (vendor, device, cls, NOVAKIT_DETACHED, take (NOVAKIT_NAME_LENGTH - 1) name)"
proof -
  let ?n = "NOVAKIT_NAME_LENGTH - 1"
  have "replicate (?n - length name) NUL @ [NUL] = NUL # replicate (?n - length name) NUL" by (rule replicate_append_same)
  then show ?thesis using cstr_prefix [OF is_cstring_take [OF assms]] by (simp add: new_device_def view_of_def)
qed

lemma nk_exec_sim:
  assumes sim: "nk_sim r ds" and ok: "nk_allowed op ds"
  shows "\<exists>x r' es. nk_exec op r = Some (x, r') \<and> nk_spec op ds x es \<and> nk_sim r' es"
proof (cases op)
  case (Nk_register vendor device cls name)
  show ?thesis
  proof (cases "nk_count r = NOVAKIT_MAX_DEVICES")
    case True
    with Nk_register sim nk_sim_sel(2) [OF sim] show ?thesis by (simp add: novakit_register_device_def)
  next
    case False
    then have room: "nk_count r < NOVAKIT_MAX_DEVICES" using nk_sim_sel(4) [OF sim] by simp
    let ?d = "new_device (vendor, device, cls, name) (slot_id (nk_count r))"
    let ?r = "r\<lparr>nk_devices := (nk_devices r)[nk_count r := ?d], nk_count := nk_count r + 1\<rparr>"
    have "registry_ins (vendor, device, cls, name) r = Some (?r, slot_id (nk_count r))"
      using register_ok [OF nk_sim_sel(1) [OF sim] room] by (simp add: registry_ins_def)
    then have "registry_wf ?r" by (rule nk_table.ins_inv [OF nk_sim_sel(1) [OF sim]])
    moreover have "take (Suc (nk_count r)) (nk_devices ?r) = take (nk_count r) (nk_devices r) @ [?d]"
      using room nk_sim_sel(3) [OF sim] by (simp add: upd_conv_take_nth_drop)
    then have "map view_of (take (nk_count ?r) (nk_devices ?r)) = ds @ [view_of ?d]"
      using sim by (simp add: nk_sim_def)
    ultimately have "nk_sim ?r (ds @ [(vendor, device, cls, NOVAKIT_DETACHED, take (NOVAKIT_NAME_LENGTH - 1) name)])"
      using view_new_device [of name] ok Nk_register by (simp add: nk_sim_def)
    then show ?thesis
      using Nk_register register_ok [OF nk_sim_sel(1) [OF sim] room] False nk_sim_sel(2) [OF sim] by simp
  qed
next
  case (Nk_set_state did st)
  show ?thesis
  proof (cases "place did ds")
    case None
    with Nk_set_state sim nk_sim_sel(2) [OF sim] show ?thesis
      by (auto simp: place_def novakit_set_state_def split: if_splits)
  next
    case (Some i)
    then have i: "did \<noteq> 0" "unat did \<le> nk_count r" "i = unat did - 1"
      using nk_sim_sel(2) [OF sim] by (auto simp: place_def split: if_splits)
    then have "unat did \<noteq> 0" by (simp add: unat_eq_zero)
    with i have "i < nk_count r" by linarith
    note i = i this
    let ?r = "r\<lparr>nk_devices := (nk_devices r)[i := (nk_devices r ! i)\<lparr>nk_state := st\<rparr>]\<rparr>"
    have wf: "registry_wf ?r"
      using nk_sim_sel(1,4) [OF sim] i(4) by (auto simp: registry_wf_def nth_list_update)
    let ?es = "ds[i := (case ds ! i of (vendor, device, cls, _, name) \<Rightarrow> (vendor, device, cls, st, name))]"
    have "ds ! i = view_of (nk_devices r ! i)" by (rule nk_sim_sel(5) [OF sim i(4)])
    then have "?es = ds[i := view_of ((nk_devices r ! i)\<lparr>nk_state := st\<rparr>)]" by (simp add: view_of_def)
    then have "?es = map view_of (take (nk_count ?r) (nk_devices ?r))"
      using sim by (simp add: nk_sim_def take_update_swap map_update)
    with wf have "nk_sim ?r ?es" unfolding nk_sim_def by blast
    moreover have "nk_exec op r = Some (State_set 0, ?r)"
      using Nk_set_state i by (simp add: novakit_set_state_def Let_def)
    moreover have "nk_spec op ds (State_set 0) ?es" using Nk_set_state Some by simp
    ultimately show ?thesis by blast
  qed
next
  case (Nk_find did)
  have "unat did - 1 < nk_count r" if "did \<noteq> 0" "unat did \<le> nk_count r"
  proof -
    have "unat did \<noteq> 0" using that(1) by (simp add: unat_eq_zero)
    with that(2) show ?thesis by linarith
  qed
  with Nk_find sim nk_sim_sel(2,5) [OF sim] show ?thesis by (auto simp: novakit_find_def place_def)
qed

interpretation nk_api: call_refinement nk_sim nk_exec nk_allowed nk_spec
  by unfold_locales (rule nk_exec_sim)

text \<open>
  Claim C30. The NovaKit registry implements its contract: after initialisation any sequence of
  registrations, state changes and lookups answers as a list of at most 64 devices does.
  Registration appends the device, detached and with the first 47 characters of its name, and
  returns its place plus one, or -1 when the list is full; a state change or a lookup with an id
  reaches the device at that place and no other, and an id beyond the list, or 0, is refused.
\<close>
theorem novakit_api_refines:
  assumes "\<forall>op \<in> set ops. nk_allowed op []"
  shows "\<exists>rs t ds. call_run nk_exec ops (novakit_registry_init r) = Some (rs, t) \<and>
    spec_run nk_spec ops [] rs ds \<and> ds = map view_of (take (nk_count t) (nk_devices t))"
proof -
  have "nk_sim (novakit_registry_init r) []"
    using registry_wf_init by (simp add: nk_sim_def novakit_registry_init_def)
  moreover have "nk_allowed op ds \<longleftrightarrow> nk_allowed op []" for op ds by (cases op) simp_all
  then have "keeps_contract nk_allowed nk_spec ops []"
    using assms by (intro keeps_contract_static) blast
  ultimately show ?thesis using nk_api.run_sim [of "novakit_registry_init r" "[]" ops] by (auto simp: nk_sim_def)
qed

theorem novakit_api_refines_witness:
  "\<exists>rs t ds. call_run nk_exec [Nk_register 1 2 NOVAKIT_GPU ''gpu'', Nk_set_state 1 NOVAKIT_ATTACHED, Nk_find 1, Nk_find 2]
      (novakit_registry_init raw_registry) = Some (rs, t) \<and>
    spec_run nk_spec [Nk_register 1 2 NOVAKIT_GPU ''gpu'', Nk_set_state 1 NOVAKIT_ATTACHED, Nk_find 1, Nk_find 2] [] rs ds"
proof -
  have "is_cstring ''gpu''" by code_simp
  then show ?thesis
    using novakit_api_refines [of "[Nk_register 1 2 NOVAKIT_GPU ''gpu'', Nk_set_state 1 NOVAKIT_ATTACHED, Nk_find 1, Nk_find 2]" raw_registry]
    by auto
qed

end
