(* ===== verification/Nova_Linuxkpi.thy ===== *)
theory Nova_Linuxkpi
  imports Nova_Prelude
begin

text \<open>
  The LinuxKPI registration boundary of \<open>drivers/linuxkpi\<close>: an append-only table of at most 32
  module descriptors.  A string pointer of a descriptor is an option, \<open>None\<close> for \<open>NULL\<close>; a slot of
  the table holds the descriptor its pointer refers to.
\<close>

abbreviation (input) NOVA_LINUXKPI_MAX_MODULES :: nat where "NOVA_LINUXKPI_MAX_MODULES \<equiv> 32"

record nova_linuxkpi_module_t =
  mod_name :: "string option"
  mod_license :: "string option"
  mod_upstream_revision :: "string option"

record linuxkpi_state =
  kpi_modules :: "nova_linuxkpi_module_t option list"
  kpi_module_count :: nat

definition nova_linuxkpi_register ::
  "nova_linuxkpi_module_t option \<Rightarrow> linuxkpi_state \<Rightarrow> int \<times> linuxkpi_state" where
  "nova_linuxkpi_register m s =
     (case m of
        None \<Rightarrow> (-1, s)
      | Some module \<Rightarrow>
          if mod_name module = None \<or> mod_license module = None \<or>
             mod_upstream_revision module = None \<or>
             kpi_module_count s = NOVA_LINUXKPI_MAX_MODULES
          then (-1, s)
          else (0, s\<lparr>kpi_modules := (kpi_modules s)[kpi_module_count s := Some module],
                     kpi_module_count := kpi_module_count s + 1\<rparr>))"

definition nova_linuxkpi_module_count :: "linuxkpi_state \<Rightarrow> nat" where
  "nova_linuxkpi_module_count s = kpi_module_count s"

text \<open>The static variables at program start.\<close>

definition linuxkpi_start :: linuxkpi_state where
  "linuxkpi_start = \<lparr>kpi_modules = replicate NOVA_LINUXKPI_MAX_MODULES None, kpi_module_count = 0\<rparr>"

subsection \<open>Specification vocabulary\<close>

definition complete_module :: "nova_linuxkpi_module_t option \<Rightarrow> bool" where
  "complete_module m \<longleftrightarrow> (case m of None \<Rightarrow> False
     | Some d \<Rightarrow> mod_name d \<noteq> None \<and> mod_license d \<noteq> None \<and> mod_upstream_revision d \<noteq> None)"

definition kpi_wf :: "linuxkpi_state \<Rightarrow> bool" where
  "kpi_wf s \<longleftrightarrow> length (kpi_modules s) = NOVA_LINUXKPI_MAX_MODULES \<and>
     kpi_module_count s \<le> NOVA_LINUXKPI_MAX_MODULES"

definition kpi_registered :: "linuxkpi_state \<Rightarrow> nova_linuxkpi_module_t option list" where
  "kpi_registered s = take (kpi_module_count s) (kpi_modules s)"

fun kpi_register_all :: "nova_linuxkpi_module_t option list \<Rightarrow> linuxkpi_state \<Rightarrow> int list \<times> linuxkpi_state" where
  "kpi_register_all [] s = ([], s)"
| "kpi_register_all (m # ms) s =
     (case nova_linuxkpi_register m s of (r, s1) \<Rightarrow>
        (case kpi_register_all ms s1 of (rs, s2) \<Rightarrow> (r # rs, s2)))"

subsection \<open>Properties\<close>

lemma register_step:
  assumes "kpi_wf s"
  shows "kpi_wf (snd (nova_linuxkpi_register m s)) \<and>
    kpi_registered (snd (nova_linuxkpi_register m s)) =
      take NOVA_LINUXKPI_MAX_MODULES (kpi_registered s @ filter complete_module [m]) \<and>
    (fst (nova_linuxkpi_register m s) = 0 \<longleftrightarrow>
       complete_module m \<and> length (kpi_registered s) < NOVA_LINUXKPI_MAX_MODULES)"
  using assms
  by (auto simp: nova_linuxkpi_register_def complete_module_def kpi_wf_def kpi_registered_def
      take_Suc_conv_app_nth split: option.splits)

lemma register_all_from:
  "kpi_wf s \<Longrightarrow> kpi_wf (snd (kpi_register_all ms s)) \<and>
     kpi_registered (snd (kpi_register_all ms s)) =
       take NOVA_LINUXKPI_MAX_MODULES (kpi_registered s @ filter complete_module ms)"
proof (induction ms arbitrary: s)
  case Nil
  then show ?case by (simp add: kpi_registered_def kpi_wf_def)
next
  case (Cons m ms)
  obtain r s1 where s1: "nova_linuxkpi_register m s = (r, s1)" by (cases "nova_linuxkpi_register m s")
  have step: "kpi_wf s1"
    "kpi_registered s1 = take NOVA_LINUXKPI_MAX_MODULES (kpi_registered s @ filter complete_module [m])"
    using register_step [OF Cons.prems, of m] s1 by auto
  have take: "take n (take n xs @ zs) = take n (xs @ zs)" for n and xs zs :: "nova_linuxkpi_module_t option list"
    by (simp add: min_def)
  have all: "snd (kpi_register_all (m # ms) s) = snd (kpi_register_all ms s1)"
    by (simp add: s1 split: prod.splits)
  have split: "filter complete_module (m # ms) = filter complete_module [m] @ filter complete_module ms"
    by simp
  show ?case
    unfolding all split using Cons.IH [OF step(1)] unfolding step(2) take append_assoc .
qed

text \<open>
  Claim C32.  LinuxKPI registration: after any sequence of registrations from program start the
  table holds, in order, the first 32 of the descriptors that carry a name, a license and an
  upstream revision, the module count is their number, and a further registration returns 0
  exactly when its descriptor is complete and a slot is free.
\<close>

theorem linuxkpi_register_spec:
  "let s = snd (kpi_register_all ms linuxkpi_start) in
    kpi_registered s = take NOVA_LINUXKPI_MAX_MODULES (filter complete_module ms) \<and>
    nova_linuxkpi_module_count s = min NOVA_LINUXKPI_MAX_MODULES (length (filter complete_module ms)) \<and>
    (fst (nova_linuxkpi_register m s) = 0 \<longleftrightarrow>
       complete_module m \<and> length (filter complete_module ms) < NOVA_LINUXKPI_MAX_MODULES)"
proof -
  define s where "s = snd (kpi_register_all ms linuxkpi_start)"
  have start: "kpi_wf linuxkpi_start" "kpi_registered linuxkpi_start = []"
    by (simp_all add: kpi_wf_def kpi_registered_def linuxkpi_start_def)
  have wf: "kpi_wf s" and reg: "kpi_registered s = take NOVA_LINUXKPI_MAX_MODULES (filter complete_module ms)"
    using register_all_from [OF start(1), of ms] start(2) by (simp_all add: s_def)
  have "length (kpi_registered s) = kpi_module_count s"
    using wf by (simp add: kpi_wf_def kpi_registered_def)
  with reg register_step [OF wf, of m] show ?thesis
    unfolding Let_def s_def [symmetric] by (simp add: nova_linuxkpi_module_count_def) linarith
qed

end
