(* ===== verification/Nova_Heap.thy ===== *)
theory Nova_Heap
  imports Nova_Prelude
begin

text \<open>
  What the network and I/O stacks use of the C library's allocator and of memory: a heap of typed
  blocks with \<open>calloc\<close> and \<open>free\<close>, and singly linked lists threaded through \<open>next\<close> pointers.

  An address is a natural number and addresses are never reused, so a block is live exactly while
  its cell is \<open>Some\<close>.  The predicate \<open>calloc_fails\<close> decides which calls of \<open>calloc\<close> return
  \<open>NULL\<close>; it is arbitrary, so a statement about every heap covers every pattern of exhaustion.
  Reading or freeing a dead block is undefined behaviour, the value \<open>None\<close>.
\<close>

record 'o heap =
  cells :: "nat \<Rightarrow> 'o option"
  next_addr :: nat
  calloc_fails :: "nat \<Rightarrow> bool"
  calloc_calls :: nat

definition calloc :: "'o \<Rightarrow> 'o heap \<Rightarrow> nat option \<times> 'o heap" where
  "calloc obj h =
     (if calloc_fails h (calloc_calls h) then (None, h\<lparr>calloc_calls := Suc (calloc_calls h)\<rparr>)
      else (Some (next_addr h),
            h\<lparr>cells := (cells h)(next_addr h \<mapsto> obj), next_addr := Suc (next_addr h),
              calloc_calls := Suc (calloc_calls h)\<rparr>))"

definition free :: "nat option \<Rightarrow> 'o heap \<Rightarrow> 'o heap option" where
  "free p h =
     (case p of None \<Rightarrow> Some h
      | Some a \<Rightarrow> (case cells h a of None \<Rightarrow> None
                    | Some _ \<Rightarrow> Some (h\<lparr>cells := (cells h)(a := None)\<rparr>)))"

definition store :: "nat \<Rightarrow> 'o \<Rightarrow> 'o heap \<Rightarrow> 'o heap" where
  "store a obj h = h\<lparr>cells := (cells h)(a \<mapsto> obj)\<rparr>"

definition heap_wf :: "'o heap \<Rightarrow> bool" where
  "heap_wf h \<longleftrightarrow> (\<forall>a \<ge> next_addr h. cells h a = None)"

text \<open>\<open>plist nxt p xs\<close>: following \<open>nxt\<close> from the pointer \<open>p\<close> visits exactly \<open>xs\<close> and ends in \<open>NULL\<close>.\<close>

fun plist :: "('a \<Rightarrow> 'a option) \<Rightarrow> 'a option \<Rightarrow> 'a list \<Rightarrow> bool" where
  "plist nxt p [] \<longleftrightarrow> p = None"
| "plist nxt p (x # xs) \<longleftrightarrow> p = Some x \<and> plist nxt (nxt x) xs"

subsection \<open>Allocation\<close>

lemma calloc_cases [case_names failed fresh]:
  obtains (failed) "calloc obj h = (None, h\<lparr>calloc_calls := Suc (calloc_calls h)\<rparr>)"
  | (fresh) "calloc obj h =
      (Some (next_addr h), h\<lparr>cells := (cells h)(next_addr h \<mapsto> obj), next_addr := Suc (next_addr h),
         calloc_calls := Suc (calloc_calls h)\<rparr>)"
  by (cases "calloc_fails h (calloc_calls h)") (auto simp: calloc_def)

lemma calloc_ok: "\<not> calloc_fails h (calloc_calls h) \<Longrightarrow>
    calloc obj h = (Some (next_addr h), h\<lparr>cells := (cells h)(next_addr h \<mapsto> obj),
      next_addr := Suc (next_addr h), calloc_calls := Suc (calloc_calls h)\<rparr>)"
  by (simp add: calloc_def)

lemma heap_wf_fresh: "heap_wf h \<Longrightarrow> next_addr h \<le> a \<Longrightarrow> cells h a = None"
  by (simp add: heap_wf_def)

lemma heap_wf_live: "heap_wf h \<Longrightarrow> cells h a = Some obj \<Longrightarrow> a < next_addr h"
  by (metis heap_wf_fresh linorder_not_le option.distinct(1))

lemma heap_wf_calloc [nova_inv]: "heap_wf h \<Longrightarrow> heap_wf (snd (calloc obj h))"
  by (auto simp: heap_wf_def calloc_def)

lemma heap_wf_store [nova_inv]: "heap_wf h \<Longrightarrow> cells h a \<noteq> None \<Longrightarrow> heap_wf (store a obj h)"
  by (auto simp: heap_wf_def store_def)

lemma heap_wf_free [nova_inv]: "heap_wf h \<Longrightarrow> free p h = Some h' \<Longrightarrow> heap_wf h'"
  by (auto simp: heap_wf_def free_def split: option.splits)

lemma free_NULL [simp]: "free None h = Some h"
  by (simp add: free_def)

lemma free_live: "cells h a = Some obj \<Longrightarrow> free (Some a) h = Some (h\<lparr>cells := (cells h)(a := None)\<rparr>)"
  by (simp add: free_def)

lemma cells_store [simp]: "cells (store a obj h) = (cells h)(a \<mapsto> obj)"
  "next_addr (store a obj h) = next_addr h"
  "calloc_fails (store a obj h) = calloc_fails h" "calloc_calls (store a obj h) = calloc_calls h"
  by (simp_all add: store_def)

subsection \<open>Linked lists\<close>

lemma plist_None [simp]: "plist nxt None xs \<longleftrightarrow> xs = []"
  by (cases xs) auto

lemma plist_Some: "plist nxt (Some x) xs \<longleftrightarrow> (\<exists>ys. xs = x # ys \<and> plist nxt (nxt x) ys)"
  by (cases xs) auto

lemma plist_unique: "plist nxt p xs \<Longrightarrow> plist nxt p ys \<Longrightarrow> xs = ys"
  by (induction xs arbitrary: p ys) (auto simp: plist_Some)

lemma plist_cong: "(\<And>x. x \<in> set xs \<Longrightarrow> nxt x = nxt' x) \<Longrightarrow> plist nxt p xs = plist nxt' p xs"
  by (induction xs arbitrary: p) auto

lemma plist_suffix: "plist nxt p (xs @ y # ys) \<Longrightarrow> plist nxt (Some y) (y # ys)"
  by (induction xs arbitrary: p) auto

text \<open>A list ends in \<open>NULL\<close>, so it cannot visit an address twice.\<close>

lemma plist_distinct: "plist nxt p xs \<Longrightarrow> distinct xs"
proof (induction xs arbitrary: p)
  case (Cons x xs)
  have "x \<notin> set xs"
  proof
    assume "x \<in> set xs"
    then obtain as bs where xs: "xs = as @ x # bs" by (auto simp: in_set_conv_decomp)
    have "plist nxt (Some x) (x # as @ x # bs)" using Cons.prems xs by simp
    moreover have "plist nxt (Some x) (x # bs)"
      using plist_suffix [of nxt p "x # as" x bs] Cons.prems xs by simp
    ultimately have "x # as @ x # bs = x # bs" by (rule plist_unique)
    then show False by (auto dest: arg_cong [where f = length])
  qed
  with Cons show ?case by auto
qed simp

text \<open>Unlinking the element after a prefix, and cutting the list at an element.\<close>

lemma plist_unlink:
  assumes "plist nxt p (xs @ x # y # ys)"
  shows "plist (nxt(x := nxt y, y := None)) p (xs @ x # ys)"
proof -
  define f where "f = nxt(x := nxt y, y := None)"
  have dist: "distinct (xs @ x # y # ys)" by (rule plist_distinct [OF assms])
  then have f: "f x = nxt y" "\<And>z. z \<in> set xs \<or> z \<in> set ys \<Longrightarrow> f z = nxt z"
    by (auto simp: f_def)
  have "plist nxt (nxt y) ys"
    using plist_suffix [of nxt p "xs @ [x]" y ys] assms by simp
  then have tail: "plist f (f x) ys" using f by (simp add: plist_cong [of ys f nxt])
  have "plist nxt q (zs @ x # y # ys) \<Longrightarrow> set zs \<subseteq> set xs \<Longrightarrow> plist f q (zs @ x # ys)" for q zs
    using tail f(2) by (induction zs arbitrary: q) auto
  with assms show ?thesis unfolding f_def by blast
qed

lemma plist_cut:
  assumes "plist nxt p (xs @ x # ys)"
  shows "plist (nxt(x := None)) p (xs @ [x])"
proof -
  have "x \<notin> set xs" using plist_distinct [OF assms] by simp
  with assms show ?thesis by (induction xs arbitrary: p) auto
qed

lemma plist_head_unlink:
  assumes "plist nxt (Some x) (x # ys)"
  shows "plist (nxt(x := None)) (nxt x) ys"
proof -
  have "x \<notin> set ys" using plist_distinct [OF assms] by simp
  with assms show ?thesis by (subst plist_cong [of _ _ nxt]) auto
qed

end
