(* ===== verification/Nova_Net.thy ===== *)
theory Nova_Net
  imports Nova_Heap Nova_Interfaces "HOL-Library.Monad_Syntax"
begin

unbundle bit_operations_syntax

text \<open>
  The device half of \<open>kernel/network\<close>: the types of \<open>network_stack.h\<close>, packet buffers, the loopback
  device (\<open>loopback.c\<close>), the NIC stub (\<open>nic_stub.c\<close>), transmission, and the netdev registry of
  \<open>network_stack.c\<close>.

  Device structures live in memory that the stack does not allocate: the static \<open>lo_dev\<close> and
  \<open>nic_dev\<close>, and the structures of further drivers, which callers own.  Packet buffers, their data
  blocks and sockets are heap blocks.  A function pointer is the name of the function it points
  to.  An operation returns \<open>None\<close> when it does not return normally: it reads or frees a dead
  block, or walks a cyclic device list for ever.
\<close>

subsection \<open>Types\<close>

datatype nova_af = NOVA_AF_UNSPEC | NOVA_AF_INET | NOVA_AF_INET6 | NOVA_AF_UNIX

datatype nova_sock_type = NOVA_SOCK_STREAM | NOVA_SOCK_DGRAM | NOVA_SOCK_RAW | NOVA_SOCK_SEQPACKET

abbreviation (input) NOVA_IFF_UP :: u32 where "NOVA_IFF_UP \<equiv> 0x1"
abbreviation (input) NOVA_IFF_LOOPBACK :: u32 where "NOVA_IFF_LOOPBACK \<equiv> 0x8"
abbreviation (input) NOVA_IFF_RUNNING :: u32 where "NOVA_IFF_RUNNING \<equiv> 0x40"

record nova_net_stats =
  rx_bytes :: u64
  rx_packets :: u64
  rx_errors :: u64
  rx_dropped :: u64
  tx_bytes :: u64
  tx_packets :: u64
  tx_errors :: u64
  tx_dropped :: u64

text \<open>The functions of the tree that can stand in a device's operation table, by signature; no
  function of the \<open>set_mac\<close> signature exists, so a non-null value there is an opaque address.  A
  device of a further driver is a structure whose hooks are among these or \<open>NULL\<close>: a hook that the
  tree does not contain has no counterpart.\<close>

datatype dev_fn = Lo_open | Lo_stop | Nic_open | Nic_stop
datatype xmit_fn = Lo_start_xmit | Nic_start_xmit
datatype stats_fn = Lo_get_stats | Nic_get_stats

record nova_net_device_ops =
  op_open :: "dev_fn option"
  op_stop :: "dev_fn option"
  op_start_xmit :: "xmit_fn option"
  op_set_mac :: "nat option"
  op_get_stats :: "stats_fn option"

text \<open>Addresses of device structures: the two static ones and those of other drivers.\<close>

datatype dev_addr = Lo_dev | Nic_dev | Other_dev nat

record nova_net_device =
  nd_name :: "char list"
  nd_mac :: "u8 list"
  nd_mtu :: u32
  nd_flags :: u32
  nd_family :: nova_af
  nd_ops :: "nova_net_device_ops option"
  nd_stats :: nova_net_stats
  nd_private_data :: "nat option"
  nd_next :: "dev_addr option"

record nova_sk_buff =
  skb_data :: "nat option"
  skb_len :: nat
  skb_headroom :: nat
  skb_tailroom :: nat
  skb_dev :: "dev_addr option"
  skb_hash :: u32
  skb_protocol :: u16
  skb_priority :: u8
  skb_error :: int

record nova_socket_t =
  sk_family :: nova_af
  sk_type :: nova_sock_type
  sk_protocol :: int
  sk_state :: int
  sk_flags :: int
  sk_ops :: "nat option"
  sk_private_data :: "nat option"
  sk_dev :: "dev_addr option"

datatype net_obj = Skb nova_sk_buff | Bytes "u8 list" | Sock nova_socket_t

text \<open>Memory and the static variables of \<open>network_stack.c\<close>.\<close>

record net_state =
  devices :: "dev_addr \<Rightarrow> nova_net_device"
  net_heap :: "net_obj heap"
  g_nova_netdev_registry :: "dev_addr option"
  g_socket_table :: "nat option list"
  g_next_socket_fd :: nat
  g_network_initialized :: bool

subsection \<open>Packet buffers\<close>

definition upd_dev :: "dev_addr \<Rightarrow> (nova_net_device \<Rightarrow> nova_net_device) \<Rightarrow> net_state \<Rightarrow> net_state" where
  "upd_dev d f s = s\<lparr>devices := (devices s)(d := f (devices s d))\<rparr>"

definition get_skb :: "nat \<Rightarrow> net_state \<Rightarrow> nova_sk_buff option" where
  "get_skb a s = (case cells (net_heap s) a of Some (Skb k) \<Rightarrow> Some k | _ \<Rightarrow> None)"

definition put_skb :: "nat \<Rightarrow> nova_sk_buff \<Rightarrow> net_state \<Rightarrow> net_state" where
  "put_skb a k s = s\<lparr>net_heap := store a (Skb k) (net_heap s)\<rparr>"

definition zero_skb :: nova_sk_buff where
  "zero_skb = \<lparr>skb_data = None, skb_len = 0, skb_headroom = 0, skb_tailroom = 0, skb_dev = None,
     skb_hash = 0, skb_protocol = 0, skb_priority = 0, skb_error = 0\<rparr>"

definition nova_alloc_skb :: "nat \<Rightarrow> net_state \<Rightarrow> (nat option \<times> net_state) option" where
  "nova_alloc_skb sz s =
     (case calloc (Skb zero_skb) (net_heap s) of
        (None, h1) \<Rightarrow> Some (None, s\<lparr>net_heap := h1\<rparr>)
      | (Some a, h1) \<Rightarrow>
          (case calloc (Bytes (replicate (if sz = 0 then 1 else sz) 0)) h1 of
             (None, h2) \<Rightarrow> do { h3 \<leftarrow> free (Some a) h2; Some (None, s\<lparr>net_heap := h3\<rparr>) }
           | (Some d, h2) \<Rightarrow>
               Some (Some a, put_skb a
                 \<lparr>skb_data = Some d, skb_len = sz, skb_headroom = 0, skb_tailroom = 0, skb_dev = None,
                  skb_hash = 0, skb_protocol = 0, skb_priority = 0, skb_error = 0\<rparr>
                 (s\<lparr>net_heap := h2\<rparr>))))"

definition nova_free_skb :: "nat option \<Rightarrow> net_state \<Rightarrow> net_state option" where
  "nova_free_skb skb s =
     (case skb of None \<Rightarrow> Some s
      | Some a \<Rightarrow> do {
          k \<leftarrow> get_skb a s;
          h1 \<leftarrow> free (skb_data k) (net_heap s);
          h2 \<leftarrow> free (Some a) h1;
          Some (s\<lparr>net_heap := h2\<rparr>) })"

definition count_rx :: "nat \<Rightarrow> nova_net_device \<Rightarrow> nova_net_device" where
  "count_rx len d = d\<lparr>nd_stats := (nd_stats d)
     \<lparr>rx_packets := rx_packets (nd_stats d) + 1, rx_bytes := rx_bytes (nd_stats d) + of_nat len\<rparr>\<rparr>"

definition count_tx :: "nat \<Rightarrow> nova_net_device \<Rightarrow> nova_net_device" where
  "count_tx len d = d\<lparr>nd_stats := (nd_stats d)
     \<lparr>tx_packets := tx_packets (nd_stats d) + 1, tx_bytes := tx_bytes (nd_stats d) + of_nat len\<rparr>\<rparr>"

definition nova_netif_receive_skb :: "nat option \<Rightarrow> net_state \<Rightarrow> (int \<times> net_state) option" where
  "nova_netif_receive_skb skb s =
     (case skb of None \<Rightarrow> Some (-1, s)
      | Some a \<Rightarrow> do {
          k \<leftarrow> get_skb a s;
          let s1 = (case skb_dev k of None \<Rightarrow> s | Some d \<Rightarrow> upd_dev d (count_rx (skb_len k)) s);
          Some (0, put_skb a (k\<lparr>skb_error := 0\<rparr>) s1) })"

subsection \<open>The loopback device and the NIC stub\<close>

definition lo_open :: "dev_addr \<Rightarrow> net_state \<Rightarrow> int \<times> net_state" where
  "lo_open dev s =
     (0, upd_dev dev (\<lambda>d. d\<lparr>nd_flags := nd_flags d OR (NOVA_IFF_RUNNING OR NOVA_IFF_LOOPBACK)\<rparr>) s)"

definition lo_stop :: "dev_addr \<Rightarrow> net_state \<Rightarrow> int \<times> net_state" where
  "lo_stop dev s = (0, upd_dev dev (\<lambda>d. d\<lparr>nd_flags := nd_flags d AND NOT NOVA_IFF_RUNNING\<rparr>) s)"

definition lo_start_xmit :: "dev_addr \<Rightarrow> nat option \<Rightarrow> net_state \<Rightarrow> (int \<times> net_state) option" where
  "lo_start_xmit dev skb s =
     (case skb of None \<Rightarrow> Some (-1, s)
      | Some a \<Rightarrow> do {
          k \<leftarrow> get_skb a s;
          let s1 = upd_dev dev (count_tx (skb_len k)) s;
          let s2 = upd_dev dev (count_rx (skb_len k)) s1;
          (r, s3) \<leftarrow> nova_netif_receive_skb (Some a) s2;
          Some (0, s3) })"

definition lo_get_stats ::
  "dev_addr option \<Rightarrow> nova_net_stats option \<Rightarrow> net_state \<Rightarrow> int \<times> nova_net_stats option" where
  "lo_get_stats dev stats s =
     (case (dev, stats) of
        (Some d, Some _) \<Rightarrow> (0, Some (nd_stats (devices s d)))
      | _ \<Rightarrow> (-1, stats))"

definition lo_ops :: nova_net_device_ops where
  "lo_ops = \<lparr>op_open = Some Lo_open, op_stop = Some Lo_stop, op_start_xmit = Some Lo_start_xmit,
     op_set_mac = None, op_get_stats = Some Lo_get_stats\<rparr>"

definition nic_open :: "dev_addr \<Rightarrow> net_state \<Rightarrow> int \<times> net_state" where
  "nic_open dev s = (0, upd_dev dev (\<lambda>d. d\<lparr>nd_flags := nd_flags d OR NOVA_IFF_RUNNING\<rparr>) s)"

definition nic_stop :: "dev_addr \<Rightarrow> net_state \<Rightarrow> int \<times> net_state" where
  "nic_stop dev s = (0, upd_dev dev (\<lambda>d. d\<lparr>nd_flags := nd_flags d AND NOT NOVA_IFF_RUNNING\<rparr>) s)"

definition nic_start_xmit ::
  "dev_addr option \<Rightarrow> nat option \<Rightarrow> net_state \<Rightarrow> (int \<times> net_state) option" where
  "nic_start_xmit dev skb s =
     (case (dev, skb) of
        (Some d, Some a) \<Rightarrow> do {
          k \<leftarrow> get_skb a s;
          let s1 = upd_dev d (count_tx (skb_len k)) s;
          s2 \<leftarrow> nova_free_skb (Some a) s1;
          Some (0, s2) }
      | _ \<Rightarrow> Some (-1, s))"

definition nic_get_stats ::
  "dev_addr option \<Rightarrow> nova_net_stats option \<Rightarrow> net_state \<Rightarrow> int \<times> nova_net_stats option" where
  "nic_get_stats dev stats s =
     (case (dev, stats) of
        (Some d, Some _) \<Rightarrow> (0, Some (nd_stats (devices s d)))
      | _ \<Rightarrow> (-1, stats))"

definition nic_ops :: nova_net_device_ops where
  "nic_ops = \<lparr>op_open = Some Nic_open, op_stop = Some Nic_stop, op_start_xmit = Some Nic_start_xmit,
     op_set_mac = None, op_get_stats = Some Nic_get_stats\<rparr>"

text \<open>Calls through the operation table.\<close>

fun call_dev_fn :: "dev_fn \<Rightarrow> dev_addr \<Rightarrow> net_state \<Rightarrow> int \<times> net_state" where
  "call_dev_fn Lo_open d s = lo_open d s"
| "call_dev_fn Lo_stop d s = lo_stop d s"
| "call_dev_fn Nic_open d s = nic_open d s"
| "call_dev_fn Nic_stop d s = nic_stop d s"

fun call_xmit_fn :: "xmit_fn \<Rightarrow> dev_addr \<Rightarrow> nat option \<Rightarrow> net_state \<Rightarrow> (int \<times> net_state) option" where
  "call_xmit_fn Lo_start_xmit d skb s = lo_start_xmit d skb s"
| "call_xmit_fn Nic_start_xmit d skb s = nic_start_xmit (Some d) skb s"

text \<open>The transmit hook of a device, \<open>None\<close> when the table or the entry is \<open>NULL\<close>.\<close>

definition xmit_hook :: "dev_addr \<Rightarrow> net_state \<Rightarrow> xmit_fn option" where
  "xmit_hook d s = (case nd_ops (devices s d) of None \<Rightarrow> None | Some ops \<Rightarrow> op_start_xmit ops)"

definition nova_dev_queue_xmit :: "nat option \<Rightarrow> net_state \<Rightarrow> (int \<times> net_state) option" where
  "nova_dev_queue_xmit skb s =
     (case skb of None \<Rightarrow> Some (-1, s)
      | Some a \<Rightarrow> do {
          k \<leftarrow> get_skb a s;
          (case skb_dev k of None \<Rightarrow> Some (-1, s)
           | Some d \<Rightarrow>
               (case xmit_hook d s of None \<Rightarrow> Some (-1, s)
                | Some f \<Rightarrow> call_xmit_fn f d (Some a) s)) })"

subsection \<open>The netdev registry\<close>

text \<open>The walk over the registry that compares names: the first device with the name.  Names are
  compared as the strings that their 16 bytes hold; the code relies on a terminator there, and what
  \<open>strcmp\<close> reads beyond a name without one is not modelled.\<close>

partial_function (option) find_loop ::
  "(dev_addr \<Rightarrow> nova_net_device) \<Rightarrow> string \<Rightarrow> dev_addr option \<Rightarrow> dev_addr option option" where
  "find_loop devs name p =
     (case p of None \<Rightarrow> Some None
      | Some d \<Rightarrow> if cstr (nd_name (devs d)) = name then Some (Some d)
                  else find_loop devs name (nd_next (devs d)))"

definition nova_netdev_find :: "string option \<Rightarrow> net_state \<Rightarrow> dev_addr option option" where
  "nova_netdev_find name s =
     (case name of None \<Rightarrow> Some None
      | Some n \<Rightarrow> find_loop (devices s) n (g_nova_netdev_registry s))"

definition nova_netdev_register :: "dev_addr option \<Rightarrow> net_state \<Rightarrow> (int \<times> net_state) option" where
  "nova_netdev_register dev s =
     (case dev of None \<Rightarrow> Some (-1, s)
      | Some d \<Rightarrow>
          if nd_name (devices s d) ! 0 = NUL then Some (-1, s)
          else do {
            cur \<leftarrow> find_loop (devices s) (cstr (nd_name (devices s d))) (g_nova_netdev_registry s);
            (case cur of
               Some _ \<Rightarrow> Some (-1, s)
             | None \<Rightarrow>
                 let s1 = upd_dev d (\<lambda>x. x\<lparr>nd_next := g_nova_netdev_registry s\<rparr>) s;
                     s2 = s1\<lparr>g_nova_netdev_registry := Some d\<rparr>
                 in (case nd_ops (devices s2 d) of
                       None \<Rightarrow> Some (0, s2)
                     | Some ops \<Rightarrow>
                         (case op_open ops of None \<Rightarrow> Some (0, s2)
                          | Some f \<Rightarrow> Some (0, snd (call_dev_fn f d s2))))) })"

text \<open>The unlinking walk, with the C variables \<open>prev\<close> and \<open>curr\<close> (here \<open>cur\<close>).\<close>

partial_function (option) unregister_loop ::
  "dev_addr \<Rightarrow> dev_addr option \<Rightarrow> dev_addr option \<Rightarrow> net_state \<Rightarrow> (int \<times> net_state) option" where
  "unregister_loop dev prev cur s =
     (case cur of None \<Rightarrow> Some (-1, s)
      | Some c \<Rightarrow>
          if c = dev then
            (let nxt = nd_next (devices s c);
                 s1 = (case prev of
                         None \<Rightarrow> s\<lparr>g_nova_netdev_registry := nxt\<rparr>
                       | Some p \<Rightarrow> upd_dev p (\<lambda>x. x\<lparr>nd_next := nxt\<rparr>) s)
             in Some (0, upd_dev c (\<lambda>x. x\<lparr>nd_next := None\<rparr>) s1))
          else unregister_loop dev (Some c) (nd_next (devices s c)) s)"

definition nova_netdev_unregister :: "dev_addr option \<Rightarrow> net_state \<Rightarrow> (int \<times> net_state) option" where
  "nova_netdev_unregister dev s =
     (case dev of None \<Rightarrow> Some (-1, s)
      | Some d \<Rightarrow> unregister_loop d None (g_nova_netdev_registry s) s)"

subsection \<open>Start-up and shut-down\<close>

definition nova_network_init :: "net_state \<Rightarrow> int \<times> net_state" where
  "nova_network_init s =
     (0, s\<lparr>g_socket_table := replicate 64 None, g_next_socket_fd := 1,
           g_network_initialized := True, g_nova_netdev_registry := None\<rparr>)"

partial_function (option) shutdown_loop ::
  "(dev_addr \<Rightarrow> nova_net_device) \<Rightarrow> dev_addr option \<Rightarrow> (dev_addr \<Rightarrow> nova_net_device) option" where
  "shutdown_loop devs p =
     (case p of None \<Rightarrow> Some devs
      | Some d \<Rightarrow> shutdown_loop (devs(d := (devs d)\<lparr>nd_next := None\<rparr>)) (nd_next (devs d)))"

definition nova_network_shutdown :: "net_state \<Rightarrow> (int \<times> net_state) option" where
  "nova_network_shutdown s = do {
     devs \<leftarrow> shutdown_loop (devices s) (g_nova_netdev_registry s);
     Some (0, s\<lparr>devices := devs, g_nova_netdev_registry := None, g_network_initialized := False\<rparr>) }"

definition zero_stats :: nova_net_stats where
  "zero_stats = \<lparr>rx_bytes = 0, rx_packets = 0, rx_errors = 0, rx_dropped = 0,
     tx_bytes = 0, tx_packets = 0, tx_errors = 0, tx_dropped = 0\<rparr>"

definition zero_netdev :: nova_net_device where
  "zero_netdev = \<lparr>nd_name = replicate 16 NUL, nd_mac = replicate 6 0, nd_mtu = 0, nd_flags = 0,
     nd_family = NOVA_AF_UNSPEC, nd_ops = None, nd_stats = zero_stats, nd_private_data = None,
     nd_next = None\<rparr>"

definition nova_loopback_init :: "net_state \<Rightarrow> (int \<times> net_state) option" where
  "nova_loopback_init s =
     nova_netdev_register (Some Lo_dev)
       (upd_dev Lo_dev (\<lambda>_. zero_netdev\<lparr>nd_name := strncpy (nd_name zero_netdev) ''lo'' (16 - 1),
          nd_mtu := 65536, nd_flags := NOVA_IFF_LOOPBACK OR NOVA_IFF_UP, nd_ops := Some lo_ops\<rparr>) s)"

definition nova_nic_stub_init :: "net_state \<Rightarrow> (int \<times> net_state) option" where
  "nova_nic_stub_init s =
     nova_netdev_register (Some Nic_dev)
       (upd_dev Nic_dev (\<lambda>_. zero_netdev\<lparr>nd_name := strncpy (nd_name zero_netdev) ''nic0'' (16 - 1),
          nd_mtu := 1500, nd_flags := NOVA_IFF_UP OR NOVA_IFF_RUNNING,
          nd_mac := [0x02, 0x00, 0x00, 0x00, 0x00, 0x01], nd_ops := Some nic_ops\<rparr>) s)"

declare find_loop.simps [code] unregister_loop.simps [code] shutdown_loop.simps [code]

subsection \<open>Specification vocabulary\<close>

abbreviation nexts :: "(dev_addr \<Rightarrow> nova_net_device) \<Rightarrow> dev_addr \<Rightarrow> dev_addr option" where
  "nexts devs \<equiv> \<lambda>d. nd_next (devs d)"

abbreviation dev_name :: "net_state \<Rightarrow> dev_addr \<Rightarrow> string" where
  "dev_name s d \<equiv> cstr (nd_name (devices s d))"

text \<open>The registry holds exactly the devices \<open>xs\<close>, most recently registered first.\<close>

definition registered :: "net_state \<Rightarrow> dev_addr list \<Rightarrow> bool" where
  "registered s xs \<longleftrightarrow> plist (nexts (devices s)) (g_nova_netdev_registry s) xs"

text \<open>Nothing differs between two states but the links of the device list.\<close>

definition same_but_links :: "net_state \<Rightarrow> net_state \<Rightarrow> bool" where
  "same_but_links s t \<longleftrightarrow> net_heap t = net_heap s \<and> g_socket_table t = g_socket_table s \<and>
     g_next_socket_fd t = g_next_socket_fd s \<and> g_network_initialized t = g_network_initialized s \<and>
     (\<forall>d. devices t d = (devices s d)\<lparr>nd_next := nd_next (devices t d)\<rparr>)"

text \<open>The registry invariant: a finite list of devices with different names, in which the two static
  devices go by their own names.\<close>

definition own_name :: "dev_addr \<Rightarrow> string \<Rightarrow> bool" where
  "own_name d n \<longleftrightarrow> (d = Lo_dev \<longrightarrow> n = ''lo'') \<and> (d = Nic_dev \<longrightarrow> n = ''nic0'')"

definition netdev_wf :: "net_state \<Rightarrow> bool" where
  "netdev_wf s \<longleftrightarrow>
     (\<exists>xs. registered s xs \<and> inj_on (dev_name s) (set xs) \<and> (\<forall>d \<in> set xs. own_name d (dev_name s d))) \<and>
     (\<forall>d. nd_name (devices s d) ! 0 \<noteq> NUL \<longrightarrow> own_name d (dev_name s d))"

subsection \<open>Walks over the registry\<close>

lemma find_loop_plist:
  "plist (nexts devs) p xs \<Longrightarrow> find_loop devs n p = Some (find (\<lambda>d. cstr (nd_name (devs d)) = n) xs)"
  by (induction xs arbitrary: p) (simp_all add: find_loop.simps)

lemma netdev_find_registered:
  "registered s xs \<Longrightarrow> nova_netdev_find (Some n) s = Some (find (\<lambda>d. dev_name s d = n) xs)"
  by (simp add: registered_def nova_netdev_find_def find_loop_plist)

lemma find_by_name:
  "inj_on f (set xs) \<Longrightarrow> d \<in> set xs \<Longrightarrow> find (\<lambda>x. f x = f d) xs = Some d"
  by (induction xs) (auto simp: inj_on_def)

lemma upd_dev_sel [simp]:
  "devices (upd_dev d f s) = (devices s)(d := f (devices s d))"
  "net_heap (upd_dev d f s) = net_heap s"
  "g_nova_netdev_registry (upd_dev d f s) = g_nova_netdev_registry s"
  "g_socket_table (upd_dev d f s) = g_socket_table s"
  "g_next_socket_fd (upd_dev d f s) = g_next_socket_fd s"
  "g_network_initialized (upd_dev d f s) = g_network_initialized s"
  by (simp_all add: upd_dev_def)

text \<open>\<open>open\<close> and \<open>stop\<close> hooks touch the flags of their device only.\<close>

lemma call_dev_fn_effect:
  obtains fl where "call_dev_fn f d s = (0, upd_dev d (\<lambda>x. x\<lparr>nd_flags := fl\<rparr>) s)"
  by (cases f) (auto simp: lo_open_def lo_stop_def nic_open_def nic_stop_def upd_dev_def)

lemma register_cases [consumes 1, case_names refused added]:
  assumes reg: "registered s xs"
  obtains (refused) "nd_name (devices s d) ! 0 = NUL \<or> dev_name s d \<in> dev_name s ` set xs"
      "nova_netdev_register (Some d) s = Some (-1, s)"
  | (added) fl where "nd_name (devices s d) ! 0 \<noteq> NUL" "dev_name s d \<notin> dev_name s ` set xs"
      "nova_netdev_register (Some d) s =
         Some (0, (upd_dev d (\<lambda>x. x\<lparr>nd_next := g_nova_netdev_registry s, nd_flags := fl\<rparr>) s)
                    \<lparr>g_nova_netdev_registry := Some d\<rparr>)"
proof (cases "nd_name (devices s d) ! 0 = NUL")
  case True
  with refused show ?thesis by (simp add: nova_netdev_register_def)
next
  case False
  have walk: "find_loop (devices s) (dev_name s d) (g_nova_netdev_registry s) =
      Some (find (\<lambda>x. dev_name s x = dev_name s d) xs)"
    using reg by (simp add: registered_def find_loop_plist)
  show ?thesis
  proof (cases "find (\<lambda>x. dev_name s x = dev_name s d) xs")
    case nofind: None
    then have new: "dev_name s d \<notin> dev_name s ` set xs" by (auto simp: find_None_iff)
    let ?s1 = "(upd_dev d (\<lambda>x. x\<lparr>nd_next := g_nova_netdev_registry s\<rparr>) s)\<lparr>g_nova_netdev_registry := Some d\<rparr>"
    have "\<exists>fl. nova_netdev_register (Some d) s = Some (0, upd_dev d (\<lambda>x. x\<lparr>nd_flags := fl\<rparr>) ?s1)"
    proof (cases "case nd_ops (devices s d) of None \<Rightarrow> None | Some ops \<Rightarrow> op_open ops")
      case None
      have "upd_dev d (\<lambda>x. x\<lparr>nd_flags := nd_flags (devices ?s1 d)\<rparr>) ?s1 = ?s1"
        by (simp add: upd_dev_def)
      moreover have "nova_netdev_register (Some d) s = Some (0, ?s1)"
        using False walk nofind None
        by (simp add: nova_netdev_register_def Let_def split: option.splits)
      ultimately show ?thesis by metis
    next
      case (Some f)
      obtain fl where "call_dev_fn f d ?s1 = (0, upd_dev d (\<lambda>x. x\<lparr>nd_flags := fl\<rparr>) ?s1)"
        by (rule call_dev_fn_effect)
      then show ?thesis
        using False walk nofind Some
        by (auto simp: nova_netdev_register_def Let_def split: option.splits)
    qed
    then obtain fl where "nova_netdev_register (Some d) s = Some (0, upd_dev d (\<lambda>x. x\<lparr>nd_flags := fl\<rparr>) ?s1)" ..
    with False new added [of fl] show ?thesis by (simp add: upd_dev_def)
  next
    case (Some x)
    then obtain i where "i < length xs" "x = xs ! i" "dev_name s x = dev_name s d"
      by (auto simp: find_Some_iff)
    then have "dev_name s d \<in> dev_name s ` set xs"
      by (intro image_eqI [of _ _ x]) simp_all
    with refused False walk Some show ?thesis by (simp add: nova_netdev_register_def)
  qed
qed

lemma same_but_links_name: "same_but_links s t \<Longrightarrow> nd_name (devices t d) = nd_name (devices s d)"
proof -
  assume "same_but_links s t"
  then have "devices t d = (devices s d)\<lparr>nd_next := nd_next (devices t d)\<rparr>"
    unfolding same_but_links_def by blast
  then have "nd_name (devices t d) = nd_name ((devices s d)\<lparr>nd_next := nd_next (devices t d)\<rparr>)"
    by (rule arg_cong)
  then show ?thesis by simp
qed

lemma unregister_loop_found:
  "registered s (ds @ dev # zs) \<Longrightarrow>
     \<exists>s'. unregister_loop dev (if ds = [] then None else Some (last ds)) (Some dev) s = Some (0, s') \<and>
       registered s' (ds @ zs) \<and> nd_next (devices s' dev) = None \<and> same_but_links s s'"
proof (cases ds rule: rev_cases)
  case Nil
  assume reg: "registered s (ds @ dev # zs)"
  let ?s' = "upd_dev dev (\<lambda>x. x\<lparr>nd_next := None\<rparr>) (s\<lparr>g_nova_netdev_registry := nd_next (devices s dev)\<rparr>)"
  have "nexts (devices ?s') = (nexts (devices s))(dev := None)" by (simp add: fun_eq_iff)
  then have "registered ?s' zs"
    using reg Nil plist_head_unlink [of "nexts (devices s)" dev zs] by (simp add: registered_def)
  then show ?thesis
    using Nil by (simp add: unregister_loop.simps same_but_links_def)
next
  case (snoc ys p)
  assume reg: "registered s (ds @ dev # zs)"
  let ?s' = "upd_dev dev (\<lambda>x. x\<lparr>nd_next := None\<rparr>) (upd_dev p (\<lambda>x. x\<lparr>nd_next := nd_next (devices s dev)\<rparr>) s)"
  have "p \<noteq> dev" using plist_distinct reg snoc unfolding registered_def by fastforce
  then have "nexts (devices ?s') = (nexts (devices s))(p := nexts (devices s) dev, dev := None)"
    by (simp add: fun_eq_iff)
  moreover have "plist (nexts (devices s)) (g_nova_netdev_registry s) (ys @ p # dev # zs)"
    using reg snoc by (simp add: registered_def)
  ultimately have "registered ?s' (ds @ zs)"
    using plist_unlink [of "nexts (devices s)" _ ys p dev zs] snoc by (simp add: registered_def)
  then show ?thesis
    using snoc by (simp add: unregister_loop.simps same_but_links_def)
qed

lemma unregister_loop_spec:
  "registered s (ds @ zs) \<Longrightarrow> dev \<notin> set ds \<Longrightarrow> plist (nexts (devices s)) cur zs \<Longrightarrow>
     (if dev \<in> set zs then
        \<exists>s'. unregister_loop dev (if ds = [] then None else Some (last ds)) cur s = Some (0, s') \<and>
          registered s' (ds @ filter (\<lambda>d. d \<noteq> dev) zs) \<and> nd_next (devices s' dev) = None \<and>
          same_but_links s s'
      else unregister_loop dev (if ds = [] then None else Some (last ds)) cur s = Some (-1, s))"
proof (induction zs arbitrary: ds cur)
  case Nil
  then show ?case by (simp add: unregister_loop.simps)
next
  case (Cons z zs)
  have cur: "cur = Some z" "plist (nexts (devices s)) (nd_next (devices s z)) zs"
    using Cons.prems(3) by auto
  show ?case
  proof (cases "z = dev")
    case True
    have "dev \<notin> set zs"
      using plist_distinct [OF Cons.prems(3)] True by simp
    then have "filter (\<lambda>d. d \<noteq> dev) zs = zs" by (auto simp: filter_id_conv)
    with unregister_loop_found [of s ds dev zs] Cons.prems(1) True cur show ?thesis by simp
  next
    case False
    have step: "unregister_loop dev prev cur s = unregister_loop dev (Some z) (nd_next (devices s z)) s"
      for prev using cur False by (subst unregister_loop.simps) simp
    have "registered s ((ds @ [z]) @ zs)" "dev \<notin> set (ds @ [z])"
      using Cons.prems False by simp_all
    from Cons.IH [OF this cur(2)] False show ?thesis
      unfolding step by (cases "dev \<in> set zs") simp_all
  qed
qed

lemma shutdown_loop_spec:
  "plist (nexts devs) p xs \<Longrightarrow>
     shutdown_loop devs p = Some (\<lambda>d. if d \<in> set xs then (devs d)\<lparr>nd_next := None\<rparr> else devs d)"
proof (induction xs arbitrary: devs p)
  case Nil
  then show ?case by (simp add: shutdown_loop.simps)
next
  case (Cons x xs)
  let ?devs = "devs(x := (devs x)\<lparr>nd_next := None\<rparr>)"
  have "x \<notin> set xs" using plist_distinct [OF Cons.prems] by simp
  have "nexts ?devs = (nexts devs)(x := None)" by (simp add: fun_eq_iff)
  then have "plist (nexts ?devs) (nd_next (devs x)) xs"
    using plist_head_unlink [of "nexts devs" x xs] Cons.prems by simp
  note rest = Cons.IH [OF this]
  have same: "(\<lambda>d. if d \<in> set xs then (?devs d)\<lparr>nd_next := None\<rparr> else ?devs d) =
      (\<lambda>d. if d \<in> set (x # xs) then (devs d)\<lparr>nd_next := None\<rparr> else devs d)"
    by (simp add: fun_eq_iff)
  have "shutdown_loop devs p = shutdown_loop ?devs (nd_next (devs x))"
    using Cons.prems by (subst shutdown_loop.simps) simp
  then show ?case unfolding rest same .
qed

subsection \<open>Re-initialising a static device\<close>

text \<open>
  \<open>nova_loopback_init\<close> and \<open>nova_nic_stub_init\<close> first clear the whole structure, the link to the
  next device included, and only then find that the name is taken.
\<close>

lemma reinit_cuts:
  assumes reg: "registered s (xs @ d # ys)" and name: "dev_name (upd_dev d (\<lambda>_. nd) s) d = dev_name s d"
    and null: "nd_next nd = None"
  shows "nova_netdev_register (Some d) (upd_dev d (\<lambda>_. nd) s) = Some (-1, upd_dev d (\<lambda>_. nd) s) \<and>
         registered (upd_dev d (\<lambda>_. nd) s) (xs @ [d])"
proof -
  let ?s = "upd_dev d (\<lambda>_. nd) s"
  have "nexts (devices ?s) = (nexts (devices s))(d := None)" using null by (simp add: fun_eq_iff)
  then have reg': "registered ?s (xs @ [d])"
    using reg plist_cut [of "nexts (devices s)" _ xs d ys] by (simp add: registered_def)
  moreover from reg' have "nova_netdev_register (Some d) ?s = Some (-1, ?s)"
    by (cases rule: register_cases [of _ _ d]) auto
  ultimately show ?thesis by simp
qed

subsection \<open>Properties of the registry\<close>

lemma registered_new_head:
  assumes reg: "registered s xs" and d: "d \<notin> set xs" and link: "nd_next (f (devices s d)) = g_nova_netdev_registry s"
  shows "registered ((upd_dev d f s)\<lparr>g_nova_netdev_registry := Some d\<rparr>) (d # xs)"
proof -
  have "plist (nexts ((devices s)(d := f (devices s d)))) (g_nova_netdev_registry s) xs"
    using reg d by (subst plist_cong [of _ _ "nexts (devices s)"]) (auto simp: registered_def)
  then show ?thesis using link by (simp add: registered_def)
qed

text \<open>
  Claim C26. \<open>nova_netdev_register\<close> on a registry that holds the devices \<open>xs\<close>: a device with an empty
  name, or with the name of a registered device, is refused with -1 and nothing changes; any other
  device becomes the head of the registry, is what a lookup of its name returns, and neither the
  lookup of another name, nor another device, nor the heap or the socket table is affected.
\<close>
theorem netdev_register_spec:
  assumes "registered s xs"
  shows "if nd_name (devices s d) ! 0 = NUL \<or> dev_name s d \<in> dev_name s ` set xs
    then nova_netdev_register (Some d) s = Some (-1, s)
    else \<exists>s'. nova_netdev_register (Some d) s = Some (0, s') \<and> registered s' (d # xs) \<and>
      nova_netdev_find (Some (dev_name s d)) s' = Some (Some d) \<and>
      (\<forall>n. n \<noteq> dev_name s d \<longrightarrow> nova_netdev_find (Some n) s' = nova_netdev_find (Some n) s) \<and>
      (\<forall>x. x \<noteq> d \<longrightarrow> devices s' x = devices s x) \<and>
      net_heap s' = net_heap s \<and> g_socket_table s' = g_socket_table s"
  using assms
proof (cases rule: register_cases [of s xs d])
  case refused
  then show ?thesis by simp
next
  case (added fl)
  let ?f = "\<lambda>x. x\<lparr>nd_next := g_nova_netdev_registry s, nd_flags := fl\<rparr>"
  let ?s' = "(upd_dev d ?f s)\<lparr>g_nova_netdev_registry := Some d\<rparr>"
  have "d \<notin> set xs" using added(2) by auto
  then have reg': "registered ?s' (d # xs)" using registered_new_head [OF assms, of d ?f] by simp
  have name: "dev_name ?s' x = dev_name s x" for x by simp
  have look: "nova_netdev_find (Some n) ?s' = Some (find (\<lambda>x. dev_name s x = n) (d # xs))" for n
    using netdev_find_registered [OF reg', of n] unfolding name .
  have "nova_netdev_find (Some (dev_name s d)) ?s' = Some (Some d)" unfolding look by simp
  moreover have "nova_netdev_find (Some n) ?s' = nova_netdev_find (Some n) s" if "n \<noteq> dev_name s d" for n
    unfolding look netdev_find_registered [OF assms] using that by simp
  ultimately show ?thesis using added reg' by simp
qed

text \<open>
  \<open>nova_netdev_unregister\<close> on a registry that holds \<open>xs\<close>: a registered device is taken out
  of the list wherever it stands, its link is cleared, the order of the others is kept and nothing
  but links changes; a device that is not registered is refused with -1 and nothing changes.
\<close>
lemma netdev_unregister_spec:
  assumes "registered s xs"
  shows "if d \<in> set xs
    then \<exists>s'. nova_netdev_unregister (Some d) s = Some (0, s') \<and>
      registered s' (filter (\<lambda>x. x \<noteq> d) xs) \<and> nd_next (devices s' d) = None \<and> same_but_links s s'
    else nova_netdev_unregister (Some d) s = Some (-1, s)"
  using unregister_loop_spec [of s "[]" xs d] assms
  by (cases "d \<in> set xs") (simp_all add: nova_netdev_unregister_def registered_def)

text \<open>The two static devices once they are registered, \<open>nic0\<close> on top of \<open>lo\<close>.\<close>

definition lo_netdev :: nova_net_device where
  "lo_netdev = zero_netdev\<lparr>nd_name := strncpy (nd_name zero_netdev) ''lo'' (16 - 1), nd_mtu := 65536,
     nd_flags := NOVA_IFF_LOOPBACK OR NOVA_IFF_UP OR NOVA_IFF_RUNNING, nd_ops := Some lo_ops, nd_next := None\<rparr>"

definition nic_netdev :: nova_net_device where
  "nic_netdev = zero_netdev\<lparr>nd_name := strncpy (nd_name zero_netdev) ''nic0'' (16 - 1), nd_mtu := 1500,
     nd_flags := NOVA_IFF_UP OR NOVA_IFF_RUNNING, nd_mac := [0x02, 0x00, 0x00, 0x00, 0x00, 0x01],
     nd_ops := Some nic_ops, nd_next := Some Lo_dev\<rparr>"

lemma static_names [simp]: "cstr (nd_name lo_netdev) = ''lo''" "cstr (nd_name nic_netdev) = ''nic0''"
  by code_simp+

lemma static_sel [simp]:
  "nd_next lo_netdev = None" "nd_next nic_netdev = Some Lo_dev" "nd_mtu lo_netdev = 65536" "nd_mtu nic_netdev = 1500"
  "nd_flags lo_netdev = NOVA_IFF_UP OR NOVA_IFF_LOOPBACK OR NOVA_IFF_RUNNING"
  "nd_flags nic_netdev = NOVA_IFF_UP OR NOVA_IFF_RUNNING" "nd_ops lo_netdev = Some lo_ops" "nd_ops nic_netdev = Some nic_ops"
  "nd_stats lo_netdev = zero_stats" "nd_stats nic_netdev = zero_stats"
  by (simp_all add: lo_netdev_def nic_netdev_def zero_netdev_def)

lemma loopback_up:
  assumes "registered s []"
  shows "nova_loopback_init s =
    Some (0, (upd_dev Lo_dev (\<lambda>_. lo_netdev) s)\<lparr>g_nova_netdev_registry := Some Lo_dev\<rparr>)"
proof -
  have "strncpy (replicate 16 NUL) ''lo'' 15 ! 0 \<noteq> NUL" by code_simp
  then show ?thesis
    using assms by (simp add: registered_def nova_loopback_init_def nova_netdev_register_def find_loop.simps
        zero_netdev_def lo_netdev_def lo_ops_def lo_open_def upd_dev_def Let_def)
qed

lemma nic_up:
  assumes "registered s [Lo_dev]" "dev_name s Lo_dev = ''lo''"
  shows "nova_nic_stub_init s =
    Some (0, (upd_dev Nic_dev (\<lambda>_. nic_netdev) s)\<lparr>g_nova_netdev_registry := Some Nic_dev\<rparr>)"
proof -
  have "cstr (strncpy (replicate 16 NUL) ''nic0'' 15) = ''nic0''"
    "strncpy (replicate 16 NUL) ''nic0'' 15 ! 0 \<noteq> NUL" by code_simp+
  then show ?thesis
    using assms by (simp add: registered_def nova_nic_stub_init_def nova_netdev_register_def find_loop.simps
        zero_netdev_def nic_netdev_def nic_ops_def nic_open_def upd_dev_def Let_def)
qed

text \<open>
  Bringing the stack up: after \<open>nova_network_init\<close>, \<open>nova_loopback_init\<close> and
  \<open>nova_nic_stub_init\<close>, from any state whatever, both registrations succeed, the registry holds exactly
  \<open>nic0\<close> and \<open>lo\<close> with their addresses, MTUs and transmit hooks, both are up and running, both can be
  found by name and no other name can.
\<close>
lemma network_bootstrap:
  "\<exists>s1 s2. nova_loopback_init (snd (nova_network_init s)) = Some (0, s1) \<and>
     nova_nic_stub_init s1 = Some (0, s2) \<and> registered s2 [Nic_dev, Lo_dev] \<and>
     (\<forall>n. nova_netdev_find (Some n) s2 =
        Some (if n = ''nic0'' then Some Nic_dev else if n = ''lo'' then Some Lo_dev else None)) \<and>
     devices s2 = (devices s)(Lo_dev := lo_netdev, Nic_dev := nic_netdev) \<and>
     xmit_hook Lo_dev s2 = Some Lo_start_xmit \<and> xmit_hook Nic_dev s2 = Some Nic_start_xmit \<and>
     g_network_initialized s2 \<and> g_socket_table s2 = replicate 64 None \<and> g_next_socket_fd s2 = 1 \<and>
     net_heap s2 = net_heap s"
proof -
  let ?s0 = "snd (nova_network_init s)"
  let ?s1 = "(upd_dev Lo_dev (\<lambda>_. lo_netdev) ?s0)\<lparr>g_nova_netdev_registry := Some Lo_dev\<rparr>"
  let ?s2 = "(upd_dev Nic_dev (\<lambda>_. nic_netdev) ?s1)\<lparr>g_nova_netdev_registry := Some Nic_dev\<rparr>"
  have "nova_loopback_init ?s0 = Some (0, ?s1)"
    by (rule loopback_up) (simp add: registered_def nova_network_init_def)
  moreover have "nova_nic_stub_init ?s1 = Some (0, ?s2)"
    by (rule nic_up) (simp_all add: registered_def)
  moreover have reg: "registered ?s2 [Nic_dev, Lo_dev]" by (simp add: registered_def)
  moreover have "nova_netdev_find (Some n) ?s2 =
      Some (if n = ''nic0'' then Some Nic_dev else if n = ''lo'' then Some Lo_dev else None)" for n
    using netdev_find_registered [OF reg, of n] by (simp add: eq_commute [of _ n])
  moreover have "xmit_hook Lo_dev ?s2 = Some Lo_start_xmit" "xmit_hook Nic_dev ?s2 = Some Nic_start_xmit"
    by (simp_all add: xmit_hook_def lo_ops_def nic_ops_def)
  ultimately show ?thesis
    by (intro exI [of _ ?s1] exI [of _ ?s2]) (simp add: nova_network_init_def)
qed

lemma find_absent: "y \<notin> set xs \<Longrightarrow> find P xs \<noteq> Some y"
  by (auto simp: find_Some_iff)

lemma reinit_find:
  assumes reg: "registered s (xs @ d # ys)" and reg': "registered s' (xs @ [d])" and y: "y \<in> set ys"
  shows "nova_netdev_find (Some n) s' \<noteq> Some (Some y)"
proof -
  have "distinct (xs @ d # ys)" using plist_distinct reg unfolding registered_def by blast
  with y have "y \<notin> set (xs @ [d])" by auto
  then show ?thesis unfolding netdev_find_registered [OF reg'] using find_absent by fastforce
qed

text \<open>
  Claim C38. Initialising a static device a second time reports -1 and yet damages the registry: when
  \<open>nic0\<close> (or \<open>lo\<close>) is registered, a second \<open>nova_nic_stub_init\<close> (\<open>nova_loopback_init\<close>) clears the
  device's counters and its link to the next device before it finds the name taken, so every device
  registered earlier than it (\<open>ys\<close>) drops out of the registry and no lookup returns it again.
\<close>
theorem netdev_reinit_drops:
  assumes "registered s (xs @ d # ys)"
    and "d = Nic_dev \<and> dev_name s d = ''nic0'' \<and> init = nova_nic_stub_init \<or>
         d = Lo_dev \<and> dev_name s d = ''lo'' \<and> init = nova_loopback_init"
  shows "\<exists>s'. init s = Some (-1, s') \<and> registered s' (xs @ [d]) \<and>
     nd_stats (devices s' d) = zero_stats \<and>
     (\<forall>y \<in> set ys. \<forall>n. nova_netdev_find (Some n) s' \<noteq> Some (Some y))"
proof -
  have names: "cstr (strncpy (replicate 16 NUL) ''lo'' 15) = ''lo''"
    "cstr (strncpy (replicate 16 NUL) ''nic0'' 15) = ''nic0''" by code_simp+
  obtain nd where init: "init s = nova_netdev_register (Some d) (upd_dev d (\<lambda>_. nd) s)"
    and nd: "cstr (nd_name nd) = dev_name s d" "nd_next nd = None" "nd_stats nd = zero_stats"
    using assms(2) names by (auto simp: nova_nic_stub_init_def nova_loopback_init_def zero_netdev_def)
  let ?s = "upd_dev d (\<lambda>_. nd) s"
  have "init s = Some (-1, ?s)" and reg': "registered ?s (xs @ [d])"
    using reinit_cuts [OF assms(1) _ nd(2)] nd(1) init by simp_all
  moreover have "\<forall>y \<in> set ys. \<forall>n. nova_netdev_find (Some n) ?s \<noteq> Some (Some y)"
    using reinit_find [OF assms(1) reg'] by blast
  ultimately show ?thesis using nd(3) by simp
qed

subsection \<open>Transmission\<close>

lemma get_skb_cells: "get_skb a s = Some k \<longleftrightarrow> cells (net_heap s) a = Some (Skb k)"
  by (auto simp: get_skb_def split: option.splits net_obj.splits)

lemma get_skb_upd_dev [simp]: "get_skb a (upd_dev d f s) = get_skb a s"
  by (simp add: get_skb_def)

lemma upd_dev_upd_dev: "upd_dev d f (upd_dev d g s) = upd_dev d (f \<circ> g) s"
  by (simp add: upd_dev_def)

lemma free_skb_live:
  assumes "get_skb a s = Some k" "skb_data k = Some b" "b \<noteq> a" "cells (net_heap s) b \<noteq> None"
  shows "nova_free_skb (Some a) s =
    Some (s\<lparr>net_heap := (net_heap s)\<lparr>cells := (cells (net_heap s))(b := None, a := None)\<rparr>\<rparr>)"
proof -
  have "cells (net_heap s) a = Some (Skb k)" using assms(1) by (simp add: get_skb_cells)
  then show ?thesis using assms by (auto simp: nova_free_skb_def free_live)
qed

text \<open>The NIC stub counts the packet and releases the buffer and its data block.\<close>

lemma nic_xmit:
  assumes "get_skb a s = Some k" "skb_dev k = Some d" "xmit_hook d s = Some Nic_start_xmit"
    "skb_data k = Some b" "b \<noteq> a" "cells (net_heap s) b \<noteq> None"
  shows "nova_dev_queue_xmit (Some a) s =
    Some (0, (upd_dev d (count_tx (skb_len k)) s)
      \<lparr>net_heap := (net_heap s)\<lparr>cells := (cells (net_heap s))(b := None, a := None)\<rparr>\<rparr>)"
  using assms free_skb_live [of a "upd_dev d (count_tx (skb_len k)) s" k b]
  by (simp add: nova_dev_queue_xmit_def nic_start_xmit_def)

text \<open>Loopback counts one packet sent and, once itself and once in the receive path, two received;
  the buffer stays allocated.\<close>

lemma lo_xmit:
  assumes "get_skb a s = Some k" "skb_dev k = Some d" "xmit_hook d s = Some Lo_start_xmit"
  shows "nova_dev_queue_xmit (Some a) s =
    Some (0, put_skb a (k\<lparr>skb_error := 0\<rparr>)
      (upd_dev d (count_rx (skb_len k) \<circ> count_rx (skb_len k) \<circ> count_tx (skb_len k)) s))"
  using assms
  by (simp add: nova_dev_queue_xmit_def lo_start_xmit_def nova_netif_receive_skb_def upd_dev_upd_dev
      comp_assoc)

subsection \<open>Witnesses\<close>

text \<open>A stack before any call, with an allocator that never fails, and one that is up.\<close>

definition cold_net :: net_state where
  "cold_net = \<lparr>devices = (\<lambda>_. zero_netdev),
     net_heap = \<lparr>cells = (\<lambda>_. None), next_addr = 0, calloc_fails = (\<lambda>_. False), calloc_calls = 0\<rparr>,
     g_nova_netdev_registry = None, g_socket_table = replicate 64 None, g_next_socket_fd = 1,
     g_network_initialized = False\<rparr>"

definition demo_net :: net_state where
  "demo_net = snd (the (nova_nic_stub_init (snd (the (nova_loopback_init (snd (nova_network_init cold_net)))))))"

theorem netdev_register_spec_witness:
  "registered demo_net [Nic_dev, Lo_dev] \<and>
   nova_netdev_register (Some (Other_dev 0)) demo_net = Some (-1, demo_net)"
proof -
  have reg: "registered demo_net [Nic_dev, Lo_dev]" "nd_name (devices demo_net (Other_dev 0)) ! 0 = NUL"
    by code_simp+
  then show ?thesis using netdev_register_spec [OF reg(1), of "Other_dev 0"] by simp
qed

theorem netdev_reinit_drops_witness:
  "\<exists>s'. nova_nic_stub_init demo_net = Some (-1, s') \<and> registered s' [Nic_dev] \<and>
     nova_netdev_find (Some ''lo'') demo_net = Some (Some Lo_dev) \<and>
     nova_netdev_find (Some ''lo'') s' \<noteq> Some (Some Lo_dev)"
proof -
  have reg: "registered demo_net ([] @ Nic_dev # [Lo_dev])" and nm: "dev_name demo_net Nic_dev = ''nic0''"
    and f: "nova_netdev_find (Some ''lo'') demo_net = Some (Some Lo_dev)" by code_simp+
  show ?thesis
    using netdev_reinit_drops [OF reg, of nova_nic_stub_init] nm f by auto
qed

end
