(* ===== verification/Nova_Sockets.thy ===== *)
theory Nova_Sockets
  imports Nova_Net
begin

text \<open>
  The socket half of \<open>kernel/network/network_stack.c\<close>: the descriptor table and the calls of the
  socket API.  A descriptor is an index into the table; sockets are heap blocks.  A call returns its
  C return value and the new state, or \<open>None\<close> when it does not return normally.  A buffer argument is
  \<open>None\<close> for \<open>NULL\<close>, else the bytes it points to; reading or writing past them is undefined.
\<close>

abbreviation (input) NOVA_SOCKET_TABLE_SIZE :: nat where "NOVA_SOCKET_TABLE_SIZE \<equiv> 64"

text \<open>The enumerators of \<open>enum nova_af\<close> and \<open>enum nova_sock_type\<close>.\<close>

definition af_of_int :: "int \<Rightarrow> nova_af option" where
  "af_of_int domain =
     (if domain = 0 then Some NOVA_AF_UNSPEC else if domain = 2 then Some NOVA_AF_INET
      else if domain = 10 then Some NOVA_AF_INET6 else if domain = 1 then Some NOVA_AF_UNIX else None)"

definition sock_type_of_int :: "int \<Rightarrow> nova_sock_type option" where
  "sock_type_of_int ty =
     (if ty = 1 then Some NOVA_SOCK_STREAM else if ty = 2 then Some NOVA_SOCK_DGRAM
      else if ty = 3 then Some NOVA_SOCK_RAW else if ty = 5 then Some NOVA_SOCK_SEQPACKET else None)"

text \<open>The conversion of a \<open>size_t\<close> to \<open>ssize_t\<close>, on 64 bits.\<close>

definition ssize_of :: "nat \<Rightarrow> int" where
  "ssize_of len = sint (of_nat len :: u64)"

definition nova_socket_lookup :: "int \<Rightarrow> net_state \<Rightarrow> nat option" where
  "nova_socket_lookup sockfd s =
     (if sockfd \<le> 0 \<or> int NOVA_SOCKET_TABLE_SIZE \<le> sockfd then None
      else g_socket_table s ! nat sockfd)"

definition get_sock :: "nat \<Rightarrow> net_state \<Rightarrow> nova_socket_t option" where
  "get_sock a s = (case cells (net_heap s) a of Some (Sock k) \<Rightarrow> Some k | _ \<Rightarrow> None)"

definition put_sock :: "nat \<Rightarrow> nova_socket_t \<Rightarrow> net_state \<Rightarrow> net_state" where
  "put_sock a k s = s\<lparr>net_heap := store a (Sock k) (net_heap s)\<rparr>"

text \<open>The zeroed block of a new socket; every field is assigned before the socket can be looked up.\<close>

definition zero_sock :: nova_socket_t where
  "zero_sock = \<lparr>sk_family = NOVA_AF_UNSPEC, sk_type = NOVA_SOCK_STREAM, sk_protocol = 0, sk_state = 0,
     sk_flags = 0, sk_ops = None, sk_private_data = None, sk_dev = None\<rparr>"

definition nova_socket :: "int \<Rightarrow> int \<Rightarrow> int \<Rightarrow> net_state \<Rightarrow> (int \<times> net_state) option" where
  "nova_socket domain ty protocol s =
     (let s0 = (if g_network_initialized s then s else snd (nova_network_init s)) in
      case af_of_int domain of None \<Rightarrow> Some (-1, s0)
      | Some af \<Rightarrow>
          (case sock_type_of_int ty of None \<Rightarrow> Some (-1, s0)
           | Some st \<Rightarrow>
               if NOVA_SOCKET_TABLE_SIZE \<le> g_next_socket_fd s0 then Some (-1, s0)
               else
                 (let fd = g_next_socket_fd s0; s1 = s0\<lparr>g_next_socket_fd := fd + 1\<rparr> in
                  case calloc (Sock zero_sock) (net_heap s1) of
                    (None, h) \<Rightarrow> Some (-1, s1\<lparr>net_heap := h\<rparr>)
                  | (Some a, h) \<Rightarrow> do {
                      dev \<leftarrow> nova_netdev_find (Some ''lo'') s1;
                      Some (int fd, (put_sock a
                        \<lparr>sk_family = af, sk_type = st, sk_protocol = protocol, sk_state = 0, sk_flags = 0,
                         sk_ops = None, sk_private_data = None, sk_dev = dev\<rparr> (s1\<lparr>net_heap := h\<rparr>))
                        \<lparr>g_socket_table := (g_socket_table s1)[fd := Some a]\<rparr>) })))"

text \<open>A call that starts by looking the descriptor up and returns -1 when there is no socket.\<close>

definition with_socket ::
  "int \<Rightarrow> net_state \<Rightarrow> (nat \<Rightarrow> (int \<times> net_state) option) \<Rightarrow> (int \<times> net_state) option" where
  "with_socket sockfd s body =
     (case nova_socket_lookup sockfd s of None \<Rightarrow> Some (-1, s) | Some a \<Rightarrow> body a)"

definition nova_bind :: "int \<Rightarrow> net_state \<Rightarrow> (int \<times> net_state) option" where
  "nova_bind sockfd s = with_socket sockfd s (\<lambda>a. Some (0, s))"

definition nova_connect :: "int \<Rightarrow> net_state \<Rightarrow> (int \<times> net_state) option" where
  "nova_connect sockfd s = with_socket sockfd s (\<lambda>a. do {
     k \<leftarrow> get_sock a s;
     let k1 = k\<lparr>sk_state := 1\<rparr>;
     (case sk_dev k1 of
        Some _ \<Rightarrow> Some (0, put_sock a k1 s)
      | None \<Rightarrow> do {
          dev \<leftarrow> nova_netdev_find (Some ''lo'') (put_sock a k1 s);
          Some (0, put_sock a (k1\<lparr>sk_dev := dev\<rparr>) s) }) })"

definition nova_listen :: "int \<Rightarrow> net_state \<Rightarrow> (int \<times> net_state) option" where
  "nova_listen sockfd s = with_socket sockfd s (\<lambda>a. do {
     k \<leftarrow> get_sock a s;
     Some (0, put_sock a (k\<lparr>sk_state := 2\<rparr>) s) })"

definition nova_accept :: "int \<Rightarrow> net_state \<Rightarrow> (int \<times> net_state) option" where
  "nova_accept sockfd s = with_socket sockfd s (\<lambda>a. Some (-1, s))"

text \<open>The part of \<open>nova_send\<close> after the device is known to have a transmit hook.\<close>

definition send_skb :: "u8 list \<Rightarrow> nat \<Rightarrow> dev_addr \<Rightarrow> net_state \<Rightarrow> (int \<times> net_state) option" where
  "send_skb buf len dev s = do {
     (skb, s1) \<leftarrow> nova_alloc_skb len s;
     (case skb of None \<Rightarrow> Some (-1, s1)
      | Some b \<Rightarrow> do {
          k \<leftarrow> get_skb b s1;
          data \<leftarrow> skb_data k;
          s2 \<leftarrow> (case cells (net_heap s1) data of
                   Some (Bytes bs) \<Rightarrow>
                     if len \<le> length bs \<and> len \<le> length buf
                     then Some (s1\<lparr>net_heap := store data (Bytes (memcpy bs buf len)) (net_heap s1)\<rparr>)
                     else None
                 | _ \<Rightarrow> None);
          let s3 = put_skb b (k\<lparr>skb_len := len, skb_dev := Some dev\<rparr>) s2;
          (r, s4) \<leftarrow> nova_dev_queue_xmit (Some b) s3;
          (if r \<noteq> 0 then do { s5 \<leftarrow> nova_free_skb (Some b) s4; Some (-1, s5) }
           else Some (ssize_of len, s4)) }) }"

definition nova_send :: "int \<Rightarrow> u8 list option \<Rightarrow> nat \<Rightarrow> net_state \<Rightarrow> (int \<times> net_state) option" where
  "nova_send sockfd buf len s = with_socket sockfd s (\<lambda>a.
     case buf of None \<Rightarrow> Some (-1, s)
     | Some bytes \<Rightarrow>
         if len = 0 then Some (-1, s)
         else do {
           k \<leftarrow> get_sock a s;
           s1 \<leftarrow> (case sk_dev k of
                    Some _ \<Rightarrow> Some s
                  | None \<Rightarrow> do {
                      dev \<leftarrow> nova_netdev_find (Some ''lo'') s;
                      Some (put_sock a (k\<lparr>sk_dev := dev\<rparr>) s) });
           k1 \<leftarrow> get_sock a s1;
           (case sk_dev k1 of None \<Rightarrow> Some (-1, s1)
            | Some d \<Rightarrow>
                (case xmit_hook d s1 of None \<Rightarrow> Some (-1, s1)
                 | Some _ \<Rightarrow> send_skb bytes len d s1)) })"

text \<open>\<open>nova_recv\<close> also returns the caller's buffer.\<close>

definition nova_recv :: "int \<Rightarrow> u8 list option \<Rightarrow> nat \<Rightarrow> net_state \<Rightarrow> (int \<times> u8 list option) option" where
  "nova_recv sockfd buf len s =
     (case nova_socket_lookup sockfd s of None \<Rightarrow> Some (-1, buf)
      | Some a \<Rightarrow>
          (case buf of None \<Rightarrow> Some (-1, buf)
           | Some bytes \<Rightarrow>
               if len = 0 then Some (-1, buf)
               else if len \<le> length bytes then Some (ssize_of len, Some (replicate len 0 @ drop len bytes))
               else None))"

definition nova_shutdown :: "int \<Rightarrow> net_state \<Rightarrow> (int \<times> net_state) option" where
  "nova_shutdown sockfd s = with_socket sockfd s (\<lambda>a. do {
     k \<leftarrow> get_sock a s;
     Some (0, put_sock a (k\<lparr>sk_state := 0\<rparr>) s) })"

definition nova_getsockopt :: "int \<Rightarrow> net_state \<Rightarrow> (int \<times> net_state) option" where
  "nova_getsockopt sockfd s = with_socket sockfd s (\<lambda>a. Some (0, s))"

definition nova_setsockopt :: "int \<Rightarrow> net_state \<Rightarrow> (int \<times> net_state) option" where
  "nova_setsockopt sockfd s = with_socket sockfd s (\<lambda>a. Some (0, s))"

definition nova_close :: "int \<Rightarrow> net_state \<Rightarrow> (int \<times> net_state) option" where
  "nova_close sockfd s = with_socket sockfd s (\<lambda>a. do {
     k \<leftarrow> get_sock a s;
     h1 \<leftarrow> free (sk_private_data k) (net_heap s);
     h2 \<leftarrow> free (Some a) h1;
     Some (0, s\<lparr>net_heap := h2, g_socket_table := (g_socket_table s)[nat sockfd := None]\<rparr>) })"

subsection \<open>The invariant\<close>

text \<open>Every entry of the table points to a live socket of its own, whose private data is \<open>NULL\<close>; the
  entries from the next descriptor on, and entry 0, are \<open>NULL\<close>.\<close>

definition sock_wf :: "net_state \<Rightarrow> bool" where
  "sock_wf s \<longleftrightarrow> heap_wf (net_heap s) \<and> length (g_socket_table s) = NOVA_SOCKET_TABLE_SIZE \<and>
     1 \<le> g_next_socket_fd s \<and> g_next_socket_fd s \<le> NOVA_SOCKET_TABLE_SIZE \<and>
     (\<forall>i < NOVA_SOCKET_TABLE_SIZE. i = 0 \<or> g_next_socket_fd s \<le> i \<longrightarrow> g_socket_table s ! i = None) \<and>
     (\<forall>i < NOVA_SOCKET_TABLE_SIZE. \<forall>a. g_socket_table s ! i = Some a \<longrightarrow>
        (\<exists>k. get_sock a s = Some k \<and> sk_private_data k = None)) \<and>
     (\<forall>i < NOVA_SOCKET_TABLE_SIZE. \<forall>j < NOVA_SOCKET_TABLE_SIZE. \<forall>a.
        g_socket_table s ! i = Some a \<longrightarrow> g_socket_table s ! j = Some a \<longrightarrow> i = j)"

definition net_wf :: "net_state \<Rightarrow> bool" where
  "net_wf s \<longleftrightarrow> sock_wf s \<and> netdev_wf s"

text \<open>What a descriptor stands for.\<close>

definition socket_at :: "net_state \<Rightarrow> int \<Rightarrow> nova_socket_t option" where
  "socket_at s fd = (case nova_socket_lookup fd s of None \<Rightarrow> None | Some a \<Rightarrow> get_sock a s)"

lemma get_sock_cells: "get_sock a s = Some k \<longleftrightarrow> cells (net_heap s) a = Some (Sock k)"
  by (auto simp: get_sock_def split: option.splits net_obj.splits)

lemma put_sock_sel [simp]:
  "devices (put_sock a k s) = devices s" "g_nova_netdev_registry (put_sock a k s) = g_nova_netdev_registry s"
  "g_socket_table (put_sock a k s) = g_socket_table s" "g_next_socket_fd (put_sock a k s) = g_next_socket_fd s"
  "g_network_initialized (put_sock a k s) = g_network_initialized s"
  "net_heap (put_sock a k s) = store a (Sock k) (net_heap s)"
  by (simp_all add: put_sock_def)

lemma get_put_sock [simp]: "get_sock b (put_sock a k s) = (if b = a then Some k else get_sock b s)"
  by (simp add: get_sock_def)

lemma nova_netdev_find_cong [simp]:
  "nova_netdev_find n (put_sock a k s) = nova_netdev_find n s"
  "nova_netdev_find n (s\<lparr>g_next_socket_fd := fd\<rparr>) = nova_netdev_find n s"
  by (simp_all add: nova_netdev_find_def split: option.split)

lemma sock_wf_lookup:
  assumes "sock_wf s" "nova_socket_lookup fd s = Some a"
  obtains k where "get_sock a s = Some k" "sk_private_data k = None" "0 < fd" "fd < 64"
    "g_socket_table s ! nat fd = Some a"
proof -
  have "0 < fd" "fd < 64" "g_socket_table s ! nat fd = Some a"
    using assms(2) by (auto simp: nova_socket_lookup_def split: if_splits)
  moreover from this have "nat fd < 64" by simp
  ultimately show ?thesis using assms(1) that unfolding sock_wf_def by blast
qed

text \<open>Changes that keep the socket table and its blocks keep the invariant.\<close>

lemma sock_wf_frame:
  assumes "sock_wf s" "heap_wf (net_heap t)" "g_socket_table t = g_socket_table s"
    "g_next_socket_fd t = g_next_socket_fd s"
    "\<And>a k. cells (net_heap s) a = Some (Sock k) \<Longrightarrow> cells (net_heap t) a = Some (Sock k)"
  shows "sock_wf t"
proof -
  have keep: "get_sock a s = Some k \<Longrightarrow> get_sock a t = Some k" for a k
    using assms(5) by (simp add: get_sock_cells)
  have live: "\<exists>k. get_sock a t = Some k \<and> sk_private_data k = None"
    if "i < 64" "g_socket_table t ! i = Some a" for i a
  proof -
    have "\<exists>k. get_sock a s = Some k \<and> sk_private_data k = None"
      using assms(1,3) that by (simp add: sock_wf_def)
    with keep show ?thesis by blast
  qed
  from assms(1) show ?thesis unfolding sock_wf_def assms(3,4)
    using live assms(2) by (simp add: assms(3))
qed

lemma sock_wf_put_sock:
  assumes "sock_wf s" "get_sock a s = Some k0" "sk_private_data k = None"
  shows "sock_wf (put_sock a k s)"
proof -
  have "heap_wf (net_heap (put_sock a k s))"
    using assms(1,2) by (auto simp: sock_wf_def get_sock_cells intro: heap_wf_store)
  with assms show ?thesis unfolding sock_wf_def by (auto simp: get_put_sock)
qed

text \<open>The registry invariant reads only names, links and the head.\<close>

lemma netdev_wf_frame:
  assumes "netdev_wf s" "g_nova_netdev_registry t = g_nova_netdev_registry s"
    "\<And>d. nd_name (devices t d) = nd_name (devices s d) \<and> nd_next (devices t d) = nd_next (devices s d)"
  shows "netdev_wf t"
  using assms by (simp add: netdev_wf_def registered_def)

lemma netdev_wf_put_sock [simp]: "netdev_wf (put_sock a k s) = netdev_wf s"
  by (auto intro: netdev_wf_frame)

lemma netdev_wf_find:
  "netdev_wf s \<Longrightarrow> \<exists>r. nova_netdev_find n s = Some r"
  by (cases n) (auto simp: netdev_wf_def netdev_find_registered, simp add: nova_netdev_find_def)

subsection \<open>Sending\<close>

text \<open>The buffer that \<open>nova_alloc_skb\<close> returns.\<close>

definition new_skb :: "nat \<Rightarrow> nat \<Rightarrow> nova_sk_buff" where
  "new_skb data sz = \<lparr>skb_data = Some data, skb_len = sz, skb_headroom = 0, skb_tailroom = 0,
     skb_dev = None, skb_hash = 0, skb_protocol = 0, skb_priority = 0, skb_error = 0\<rparr>"

text \<open>One of the next two calls of \<open>calloc\<close> fails.\<close>

definition skb_oom :: "net_state \<Rightarrow> bool" where
  "skb_oom s \<longleftrightarrow> calloc_fails (net_heap s) (calloc_calls (net_heap s)) \<or>
     calloc_fails (net_heap s) (Suc (calloc_calls (net_heap s)))"

lemma alloc_skb_cases [consumes 1, case_names failed fresh]:
  assumes wf: "heap_wf (net_heap s)"
  obtains (failed) h where "nova_alloc_skb sz s = Some (None, s\<lparr>net_heap := h\<rparr>)"
      "cells h = cells (net_heap s)" "heap_wf h" "skb_oom s"
  | (fresh) h n where "nova_alloc_skb sz s = Some (Some n, s\<lparr>net_heap := h\<rparr>)" "n = next_addr (net_heap s)"
      "cells h = (cells (net_heap s))(n \<mapsto> Skb (new_skb (Suc n) sz),
         Suc n \<mapsto> Bytes (replicate (if sz = 0 then 1 else sz) 0))"
      "heap_wf h" "\<not> skb_oom s"
proof -
  let ?h = "net_heap s" and ?n = "next_addr (net_heap s)"
  have dead: "cells ?h ?n = None" using wf by (simp add: heap_wf_fresh)
  show ?thesis
  proof (cases "calloc_fails ?h (calloc_calls ?h)")
    case True
    then show ?thesis using wf failed [of "?h\<lparr>calloc_calls := Suc (calloc_calls ?h)\<rparr>"]
      by (simp add: nova_alloc_skb_def calloc_def heap_wf_def skb_oom_def)
  next
    case ok: False
    show ?thesis
    proof (cases "calloc_fails ?h (Suc (calloc_calls ?h))")
      case True
      let ?h' = "?h\<lparr>cells := (cells ?h)(?n := None), next_addr := Suc ?n,
         calloc_calls := Suc (Suc (calloc_calls ?h))\<rparr>"
      have "nova_alloc_skb sz s = Some (None, s\<lparr>net_heap := ?h'\<rparr>)"
        using ok True by (simp add: nova_alloc_skb_def calloc_def free_def)
      moreover have "cells ?h' = cells ?h" using dead by (auto simp: fun_eq_iff)
      moreover have "heap_wf ?h'" using wf by (simp add: heap_wf_def)
      ultimately show ?thesis using True by (intro failed) (simp_all add: skb_oom_def)
    next
      case False
      let ?bs = "Bytes (replicate (if sz = 0 then 1 else sz) 0)"
      let ?h' = "?h\<lparr>cells := (cells ?h)(?n \<mapsto> Skb zero_skb, Suc ?n \<mapsto> ?bs, ?n \<mapsto> Skb (new_skb (Suc ?n) sz)),
         next_addr := Suc (Suc ?n), calloc_calls := Suc (Suc (calloc_calls ?h))\<rparr>"
      have "nova_alloc_skb sz s = Some (Some ?n, s\<lparr>net_heap := ?h'\<rparr>)"
        using ok False by (simp add: nova_alloc_skb_def calloc_def put_skb_def store_def new_skb_def)
      moreover have "cells ?h' = (cells ?h)(?n \<mapsto> Skb (new_skb (Suc ?n) sz), Suc ?n \<mapsto> ?bs)"
        by (auto simp: fun_eq_iff)
      moreover have "heap_wf ?h'" using wf by (simp add: heap_wf_def)
      ultimately show ?thesis using ok False by (intro fresh [OF _ refl]) (simp_all add: skb_oom_def)
    qed
  qed
qed

lemma put_skb_sel [simp]:
  "devices (put_skb a k s) = devices s" "g_nova_netdev_registry (put_skb a k s) = g_nova_netdev_registry s"
  "g_socket_table (put_skb a k s) = g_socket_table s" "g_next_socket_fd (put_skb a k s) = g_next_socket_fd s"
  "g_network_initialized (put_skb a k s) = g_network_initialized s"
  "net_heap (put_skb a k s) = store a (Skb k) (net_heap s)"
  by (simp_all add: put_skb_def)

text \<open>The state in which \<open>nova_send\<close> hands the filled buffer to the device.\<close>

lemma send_skb_queue:
  fixes d :: dev_addr and buf :: "u8 list"
  assumes alloc: "nova_alloc_skb len s = Some (Some n, s\<lparr>net_heap := h\<rparr>)"
    and h: "cells h n = Some (Skb (new_skb (Suc n) len))" "cells h (Suc n) = Some (Bytes (replicate len 0))"
    and len: "len \<le> length buf"
  defines "k \<equiv> (new_skb (Suc n) len)\<lparr>skb_dev := Some d\<rparr>"
  defines "t \<equiv> s\<lparr>net_heap := store n (Skb k) (store (Suc n) (Bytes (take len buf)) h)\<rparr>"
  shows "send_skb buf len d s = do {
     (r, s4) \<leftarrow> nova_dev_queue_xmit (Some n) t;
     (if r \<noteq> 0 then do { s5 \<leftarrow> nova_free_skb (Some n) s4; Some (-1, s5) } else Some (ssize_of len, s4)) }"
proof -
  have "memcpy (replicate len 0) buf len = take len buf" by (simp add: memcpy_def)
  moreover have "(new_skb (Suc n) len)\<lparr>skb_len := len, skb_dev := Some d\<rparr> = k"
    by (simp add: k_def new_skb_def)
  ultimately show ?thesis
    using alloc h len by (simp add: send_skb_def get_skb_def t_def put_skb_def) (simp add: new_skb_def)
qed

lemma heap_wf_clear2: "heap_wf h \<Longrightarrow> heap_wf (h\<lparr>cells := (cells h)(a := None, b := None)\<rparr>)"
  by (simp add: heap_wf_def)

lemma send_skb_cases [consumes 3, case_names failed nic lo]:
  assumes wf: "heap_wf (net_heap s)" and hook: "xmit_hook d s = Some f" and len: "0 < len \<and> len \<le> length buf"
  obtains (failed) h where "send_skb buf len d s = Some (-1, s\<lparr>net_heap := h\<rparr>)"
      "cells h = cells (net_heap s)" "heap_wf h" "skb_oom s"
  | (nic) h where "f = Nic_start_xmit" "\<not> skb_oom s"
      "send_skb buf len d s = Some (ssize_of len, (upd_dev d (count_tx len) s)\<lparr>net_heap := h\<rparr>)"
      "cells h = cells (net_heap s)" "heap_wf h"
  | (lo) h n where "f = Lo_start_xmit" "\<not> skb_oom s"
      "send_skb buf len d s = Some (ssize_of len,
         (upd_dev d (count_rx len \<circ> count_rx len \<circ> count_tx len) s)\<lparr>net_heap := h\<rparr>)"
      "cells (net_heap s) n = None" "cells (net_heap s) (Suc n) = None"
      "cells h = (cells (net_heap s))(n \<mapsto> Skb ((new_skb (Suc n) len)\<lparr>skb_dev := Some d\<rparr>),
         Suc n \<mapsto> Bytes (take len buf))" "heap_wf h"
  using wf
proof (cases rule: alloc_skb_cases [of s len])
  case (failed h)
  then show ?thesis using that(1) by (simp add: send_skb_def)
next
  case (fresh h n)
  let ?k = "(new_skb (Suc n) len)\<lparr>skb_dev := Some d\<rparr>"
  let ?h = "store n (Skb ?k) (store (Suc n) (Bytes (take len buf)) h)"
  let ?t = "s\<lparr>net_heap := ?h\<rparr>"
  have h: "cells h n = Some (Skb (new_skb (Suc n) len))" "cells h (Suc n) = Some (Bytes (replicate len 0))"
    using fresh(3) len by auto
  note send = send_skb_queue [OF fresh(1) h conjunct2 [OF len], of d]
  have dead: "cells (net_heap s) n = None" "cells (net_heap s) (Suc n) = None"
    using wf fresh(2) by (simp_all add: heap_wf_fresh)
  have wf': "heap_wf ?h" using fresh(4) h by (auto intro!: heap_wf_store)
  have cells: "cells ?h = (cells (net_heap s))(n \<mapsto> Skb ?k, Suc n \<mapsto> Bytes (take len buf))"
    using fresh(3) by (auto simp: fun_eq_iff)
  have k: "get_skb n ?t = Some ?k" "skb_dev ?k = Some d" "skb_data ?k = Some (Suc n)" "skb_len ?k = len"
    by (simp_all add: get_skb_def) (simp_all add: new_skb_def)
  have hook': "xmit_hook d ?t = Some f" using hook by (simp add: xmit_hook_def)
  show ?thesis
  proof (cases f)
    case Lo_start_xmit
    have "?k\<lparr>skb_error := 0\<rparr> = ?k" by (simp add: new_skb_def)
    then have "nova_dev_queue_xmit (Some n) ?t = Some (0, put_skb n ?k
        (upd_dev d (count_rx len \<circ> count_rx len \<circ> count_tx len) ?t))"
      using lo_xmit [OF k(1,2)] hook' Lo_start_xmit k(4) by simp
    moreover have "put_skb n ?k (upd_dev d g ?t) = (upd_dev d g s)\<lparr>net_heap := ?h\<rparr>" for g
      by (simp add: put_skb_def upd_dev_def store_def)
    ultimately show ?thesis using that(3) [OF Lo_start_xmit fresh(5) _ dead cells wf'] send by simp
  next
    case Nic_start_xmit
    let ?h' = "?h\<lparr>cells := (cells ?h)(Suc n := None, n := None)\<rparr>"
    have "nova_dev_queue_xmit (Some n) ?t = Some (0, (upd_dev d (count_tx len) ?t)\<lparr>net_heap := ?h'\<rparr>)"
      using nic_xmit [OF k(1,2) _ k(3)] hook' Nic_start_xmit k(4) by simp
    moreover have "(upd_dev d (count_tx len) ?t)\<lparr>net_heap := ?h'\<rparr> = (upd_dev d (count_tx len) s)\<lparr>net_heap := ?h'\<rparr>"
      by (simp add: upd_dev_def)
    moreover have "cells ?h' = cells (net_heap s)" unfolding cells using dead by (auto simp: fun_eq_iff)
    moreover have "heap_wf ?h'" by (rule heap_wf_clear2 [OF wf'])
    ultimately show ?thesis using that(2) [OF Nic_start_xmit fresh(5), of ?h'] send by simp
  qed
qed

text \<open>The device a socket sends through: its own, else whatever is registered as \<open>lo\<close>.\<close>

definition route :: "nova_socket_t \<Rightarrow> net_state \<Rightarrow> dev_addr option option" where
  "route k s = (case sk_dev k of Some d \<Rightarrow> Some (Some d) | None \<Rightarrow> nova_netdev_find (Some ''lo'') s)"

lemma put_sock_same: "get_sock a s = Some k \<Longrightarrow> put_sock a k s = s"
  by (simp add: get_sock_cells put_sock_def store_def fun_upd_idem)

lemma xmit_hook_put_sock [simp]: "xmit_hook d (put_sock a k s) = xmit_hook d s"
  by (simp add: xmit_hook_def)

lemma nova_send_eq:
  assumes "nova_socket_lookup fd s = Some a" "get_sock a s = Some k" "route k s = Some dev" "0 < len"
  shows "nova_send fd (Some buf) len s =
    (let s1 = put_sock a (k\<lparr>sk_dev := dev\<rparr>) s
     in case dev of None \<Rightarrow> Some (-1, s1)
        | Some d \<Rightarrow> (case xmit_hook d s of None \<Rightarrow> Some (-1, s1) | Some _ \<Rightarrow> send_skb buf len d s1))"
proof (cases "sk_dev k")
  case None
  with assms show ?thesis by (simp add: nova_send_def with_socket_def route_def Let_def split: option.split)
next
  case (Some d)
  then have "dev = Some d" "k\<lparr>sk_dev := Some d\<rparr> = k" using assms(3) by (simp_all add: route_def)
  with assms Some show ?thesis by (simp add: nova_send_def with_socket_def put_sock_same)
qed

lemma ssize_of_small: "len < 2 ^ 63 \<Longrightarrow> ssize_of len = int len"
  by (simp add: ssize_of_def signed_of_nat signed_take_bit_int_eq_self)

lemma netdev_wf_count [simp]:
  "netdev_wf (upd_dev d (count_tx len) s) = netdev_wf s"
  "netdev_wf (upd_dev d (count_rx len \<circ> count_rx len \<circ> count_tx len) s) = netdev_wf s"
  "netdev_wf (s\<lparr>net_heap := h\<rparr>) = netdev_wf s"
  by (auto elim!: netdev_wf_frame simp: count_tx_def count_rx_def)

text \<open>A send keeps the socket table and its sockets.\<close>

lemma sock_wf_more_cells:
  assumes "sock_wf s" "heap_wf h" "cells h = cells (net_heap s) ++ m" "dom m \<inter> dom (cells (net_heap s)) = {}"
    "g_socket_table t = g_socket_table s" "g_next_socket_fd t = g_next_socket_fd s"
  shows "sock_wf (t\<lparr>net_heap := h\<rparr>)"
proof (rule sock_wf_frame [OF assms(1)])
  fix a k assume "cells (net_heap s) a = Some (Sock k)"
  moreover from this assms(4) have "m a = None" by auto
  ultimately show "cells (net_heap (t\<lparr>net_heap := h\<rparr>)) a = Some (Sock k)"
    by (simp add: assms(3) map_add_def)
qed (use assms in simp_all)

lemma nova_send_effect:
  assumes wf: "net_wf s" and sock: "nova_socket_lookup fd s = Some a" "get_sock a s = Some k"
    and dev: "route k s = Some (Some d)" "xmit_hook d s = Some f"
    and len: "0 < len" "len \<le> length buf"
  shows "\<exists>r s'. nova_send fd (Some buf) len s = Some (r, s') \<and> net_wf s' \<and>
    (if skb_oom s then r = -1 \<and> devices s' = devices s \<and> dom (cells (net_heap s')) = dom (cells (net_heap s))
     else r = ssize_of len \<and>
       (case f of
          Nic_start_xmit \<Rightarrow> devices s' = (devices s)(d := count_tx len (devices s d)) \<and>
            dom (cells (net_heap s')) = dom (cells (net_heap s))
        | Lo_start_xmit \<Rightarrow>
            devices s' = (devices s)(d := count_rx len (count_rx len (count_tx len (devices s d)))) \<and>
            (\<exists>n. n \<notin> dom (cells (net_heap s)) \<and> Suc n \<notin> dom (cells (net_heap s)) \<and>
              dom (cells (net_heap s')) = dom (cells (net_heap s)) \<union> {n, Suc n} \<and>
              cells (net_heap s') (Suc n) = Some (Bytes (take len buf)))))"
proof -
  let ?s1 = "put_sock a (k\<lparr>sk_dev := Some d\<rparr>) s"
  have send: "nova_send fd (Some buf) len s = send_skb buf len d ?s1"
    using nova_send_eq [OF sock dev(1) len(1)] dev(2) by simp
  have swf: "sock_wf s" and dwf: "netdev_wf s" using wf by (simp_all add: net_wf_def)
  have "sk_private_data k = None"
    using sock_wf_lookup [OF swf sock(1)] sock(2) by auto
  then have "sock_wf ?s1" by (intro sock_wf_put_sock [OF swf sock(2)]) simp
  then have wf1: "sock_wf ?s1" "netdev_wf ?s1" "heap_wf (net_heap ?s1)"
    using dwf by (simp_all add: sock_wf_def)
  have oom: "skb_oom ?s1 = skb_oom s" by (simp add: skb_oom_def)
  have dom1: "dom (cells (net_heap ?s1)) = dom (cells (net_heap s))"
    using sock(2) by (auto simp: get_sock_cells)
  have hook1: "xmit_hook d ?s1 = Some f" using dev(2) by simp
  have same: "sock_wf (t\<lparr>net_heap := h\<rparr>)" if "heap_wf h" "cells h = cells (net_heap ?s1)"
    "g_socket_table t = g_socket_table ?s1" "g_next_socket_fd t = g_next_socket_fd ?s1" for t h
    using sock_wf_more_cells [OF wf1(1) that(1), of Map.empty] that(2-4) by simp
  from wf1(3) hook1 conjI [OF len(1,2)] show ?thesis
  proof (cases rule: send_skb_cases [of ?s1 d f len buf])
    case (failed h)
    then show ?thesis
      using send oom dom1 same [of h] wf1(2) by (simp add: net_wf_def)
  next
    case (nic h)
    then show ?thesis
      using send oom dom1 same [of h] wf1(2) by (simp add: net_wf_def)
  next
    case (lo h n)
    have "sock_wf ((upd_dev d (count_rx len \<circ> count_rx len \<circ> count_tx len) ?s1)\<lparr>net_heap := h\<rparr>)"
      using lo(4-7) by (intro sock_wf_more_cells [OF wf1(1), where m =
          "[n \<mapsto> Skb ((new_skb (Suc n) len)\<lparr>skb_dev := Some d\<rparr>), Suc n \<mapsto> Bytes (take len buf)]"]) (auto split: if_splits)
    moreover have "dom (cells h) = dom (cells (net_heap s)) \<union> {n, Suc n}"
      unfolding lo(6) using dom1 by auto
    moreover have "n \<notin> dom (cells (net_heap s))" "Suc n \<notin> dom (cells (net_heap s))"
      unfolding dom1 [symmetric] using lo(4,5) by (auto split: if_splits)
    moreover have "cells h (Suc n) = Some (Bytes (take len buf))" unfolding lo(6) by simp
    ultimately have "net_wf ((upd_dev d (count_rx len \<circ> count_rx len \<circ> count_tx len) ?s1)\<lparr>net_heap := h\<rparr>)"
      and leak: "\<exists>n. n \<notin> dom (cells (net_heap s)) \<and> Suc n \<notin> dom (cells (net_heap s)) \<and>
        dom (cells h) = dom (cells (net_heap s)) \<union> {n, Suc n} \<and>
        cells h (Suc n) = Some (Bytes (take len buf))"
      using wf1(2) by (simp add: net_wf_def, blast)
    then show ?thesis using lo(1-3) send oom leak by simp
  qed
qed

text \<open>
  Claim C17. \<open>nova_send\<close> on a live socket whose device has a transmit hook, for a non-empty message:
  it always returns, and -1 exactly when one of the two allocations of the packet buffer fails, in
  which case no counter and no allocation changes.  Otherwise it returns the length.  Through the
  NIC stub the device counts one packet sent and every block is released again.  Through loopback
  the device counts one packet sent but two received, and two blocks (the buffer and the message
  bytes) stay allocated although nothing refers to them any more.
\<close>
theorem socket_send_spec:
  assumes wf: "net_wf s" and sock: "nova_socket_lookup fd s = Some a" "get_sock a s = Some k"
    and dev: "route k s = Some (Some d)" "xmit_hook d s = Some f"
    and len: "0 < len" "len \<le> length buf" "len < 2 ^ 63"
  shows "\<exists>r s'. nova_send fd (Some buf) len s = Some (r, s') \<and> net_wf s' \<and>
    (if skb_oom s then r = -1 \<and> devices s' = devices s \<and> dom (cells (net_heap s')) = dom (cells (net_heap s))
     else r = int len \<and>
       (case f of
          Nic_start_xmit \<Rightarrow> devices s' = (devices s)(d := count_tx len (devices s d)) \<and>
            dom (cells (net_heap s')) = dom (cells (net_heap s))
        | Lo_start_xmit \<Rightarrow>
            devices s' = (devices s)(d := count_rx len (count_rx len (count_tx len (devices s d)))) \<and>
            (\<exists>n. n \<notin> dom (cells (net_heap s)) \<and> Suc n \<notin> dom (cells (net_heap s)) \<and>
              dom (cells (net_heap s')) = dom (cells (net_heap s)) \<union> {n, Suc n} \<and>
              cells (net_heap s') (Suc n) = Some (Bytes (take len buf)))))"
  using nova_send_effect [OF wf sock dev len(1,2)] unfolding ssize_of_small [OF len(3)] .

subsection \<open>Descriptors\<close>

lemma lookup_put_sock [simp]: "nova_socket_lookup fd (put_sock a k s) = nova_socket_lookup fd s"
  by (simp add: nova_socket_lookup_def)

lemma lookup_inj:
  assumes wf: "sock_wf s" and fd: "nova_socket_lookup fd s = Some a" and fd': "nova_socket_lookup fd' s = Some a"
  shows "fd' = fd"
proof -
  have "0 < fd" "fd < 64" "g_socket_table s ! nat fd = Some a"
    "0 < fd'" "fd' < 64" "g_socket_table s ! nat fd' = Some a"
    using fd fd' by (auto simp: nova_socket_lookup_def split: if_splits)
  moreover from this have "nat fd < 64" "nat fd' < 64" by auto
  ultimately have "nat fd = nat fd'" using wf unfolding sock_wf_def by blast
  with \<open>0 < fd\<close> \<open>0 < fd'\<close> show ?thesis by simp
qed

lemma socket_at_cases [consumes 1, case_names none live]:
  assumes "sock_wf s"
  obtains (none) "nova_socket_lookup fd s = None" "socket_at s fd = None"
  | (live) a k where "nova_socket_lookup fd s = Some a" "get_sock a s = Some k" "socket_at s fd = Some k"
      "sk_private_data k = None"
  using assms that by (cases "nova_socket_lookup fd s") (auto simp: socket_at_def elim: sock_wf_lookup)

lemma socket_at_put_sock:
  assumes "sock_wf s" "nova_socket_lookup fd s = Some a"
  shows "socket_at (put_sock a k s) = (socket_at s)(fd \<mapsto> k)"
proof
  fix fd'
  show "socket_at (put_sock a k s) fd' = ((socket_at s)(fd \<mapsto> k)) fd'"
  proof (cases "fd' = fd")
    case True
    with assms(2) show ?thesis by (simp add: socket_at_def)
  next
    case False
    then have "nova_socket_lookup fd' s \<noteq> Some a" using lookup_inj [OF assms] by blast
    with False show ?thesis by (auto simp: socket_at_def split: option.splits)
  qed
qed

lemma route_total: "netdev_wf s \<Longrightarrow> \<exists>dev. route k s = Some dev"
  using netdev_wf_find [of s "Some ''lo''"] by (cases "sk_dev k") (simp_all add: route_def)

text \<open>
  \<open>nova_listen\<close>, \<open>nova_shutdown\<close> and \<open>nova_connect\<close> on a descriptor without a socket return -1
  and change nothing; on a socket they return 0 and set its state to 2, 0 and 1, \<open>nova_connect\<close> also
  gives a socket without a device the one registered as \<open>lo\<close>; no other descriptor is affected.
\<close>
lemma socket_state_effect:
  assumes wf: "net_wf s"
  shows "case socket_at s fd of
      None \<Rightarrow> nova_listen fd s = Some (-1, s) \<and> nova_shutdown fd s = Some (-1, s) \<and>
        nova_connect fd s = Some (-1, s)
    | Some k \<Rightarrow> \<exists>s1 s2 s3 dev. nova_listen fd s = Some (0, s1) \<and> nova_shutdown fd s = Some (0, s2) \<and>
        nova_connect fd s = Some (0, s3) \<and> route k s = Some dev \<and> net_wf s1 \<and> net_wf s2 \<and> net_wf s3 \<and>
        socket_at s1 = (socket_at s)(fd \<mapsto> k\<lparr>sk_state := 2\<rparr>) \<and>
        socket_at s2 = (socket_at s)(fd \<mapsto> k\<lparr>sk_state := 0\<rparr>) \<and>
        socket_at s3 = (socket_at s)(fd \<mapsto> k\<lparr>sk_state := 1, sk_dev := dev\<rparr>)"
proof -
  have swf: "sock_wf s" and dwf: "netdev_wf s" using wf by (simp_all add: net_wf_def)
  from swf show ?thesis
  proof (cases rule: socket_at_cases [of s fd])
    case none
    then show ?thesis by (simp add: nova_listen_def nova_shutdown_def nova_connect_def with_socket_def)
  next
    case (live a k)
    have wf': "net_wf (put_sock a k' s)" if "sk_private_data k' = None" for k'
      using sock_wf_put_sock [OF swf live(2) that] dwf by (simp add: net_wf_def)
    note at = socket_at_put_sock [OF swf live(1)]
    obtain dev where dev: "route k s = Some dev" using route_total [OF dwf] by blast
    have "nova_connect fd s = Some (0, put_sock a (k\<lparr>sk_state := 1, sk_dev := dev\<rparr>) s)"
    proof (cases "sk_dev k")
      case None
      with live dev show ?thesis by (simp add: nova_connect_def with_socket_def route_def)
    next
      case (Some d)
      then have same: "dev = Some d" "k\<lparr>sk_state := 1, sk_dev := Some d\<rparr> = k\<lparr>sk_state := 1\<rparr>"
        using dev by (simp_all add: route_def)
      show ?thesis unfolding same using live Some by (simp add: nova_connect_def with_socket_def)
    qed
    moreover have "nova_listen fd s = Some (0, put_sock a (k\<lparr>sk_state := 2\<rparr>) s)"
      "nova_shutdown fd s = Some (0, put_sock a (k\<lparr>sk_state := 0\<rparr>) s)"
      using live by (simp_all add: nova_listen_def nova_shutdown_def with_socket_def)
    ultimately show ?thesis using live(3,4) dev wf' at by simp
  qed
qed

lemma nova_close_effect:
  assumes wf: "net_wf s"
  shows "case socket_at s fd of
      None \<Rightarrow> nova_close fd s = Some (-1, s)
    | Some k \<Rightarrow> \<exists>a s'. nova_socket_lookup fd s = Some a \<and> nova_close fd s = Some (0, s') \<and> net_wf s' \<and>
        socket_at s' = (socket_at s)(fd := None) \<and>
        cells (net_heap s') = (cells (net_heap s))(a := None) \<and>
        nova_close fd s' = Some (-1, s')"
proof -
  have swf: "sock_wf s" and dwf: "netdev_wf s" using wf by (simp_all add: net_wf_def)
  from swf show ?thesis
  proof (cases rule: socket_at_cases [of s fd])
    case none
    then show ?thesis by (simp add: nova_close_def with_socket_def)
  next
    case (live a k)
    obtain fd: "0 < fd" "fd < 64" and tab: "g_socket_table s ! nat fd = Some a"
      using sock_wf_lookup [OF swf live(1)] by auto
    let ?h = "(net_heap s)\<lparr>cells := (cells (net_heap s))(a := None)\<rparr>"
    let ?s' = "s\<lparr>net_heap := ?h, g_socket_table := (g_socket_table s)[nat fd := None]\<rparr>"
    have len: "length (g_socket_table s) = 64" using swf by (simp add: sock_wf_def)
    have close: "nova_close fd s = Some (0, ?s')"
      using live free_live [of "net_heap s" a "Sock k"]
      by (simp add: nova_close_def with_socket_def flip: get_sock_cells)
    have look: "nova_socket_lookup fd' ?s' = (if fd' = fd then None else nova_socket_lookup fd' s)" for fd'
      using fd len by (auto simp: nova_socket_lookup_def nth_list_update)
    have get: "get_sock b ?s' = (if b = a then None else get_sock b s)" for b by (simp add: get_sock_def)
    have at: "socket_at ?s' = (socket_at s)(fd := None)"
    proof
      fix fd'
      show "socket_at ?s' fd' = ((socket_at s)(fd := None)) fd'"
      proof (cases "fd' = fd")
        case False
        then have "nova_socket_lookup fd' s \<noteq> Some a" using lookup_inj [OF swf live(1)] by blast
        with False show ?thesis by (auto simp: socket_at_def look get split: option.splits)
      qed (simp add: socket_at_def look)
    qed
    have other: "g_socket_table s ! i \<noteq> Some a" if "i < 64" "i \<noteq> nat fd" for i
    proof -
      have "nat fd < 64" using fd by simp
      with swf tab that show ?thesis unfolding sock_wf_def by blast
    qed
    have "sock_wf ?s'"
      using swf fd other unfolding sock_wf_def
      by (auto simp: nth_list_update get heap_wf_def)
    moreover have "netdev_wf ?s'" using dwf by (rule netdev_wf_frame) simp_all
    moreover have "nova_close fd ?s' = Some (-1, ?s')"
      using look [of fd] by (simp add: nova_close_def with_socket_def)
    ultimately show ?thesis using close live(1,3) at by (simp add: net_wf_def)
  qed
qed

text \<open>
  Claim C20. \<open>nova_close\<close>: a descriptor without a socket gives -1 and changes nothing; closing a socket
  returns 0, frees exactly its block, leaves every other descriptor as it was, and a second close of
  the same descriptor gives -1 instead of freeing twice.
\<close>
theorem socket_close_spec:
  assumes wf: "net_wf s"
  shows "case socket_at s fd of
      None \<Rightarrow> nova_close fd s = Some (-1, s)
    | Some k \<Rightarrow> \<exists>a s'. nova_socket_lookup fd s = Some a \<and> nova_close fd s = Some (0, s') \<and> net_wf s' \<and>
        socket_at s' = (socket_at s)(fd := None) \<and>
        cells (net_heap s') = (cells (net_heap s))(a := None) \<and>
        nova_close fd s' = Some (-1, s')"
  by (rule nova_close_effect [OF wf])

lemma net_wf_init:
  assumes "net_wf s"
  shows "net_wf (snd (nova_network_init s))" "socket_at (snd (nova_network_init s)) = Map.empty"
proof -
  have heap: "heap_wf (net_heap s)" using assms by (simp add: net_wf_def sock_wf_def)
  have "netdev_wf (snd (nova_network_init s))"
    using assms by (simp add: net_wf_def netdev_wf_def nova_network_init_def registered_def)
  with heap show "net_wf (snd (nova_network_init s))"
    by (auto simp: net_wf_def sock_wf_def nova_network_init_def)
  show "socket_at (snd (nova_network_init s)) = Map.empty"
    by (auto simp: fun_eq_iff socket_at_def nova_socket_lookup_def nova_network_init_def)
qed

text \<open>The state in which \<open>nova_socket\<close> does its work: initialised on first use.\<close>

definition ready :: "net_state \<Rightarrow> net_state" where
  "ready s = (if g_network_initialized s then s else snd (nova_network_init s))"

lemma net_wf_ready: "net_wf s \<Longrightarrow> net_wf (ready s)"
  by (simp add: ready_def net_wf_init(1))

lemma ready_initialized [simp]: "g_network_initialized (ready s)"
  by (simp add: ready_def nova_network_init_def)

lemma nova_socket_ready: "nova_socket domain ty protocol s = nova_socket domain ty protocol (ready s)"
proof -
  have "ready (ready s) = ready s" unfolding ready_def [of "ready s"] by simp
  then show ?thesis unfolding nova_socket_def ready_def [symmetric] by simp
qed

lemma sock_wf_new_entry:
  assumes wf: "sock_wf s" and fd: "g_next_socket_fd s < 64" and dead: "get_sock a s = None"
    and h: "heap_wf h" "cells h = (cells (net_heap s))(a \<mapsto> Sock k)" and k: "sk_private_data k = None"
  defines "t \<equiv> s\<lparr>net_heap := h, g_next_socket_fd := g_next_socket_fd s + 1,
      g_socket_table := (g_socket_table s)[g_next_socket_fd s := Some a]\<rparr>"
  shows "sock_wf t" "socket_at s (int (g_next_socket_fd s)) = None"
    "socket_at t = (socket_at s)(int (g_next_socket_fd s) \<mapsto> k)"
proof -
  let ?n = "g_next_socket_fd s"
  have len: "length (g_socket_table s) = 64" and n: "1 \<le> ?n" "g_socket_table s ! ?n = None"
    using wf fd by (auto simp: sock_wf_def)
  have get: "get_sock b t = (if b = a then Some k else get_sock b s)" for b
    using h(2) by (simp add: get_sock_def t_def)
  have fresh: "g_socket_table s ! i \<noteq> Some a" if "i < 64" for i
  proof
    assume "g_socket_table s ! i = Some a"
    with wf that have "\<exists>k. get_sock a s = Some k" unfolding sock_wf_def by blast
    with dead show False by simp
  qed
  have look: "nova_socket_lookup fd' t = (if fd' = int ?n then Some a else nova_socket_lookup fd' s)" for fd'
    using len n fd by (auto simp: nova_socket_lookup_def t_def nth_list_update)
  show "sock_wf t"
    using wf fd h(1) k fresh unfolding sock_wf_def
    by (simp add: get) (auto simp: t_def nth_list_update)
  show "socket_at s (int ?n) = None" using n fd by (simp add: socket_at_def nova_socket_lookup_def)
  show "socket_at t = (socket_at s)(int ?n \<mapsto> k)"
  proof
    fix fd'
    show "socket_at t fd' = ((socket_at s)(int ?n \<mapsto> k)) fd'"
    proof (cases "nova_socket_lookup fd' s")
      case None
      then show ?thesis by (simp add: socket_at_def look get)
    next
      case (Some b)
      then have "g_socket_table s ! nat fd' = Some b" "nat fd' < 64"
        by (auto simp: nova_socket_lookup_def split: if_splits)
      then have "b \<noteq> a" using fresh by blast
      with Some show ?thesis by (simp add: socket_at_def look get)
    qed
  qed
qed

text \<open>A new socket, as the descriptor's owner sees it.\<close>

definition fresh_sock :: "nova_af \<Rightarrow> nova_sock_type \<Rightarrow> int \<Rightarrow> dev_addr option \<Rightarrow> nova_socket_t" where
  "fresh_sock af st protocol dev = \<lparr>sk_family = af, sk_type = st, sk_protocol = protocol, sk_state = 0,
     sk_flags = 0, sk_ops = None, sk_private_data = None, sk_dev = dev\<rparr>"

text \<open>The argument checks of \<open>nova_socket\<close>, the table's capacity included.\<close>

definition socket_refuses :: "int \<Rightarrow> int \<Rightarrow> net_state \<Rightarrow> bool" where
  "socket_refuses domain ty s \<longleftrightarrow> af_of_int domain = None \<or> sock_type_of_int ty = None \<or>
     NOVA_SOCKET_TABLE_SIZE \<le> g_next_socket_fd s"

lemma nova_socket_cases [consumes 1, case_names refused oom made]:
  assumes wf: "net_wf s"
  defines "t \<equiv> ready s"
  obtains (refused) "socket_refuses domain ty t" "nova_socket domain ty protocol s = Some (-1, t)"
  | (oom) t' where "\<not> socket_refuses domain ty t" "calloc_fails (net_heap t) (calloc_calls (net_heap t))"
      "nova_socket domain ty protocol s = Some (-1, t')" "net_wf t'" "socket_at t' = socket_at t"
      "g_next_socket_fd t' = g_next_socket_fd t + 1" "g_network_initialized t'"
  | (made) af st dev t' where "\<not> socket_refuses domain ty t"
      "\<not> calloc_fails (net_heap t) (calloc_calls (net_heap t))"
      "af_of_int domain = Some af" "sock_type_of_int ty = Some st" "nova_netdev_find (Some ''lo'') t = Some dev"
      "nova_socket domain ty protocol s = Some (int (g_next_socket_fd t), t')" "net_wf t'"
      "socket_at t (int (g_next_socket_fd t)) = None"
      "socket_at t' = (socket_at t)(int (g_next_socket_fd t) \<mapsto> fresh_sock af st protocol dev)"
      "g_next_socket_fd t' = g_next_socket_fd t + 1" "g_network_initialized t'"
proof (cases "socket_refuses domain ty t")
  case True
  have "nova_socket domain ty protocol t = Some (-1, t)"
    using True ready_initialized [of s, folded t_def]
    by (auto simp: nova_socket_def socket_refuses_def split: option.split)
  then show ?thesis using refused True nova_socket_ready [of domain ty protocol s, folded t_def] by simp
next
  case ok: False
  then obtain af st where as: "af_of_int domain = Some af" "sock_type_of_int ty = Some st"
    and fd: "g_next_socket_fd t < 64" by (auto simp: socket_refuses_def)
  have wft: "net_wf t" "sock_wf t" "netdev_wf t" "heap_wf (net_heap t)" and init: "g_network_initialized t"
    using net_wf_ready [OF wf, folded t_def] ready_initialized [of s, folded t_def]
    by (simp_all add: net_wf_def sock_wf_def)
  note eq = nova_socket_ready [of domain ty protocol s, folded t_def]
  let ?h = "net_heap t"
  show ?thesis
  proof (cases "calloc_fails ?h (calloc_calls ?h)")
    case True
    let ?t' = "t\<lparr>g_next_socket_fd := g_next_socket_fd t + 1, net_heap := ?h\<lparr>calloc_calls := Suc (calloc_calls ?h)\<rparr>\<rparr>"
    have "nova_socket domain ty protocol s = Some (-1, ?t')"
      unfolding eq using True as fd init by (simp add: nova_socket_def calloc_def)
    moreover have get: "get_sock a ?t' = get_sock a t" for a by (simp add: get_sock_def)
    moreover have "sock_wf ?t'" using wft(2) fd unfolding sock_wf_def get by (simp add: heap_wf_def)
    moreover have "netdev_wf ?t'" using wft(3) by (rule netdev_wf_frame) simp_all
    moreover have "socket_at ?t' = socket_at t"
      unfolding fun_eq_iff socket_at_def get by (simp add: nova_socket_lookup_def)
    ultimately show ?thesis using oom [of ?t'] ok True init by (simp add: net_wf_def)
  next
    case False
    obtain dev where dev: "nova_netdev_find (Some ''lo'') t = Some dev" using netdev_wf_find [OF wft(3)] by blast
    let ?a = "next_addr ?h" and ?k = "fresh_sock af st protocol dev"
    let ?h' = "store ?a (Sock ?k) (snd (calloc (Sock zero_sock) ?h))"
    let ?t' = "t\<lparr>net_heap := ?h', g_next_socket_fd := g_next_socket_fd t + 1,
      g_socket_table := (g_socket_table t)[g_next_socket_fd t := Some ?a]\<rparr>"
    have "nova_socket domain ty protocol s = Some (int (g_next_socket_fd t), ?t')"
      unfolding eq using False as fd dev init
      by (simp add: nova_socket_def calloc_ok fresh_sock_def put_sock_def Let_def)
    moreover have h': "heap_wf ?h'" "cells ?h' = (cells ?h)(?a \<mapsto> Sock ?k)"
      using False heap_wf_calloc [OF wft(4)] by (auto simp: calloc_ok intro!: heap_wf_store)
    moreover have "get_sock ?a t = None" using wft(4) by (simp add: get_sock_def heap_wf_fresh)
    note new = sock_wf_new_entry [OF wft(2) fd this h'] 
    moreover have "netdev_wf ?t'" using wft(3) by (rule netdev_wf_frame) simp_all
    ultimately show ?thesis using made [OF ok False as dev, of ?t'] init by (simp add: net_wf_def fresh_sock_def)
  qed
qed

text \<open>The socket table as a table of handles: what a request asks for, and what it inserts.\<close>

type_synonym socket_view = "nova_af \<times> nova_sock_type \<times> int \<times> int"

definition socket_view_at :: "net_state \<Rightarrow> int \<Rightarrow> socket_view option" where
  "socket_view_at s fd =
     map_option (\<lambda>k. (sk_family k, sk_type k, sk_protocol k, sk_state k)) (socket_at s fd)"

definition socket_ins :: "int \<times> int \<times> int \<Rightarrow> net_state \<Rightarrow> (net_state \<times> int) option" where
  "socket_ins req s =
     (case req of (domain, ty, protocol) \<Rightarrow>
        (case nova_socket domain ty protocol s of
           Some (fd, s') \<Rightarrow> if fd = -1 then None else Some (s', fd)
         | None \<Rightarrow> None))"

definition socket_entry :: "int \<times> int \<times> int \<Rightarrow> int \<Rightarrow> socket_view" where
  "socket_entry req fd =
     (case req of (domain, ty, protocol) \<Rightarrow>
        (the (af_of_int domain), the (sock_type_of_int ty), protocol, 0))"

definition net_up :: "net_state \<Rightarrow> bool" where
  "net_up s \<longleftrightarrow> net_wf s \<and> g_network_initialized s"

lemma ready_up [simp]: "g_network_initialized s \<Longrightarrow> ready s = s"
  by (simp add: ready_def)

lemma socket_ins_made:
  assumes up: "net_up s" and ins: "socket_ins req s = Some (s', fd)"
  shows "net_up s'" "socket_view_at s fd = None"
    "socket_view_at s' = (socket_view_at s)(fd \<mapsto> socket_entry req fd)"
proof -
  obtain domain ty protocol where req: "req = (domain, ty, protocol)" by (cases req)
  have wf: "net_wf s" and r: "ready s = s" using up by (simp_all add: net_up_def)
  from wf have "net_up s' \<and> socket_view_at s fd = None \<and>
      socket_view_at s' = (socket_view_at s)(fd \<mapsto> socket_entry req fd)"
  proof (cases rule: nova_socket_cases [of s domain ty protocol])
    case (made af st dev t')
    then have "s' = t'" "fd = int (g_next_socket_fd s)"
      using ins req r by (auto simp: socket_ins_def)
    with made r req show ?thesis
      by (simp add: net_up_def socket_view_at_def fun_eq_iff socket_entry_def fresh_sock_def)
  qed (use ins req in \<open>simp_all add: socket_ins_def\<close>)
  then show "net_up s'" "socket_view_at s fd = None"
    "socket_view_at s' = (socket_view_at s)(fd \<mapsto> socket_entry req fd)" by simp_all
qed

interpretation sock_table: handle_table net_up socket_view_at socket_ins socket_entry
  by unfold_locales (auto intro: socket_ins_made(1,2), rule socket_ins_made(3))

text \<open>
  Claim C19. \<open>nova_socket\<close> on every branch: an unknown family or type, or a spent descriptor counter,
  gives -1 with nothing changed but first-use initialisation; a failed allocation gives -1, loses the
  descriptor number and leaves every socket as it was; otherwise the next descriptor is returned,
  it had no socket, now stands for a fresh one with the arguments' family, type and protocol that
  is routed to whatever is registered as \<open>lo\<close>, and no other descriptor changes.
\<close>
theorem socket_create_spec:
  assumes wf: "net_wf s"
  shows "let t = ready s in
    if socket_refuses domain ty t then nova_socket domain ty protocol s = Some (-1, t)
    else if calloc_fails (net_heap t) (calloc_calls (net_heap t)) then
      \<exists>s'. nova_socket domain ty protocol s = Some (-1, s') \<and> net_wf s' \<and> socket_at s' = socket_at t \<and>
        g_next_socket_fd s' = g_next_socket_fd t + 1
    else \<exists>s' dev af st. nova_socket domain ty protocol s = Some (int (g_next_socket_fd t), s') \<and> net_wf s' \<and>
        af_of_int domain = Some af \<and> sock_type_of_int ty = Some st \<and>
        nova_netdev_find (Some ''lo'') t = Some dev \<and> socket_at t (int (g_next_socket_fd t)) = None \<and>
        socket_at s' = (socket_at t)(int (g_next_socket_fd t) \<mapsto> fresh_sock af st protocol dev) \<and>
        g_next_socket_fd s' = g_next_socket_fd t + 1"
  using wf by (cases rule: nova_socket_cases [of s domain ty protocol]) (simp_all add: Let_def)

text \<open>
  A run of \<open>nova_socket\<close> calls that all succeed, on a stack that is up and has no socket:
  the descriptors are pairwise different, the open descriptors are exactly these, and each stands for
  a socket with the family, type and protocol of its own request.
\<close>
lemma socket_create_all:
  assumes "net_up s" "socket_view_at s = Map.empty" "insert_all socket_ins reqs s = Some (s', fds)"
  shows "net_up s' \<and> distinct fds \<and> dom (socket_view_at s') = set fds \<and>
    socket_view_at s' = map_of (entries socket_entry reqs fds)"
  by (rule sock_table.insert_all_from_empty [OF assms])

subsection \<open>The registry invariant under the device calls\<close>

lemma netdev_wfE:
  assumes "netdev_wf s"
  obtains xs where "registered s xs" "inj_on (dev_name s) (set xs)" "\<forall>d \<in> set xs. own_name d (dev_name s d)"
    "\<forall>d. nd_name (devices s d) ! 0 \<noteq> NUL \<longrightarrow> own_name d (dev_name s d)"
  using assms unfolding netdev_wf_def by blast

text \<open>A change of the list that keeps the names.\<close>

lemma netdev_wf_relink:
  assumes wf: "netdev_wf s" and reg: "registered s xs" and reg': "registered t ys"
    and sub: "set ys \<subseteq> set xs" and names: "\<And>d. nd_name (devices t d) = nd_name (devices s d)"
  shows "netdev_wf t"
proof -
  obtain zs where zs: "registered s zs" "inj_on (dev_name s) (set zs)" "\<forall>d \<in> set zs. own_name d (dev_name s d)"
    "\<forall>d. nd_name (devices s d) ! 0 \<noteq> NUL \<longrightarrow> own_name d (dev_name s d)" using wf by (rule netdev_wfE)
  have "zs = xs" using zs(1) reg plist_unique unfolding registered_def by blast
  then show ?thesis
    using zs reg' sub unfolding netdev_wf_def names by (blast intro: inj_on_subset)
qed

lemma register_wf:
  assumes wf: "netdev_wf s"
  shows "\<exists>r t. nova_netdev_register dev s = Some (r, t) \<and> netdev_wf t \<and> net_heap t = net_heap s \<and>
    g_socket_table t = g_socket_table s \<and> g_next_socket_fd t = g_next_socket_fd s \<and>
    g_network_initialized t = g_network_initialized s"
proof (cases dev)
  case None
  with wf show ?thesis by (simp add: nova_netdev_register_def)
next
  case (Some d)
  obtain xs where xs: "registered s xs" "inj_on (dev_name s) (set xs)" "\<forall>d \<in> set xs. own_name d (dev_name s d)"
    "\<forall>d. nd_name (devices s d) ! 0 \<noteq> NUL \<longrightarrow> own_name d (dev_name s d)" using wf by (rule netdev_wfE)
  from xs(1) show ?thesis
  proof (cases rule: register_cases [of s xs d])
    case refused
    with wf Some show ?thesis by simp
  next
    case (added fl)
    let ?f = "\<lambda>x. x\<lparr>nd_next := g_nova_netdev_registry s, nd_flags := fl\<rparr>"
    let ?t = "(upd_dev d ?f s)\<lparr>g_nova_netdev_registry := Some d\<rparr>"
    have "d \<notin> set xs" using added(2) by auto
    then have reg: "registered ?t (d # xs)" using registered_new_head [OF xs(1), of d ?f] by simp
    have names: "nd_name (devices ?t x) = nd_name (devices s x)" for x by simp
    have "netdev_wf ?t"
      unfolding netdev_wf_def names
      using reg xs(2,3,4) added(1,2) by (intro conjI exI [of _ "d # xs"]) auto
    with added(3) Some show ?thesis by simp
  qed
qed

lemma unregister_wf:
  assumes wf: "netdev_wf s"
  shows "\<exists>r t. nova_netdev_unregister dev s = Some (r, t) \<and> netdev_wf t \<and> net_heap t = net_heap s \<and>
    g_socket_table t = g_socket_table s \<and> g_next_socket_fd t = g_next_socket_fd s \<and>
    g_network_initialized t = g_network_initialized s"
proof (cases dev)
  case None
  with wf show ?thesis by (simp add: nova_netdev_unregister_def)
next
  case (Some d)
  obtain xs where xs: "registered s xs" using wf by (rule netdev_wfE)
  note spec = unregister_loop_spec [of s "[]" xs d "g_nova_netdev_registry s"]
  show ?thesis
  proof (cases "d \<in> set xs")
    case True
    then obtain t where t: "unregister_loop d None (g_nova_netdev_registry s) s = Some (0, t)"
      "registered t (filter (\<lambda>x. x \<noteq> d) xs)" "same_but_links s t"
      using spec xs by (auto simp: registered_def)
    have "netdev_wf t"
      using netdev_wf_relink [OF wf xs t(2)] same_but_links_name [OF t(3)] by auto
    with t(1,3) Some show ?thesis
      unfolding nova_netdev_unregister_def same_but_links_def by simp
  next
    case False
    with spec xs wf Some show ?thesis by (simp add: nova_netdev_unregister_def registered_def)
  qed
qed

lemma network_shutdown_wf:
  assumes wf: "netdev_wf s"
  shows "\<exists>t. nova_network_shutdown s = Some (0, t) \<and> netdev_wf t \<and> net_heap t = net_heap s \<and>
    g_socket_table t = g_socket_table s \<and> g_next_socket_fd t = g_next_socket_fd s \<and> registered t [] \<and>
    \<not> g_network_initialized t"
proof -
  obtain xs where xs: "registered s xs" using wf by (rule netdev_wfE)
  let ?t = "s\<lparr>devices := \<lambda>d. if d \<in> set xs then (devices s d)\<lparr>nd_next := None\<rparr> else devices s d,
    g_nova_netdev_registry := None, g_network_initialized := False\<rparr>"
  have "nova_network_shutdown s = Some (0, ?t)"
    using xs by (simp add: nova_network_shutdown_def registered_def shutdown_loop_spec)
  moreover have "registered ?t []" by (simp add: registered_def)
  moreover have "netdev_wf ?t" using netdev_wf_relink [OF wf xs \<open>registered ?t []\<close>] by simp
  ultimately show ?thesis by simp
qed

lemma static_init_wf:
  assumes wf: "netdev_wf s" and d: "d = Lo_dev \<or> d = Nic_dev"
    and nd: "own_name d (cstr (nd_name nd))" "nd_next nd = None"
  shows "netdev_wf (upd_dev d (\<lambda>_. nd) s)"
proof -
  let ?t = "upd_dev d (\<lambda>_. nd) s"
  obtain xs where xs: "registered s xs" "inj_on (dev_name s) (set xs)" "\<forall>d \<in> set xs. own_name d (dev_name s d)"
    "\<forall>d. nd_name (devices s d) ! 0 \<noteq> NUL \<longrightarrow> own_name d (dev_name s d)" using wf by (rule netdev_wfE)
  have next_t: "nexts (devices ?t) = (nexts (devices s))(d := None)" using nd(2) by (simp add: fun_eq_iff)
  have reg: "\<exists>ys. registered ?t ys \<and> set ys \<subseteq> set xs"
  proof (cases "d \<in> set xs")
    case True
    then obtain as bs where "xs = as @ d # bs" by (auto simp: in_set_conv_decomp)
    with xs(1) plist_cut [of "nexts (devices s)" _ as d bs] next_t
    have "registered ?t (as @ [d])" by (simp add: registered_def)
    with \<open>xs = as @ d # bs\<close> show ?thesis by auto
  next
    case False
    then have "plist (nexts (devices ?t)) (g_nova_netdev_registry s) xs"
      unfolding next_t using xs(1) by (subst plist_cong [of _ _ "nexts (devices s)"]) (auto simp: registered_def)
    then show ?thesis unfolding registered_def by auto
  qed
  have name: "dev_name ?t x = dev_name s x" if "x \<in> set xs" for x
    using that xs(3) nd(1) d by (auto simp: own_name_def)
  from reg obtain ys where ys: "registered ?t ys" "set ys \<subseteq> set xs" by blast
  have "inj_on (dev_name ?t) (set xs)" using xs(2) name by (subst inj_on_cong [of _ _ "dev_name s"]) auto
  moreover have "\<forall>x \<in> set ys. own_name x (dev_name ?t x)" using xs(3) ys(2) nd(1) by auto
  moreover have "\<forall>x. nd_name (devices ?t x) ! 0 \<noteq> NUL \<longrightarrow> own_name x (dev_name ?t x)"
    using xs(4) nd(1) by simp
  ultimately show ?thesis unfolding netdev_wf_def using ys by (blast intro: inj_on_subset)
qed

lemma loopback_init_wf:
  assumes "netdev_wf s"
  shows "\<exists>r t. nova_loopback_init s = Some (r, t) \<and> netdev_wf t \<and> net_heap t = net_heap s \<and>
    g_socket_table t = g_socket_table s \<and> g_next_socket_fd t = g_next_socket_fd s \<and>
    g_network_initialized t = g_network_initialized s"
proof -
  have "cstr (strncpy (replicate 16 NUL) ''lo'' 15) = ''lo''" by code_simp
  then have "netdev_wf (upd_dev Lo_dev (\<lambda>_. zero_netdev\<lparr>nd_name := strncpy (nd_name zero_netdev) ''lo'' (16 - 1),
      nd_mtu := 65536, nd_flags := NOVA_IFF_LOOPBACK OR NOVA_IFF_UP, nd_ops := Some lo_ops\<rparr>) s)"
    by (intro static_init_wf [OF assms]) (simp_all add: zero_netdev_def own_name_def)
  from register_wf [OF this, of "Some Lo_dev"] show ?thesis by (simp add: nova_loopback_init_def)
qed

lemma nic_stub_init_wf:
  assumes "netdev_wf s"
  shows "\<exists>r t. nova_nic_stub_init s = Some (r, t) \<and> netdev_wf t \<and> net_heap t = net_heap s \<and>
    g_socket_table t = g_socket_table s \<and> g_next_socket_fd t = g_next_socket_fd s \<and>
    g_network_initialized t = g_network_initialized s"
proof -
  have "cstr (strncpy (replicate 16 NUL) ''nic0'' 15) = ''nic0''" by code_simp
  then have "netdev_wf (upd_dev Nic_dev (\<lambda>_. zero_netdev\<lparr>nd_name := strncpy (nd_name zero_netdev) ''nic0'' (16 - 1),
      nd_mtu := 1500, nd_flags := NOVA_IFF_UP OR NOVA_IFF_RUNNING,
      nd_mac := [0x02, 0x00, 0x00, 0x00, 0x00, 0x01], nd_ops := Some nic_ops\<rparr>) s)"
    by (intro static_init_wf [OF assms]) (simp_all add: zero_netdev_def own_name_def)
  from register_wf [OF this, of "Some Nic_dev"] show ?thesis by (simp add: nova_nic_stub_init_def)
qed

subsection \<open>The stack as a machine\<close>

text \<open>The calls a client can make, with their arguments.\<close>

datatype net_op =
  Network_init | Network_shutdown | Loopback_init | Nic_stub_init
| Netdev_register "dev_addr option" | Netdev_unregister "dev_addr option" | Netdev_find "string option"
| Socket int int int | Bind int | Connect int | Listen int | Accept int
| Send int "u8 list option" nat | Recv int "u8 list option" nat
| Shutdown int | Getsockopt int | Setsockopt int | Close int

fun net_exec :: "net_op \<Rightarrow> net_state \<Rightarrow> (int \<times> net_state) option" where
  "net_exec Network_init s = Some (nova_network_init s)"
| "net_exec Network_shutdown s = nova_network_shutdown s"
| "net_exec Loopback_init s = nova_loopback_init s"
| "net_exec Nic_stub_init s = nova_nic_stub_init s"
| "net_exec (Netdev_register d) s = nova_netdev_register d s"
| "net_exec (Netdev_unregister d) s = nova_netdev_unregister d s"
| "net_exec (Netdev_find n) s = do { r \<leftarrow> nova_netdev_find n s; Some (0, s) }"
| "net_exec (Socket domain ty protocol) s = nova_socket domain ty protocol s"
| "net_exec (Bind fd) s = nova_bind fd s"
| "net_exec (Connect fd) s = nova_connect fd s"
| "net_exec (Listen fd) s = nova_listen fd s"
| "net_exec (Accept fd) s = nova_accept fd s"
| "net_exec (Send fd buf len) s = nova_send fd buf len s"
| "net_exec (Recv fd buf len) s = do { (r, buf') \<leftarrow> nova_recv fd buf len s; Some (r, s) }"
| "net_exec (Shutdown fd) s = nova_shutdown fd s"
| "net_exec (Getsockopt fd) s = nova_getsockopt fd s"
| "net_exec (Setsockopt fd) s = nova_setsockopt fd s"
| "net_exec (Close fd) s = nova_close fd s"

text \<open>The client's obligation: a buffer is at least as long as the length passed with it.\<close>

fun ok_op :: "net_op \<Rightarrow> bool" where
  "ok_op (Send fd (Some buf) len) \<longleftrightarrow> len \<le> length buf"
| "ok_op (Recv fd (Some buf) len) \<longleftrightarrow> len \<le> length buf"
| "ok_op _ \<longleftrightarrow> True"

text \<open>The static variables at program start; the memory of other drivers' devices is arbitrary.\<close>

definition net_start :: "net_state \<Rightarrow> bool" where
  "net_start s \<longleftrightarrow> heap_wf (net_heap s) \<and> devices s Lo_dev = zero_netdev \<and> devices s Nic_dev = zero_netdev \<and>
     g_nova_netdev_registry s = None \<and> g_socket_table s = replicate NOVA_SOCKET_TABLE_SIZE None \<and>
     g_next_socket_fd s = 1 \<and> \<not> g_network_initialized s"

inductive net_step :: "net_state \<Rightarrow> net_state \<Rightarrow> bool" where
  call: "ok_op op \<Longrightarrow> net_exec op s = Some (r, t) \<Longrightarrow> net_step s t"

inductive_cases net_stepE: "net_step s t"

lemma net_start_wf: "net_start s \<Longrightarrow> net_wf s"
proof -
  assume s: "net_start s"
  then have "sock_wf s" by (auto simp: net_start_def sock_wf_def)
  moreover have "own_name d (dev_name s d)" if "nd_name (devices s d) ! 0 \<noteq> NUL" for d
    using s that by (cases d) (auto simp: net_start_def zero_netdev_def own_name_def)
  then have "netdev_wf s" using s by (auto simp: netdev_wf_def net_start_def registered_def intro!: exI [of _ "[]"])
  ultimately show ?thesis by (simp add: net_wf_def)
qed

subsection \<open>Safety of every sequence of calls\<close>

lemma nova_send_wf:
  assumes wf: "net_wf s" and ok: "ok_op (Send fd buf len)"
  shows "\<exists>r t. nova_send fd buf len s = Some (r, t) \<and> net_wf t"
proof -
  have swf: "sock_wf s" and dwf: "netdev_wf s" using wf by (simp_all add: net_wf_def)
  from swf show ?thesis
  proof (cases rule: socket_at_cases [of s fd])
    case none
    with wf show ?thesis by (simp add: nova_send_def with_socket_def)
  next
    case (live a k)
    show ?thesis
    proof (cases "buf = None \<or> len = 0")
      case True
      with live wf show ?thesis by (auto simp: nova_send_def with_socket_def split: option.splits)
    next
      case False
      then obtain bytes where buf: "buf = Some bytes" "0 < len" "len \<le> length bytes" using ok by auto
      obtain dev where dev: "route k s = Some dev" using route_total [OF dwf] by blast
      let ?s1 = "put_sock a (k\<lparr>sk_dev := dev\<rparr>) s"
      have wf1: "net_wf ?s1"
        using sock_wf_put_sock [OF swf live(2), of "k\<lparr>sk_dev := dev\<rparr>"] live(4) dwf by (simp add: net_wf_def)
      note send = nova_send_eq [OF live(1,2) dev buf(2), of bytes]
      show ?thesis
      proof (cases "case dev of None \<Rightarrow> None | Some d \<Rightarrow> xmit_hook d s")
        case None
        with send buf(1) wf1 show ?thesis by (auto split: option.splits)
      next
        case (Some f)
        then obtain d where d: "dev = Some d" "xmit_hook d s = Some f" by (auto split: option.splits)
        with nova_send_effect [OF wf live(1,2) _ d(2) buf(2,3)] dev buf(1) show ?thesis by blast
      qed
    qed
  qed
qed

lemma sock_wf_same:
  "sock_wf s \<Longrightarrow> net_heap t = net_heap s \<Longrightarrow> g_socket_table t = g_socket_table s \<Longrightarrow>
     g_next_socket_fd t = g_next_socket_fd s \<Longrightarrow> sock_wf t"
  by (rule sock_wf_frame [of s]) (simp_all add: sock_wf_def)

lemma device_call_wf:
  assumes "net_wf s" "\<exists>r t. f s = Some (r, t) \<and> netdev_wf t \<and> net_heap t = net_heap s \<and>
    g_socket_table t = g_socket_table s \<and> g_next_socket_fd t = g_next_socket_fd s \<and>
    g_network_initialized t = g_network_initialized s"
  shows "\<exists>r t. f s = Some (r, t) \<and> net_wf t"
proof -
  obtain r t where t: "f s = Some (r, t)" "netdev_wf t" "net_heap t = net_heap s"
    "g_socket_table t = g_socket_table s" "g_next_socket_fd t = g_next_socket_fd s" using assms(2) by blast
  have "sock_wf t" using assms(1) by (intro sock_wf_same [OF _ t(3-5)]) (simp add: net_wf_def)
  with t show ?thesis by (simp add: net_wf_def)
qed

lemma state_call_wf:
  assumes "net_wf s"
  shows "\<exists>r t. nova_listen fd s = Some (r, t) \<and> net_wf t" "\<exists>r t. nova_shutdown fd s = Some (r, t) \<and> net_wf t"
    "\<exists>r t. nova_connect fd s = Some (r, t) \<and> net_wf t" "\<exists>r t. nova_close fd s = Some (r, t) \<and> net_wf t"
proof -
  show "\<exists>r t. nova_listen fd s = Some (r, t) \<and> net_wf t" "\<exists>r t. nova_shutdown fd s = Some (r, t) \<and> net_wf t"
    "\<exists>r t. nova_connect fd s = Some (r, t) \<and> net_wf t"
    using socket_state_effect [OF assms, of fd] assms by (cases "socket_at s fd", auto)+
  show "\<exists>r t. nova_close fd s = Some (r, t) \<and> net_wf t"
    using nova_close_effect [OF assms, of fd] assms by (cases "socket_at s fd") auto
qed

lemma query_call_wf:
  assumes "net_wf s"
  shows "\<exists>r t. nova_bind fd s = Some (r, t) \<and> net_wf t" "\<exists>r t. nova_accept fd s = Some (r, t) \<and> net_wf t"
    "\<exists>r t. nova_getsockopt fd s = Some (r, t) \<and> net_wf t" "\<exists>r t. nova_setsockopt fd s = Some (r, t) \<and> net_wf t"
  using assms
  by (simp_all add: nova_bind_def nova_accept_def nova_getsockopt_def nova_setsockopt_def with_socket_def
      split: option.split)

lemma nova_socket_wf: "net_wf s \<Longrightarrow> \<exists>r t. nova_socket domain ty protocol s = Some (r, t) \<and> net_wf t"
  by (cases rule: nova_socket_cases [of s domain ty protocol]) (auto intro: net_wf_ready)

lemma net_exec_safe:
  assumes wf: "net_wf s" and ok: "ok_op op"
  shows "\<exists>r t. net_exec op s = Some (r, t) \<and> net_wf t"
proof -
  have dwf: "netdev_wf s" using wf by (simp add: net_wf_def)
  show ?thesis
  proof (cases op)
    case Network_init
    have "net_exec op s = Some (0, snd (nova_network_init s))"
      using Network_init by (simp add: nova_network_init_def)
    then show ?thesis using net_wf_init(1) [OF wf] by blast
  next
    case Network_shutdown
    obtain t where "nova_network_shutdown s = Some (0, t)" "netdev_wf t" "net_heap t = net_heap s"
      "g_socket_table t = g_socket_table s" "g_next_socket_fd t = g_next_socket_fd s"
      using network_shutdown_wf [OF dwf] by blast
    moreover have "sock_wf t" using calculation(3-5) wf by (simp add: net_wf_def sock_wf_same [of s])
    ultimately show ?thesis using Network_shutdown by (simp add: net_wf_def)
  next
    case (Netdev_find n)
    then show ?thesis using netdev_wf_find [OF dwf, of n] wf by auto
  next
    case (Recv fd buf len)
    then show ?thesis using ok wf by (auto simp: nova_recv_def split: option.splits)
  next
    case (Send fd buf len)
    then show ?thesis using nova_send_wf [OF wf] ok by simp
  qed (use wf dwf in \<open>simp_all add: state_call_wf query_call_wf nova_socket_wf device_call_wf
      loopback_init_wf nic_stub_init_wf register_wf unregister_wf\<close>)
qed

interpretation net_machine: invariant_machine net_start net_step net_wf
proof unfold_locales
  show "net_start s \<Longrightarrow> net_wf s" for s by (rule net_start_wf)
  show "net_wf t" if "net_wf s" "net_step s t" for s t
    using that(2)
  proof (rule net_stepE)
    fix op r assume "ok_op op" "net_exec op s = Some (r, t)"
    with net_exec_safe [OF that(1)] show "net_wf t" by fastforce
  qed
qed

subsection \<open>Descriptors are not reused\<close>

abbreviation net_run :: "net_op list \<Rightarrow> net_state \<Rightarrow> (int list \<times> net_state) option" where
  "net_run \<equiv> call_run net_exec"

text \<open>The number of sockets that a run created.\<close>

fun sockets_made :: "net_op list \<Rightarrow> int list \<Rightarrow> nat" where
  "sockets_made (Socket _ _ _ # ops) (r # rs) = (if r = -1 then 0 else 1) + sockets_made ops rs"
| "sockets_made (_ # ops) (r # rs) = sockets_made ops rs"
| "sockets_made _ _ = 0"

text \<open>Calls that neither start nor stop the stack.\<close>

definition session_op :: "net_op \<Rightarrow> bool" where
  "session_op op \<longleftrightarrow> op \<noteq> Network_init \<and> op \<noteq> Network_shutdown \<and> ok_op op"

text \<open>The descriptor counter and the initialised flag are the same in two states.\<close>

definition same_counter :: "net_state \<Rightarrow> net_state \<Rightarrow> bool" where
  "same_counter s t \<longleftrightarrow> g_next_socket_fd t = g_next_socket_fd s \<and>
     g_network_initialized t = g_network_initialized s"

lemma same_counter_refl [simp]: "same_counter s s"
  by (simp add: same_counter_def)

lemma same_counter_upd [simp]:
  "same_counter s (put_sock a k t) = same_counter s t" "same_counter s (put_skb a kb t) = same_counter s t"
  "same_counter s (upd_dev d f t) = same_counter s t" "same_counter s (t\<lparr>net_heap := h\<rparr>) = same_counter s t"
  "same_counter s (t\<lparr>g_socket_table := tab\<rparr>) = same_counter s t"
  by (simp_all add: same_counter_def)

lemma send_counter:
  assumes wf: "net_wf s" and ok: "ok_op (Send fd buf len)" and send: "nova_send fd buf len s = Some (r, t)"
  shows "same_counter s t"
proof -
  have swf: "sock_wf s" and dwf: "netdev_wf s" using wf by (simp_all add: net_wf_def)
  from swf show ?thesis
  proof (cases rule: socket_at_cases [of s fd])
    case none
    with send show ?thesis by (simp add: nova_send_def with_socket_def)
  next
    case (live a k)
    show ?thesis
    proof (cases "buf = None \<or> len = 0")
      case True
      with live send show ?thesis by (auto simp: nova_send_def with_socket_def split: option.splits)
    next
      case False
      then obtain bytes where buf: "buf = Some bytes" "0 < len \<and> len \<le> length bytes" using ok by auto
      obtain dev where dev: "route k s = Some dev" using route_total [OF dwf] by blast
      let ?s1 = "put_sock a (k\<lparr>sk_dev := dev\<rparr>) s"
      note eq = nova_send_eq [OF live(1,2) dev conjunct1 [OF buf(2)], of bytes]
      show ?thesis
      proof (cases "case dev of None \<Rightarrow> None | Some d \<Rightarrow> xmit_hook d s")
        case None
        with eq buf(1) send show ?thesis by (auto split: option.splits)
      next
        case (Some f)
        then obtain d where d: "dev = Some d" "xmit_hook d s = Some f" by (auto split: option.splits)
        have heap: "heap_wf (net_heap ?s1)"
          using sock_wf_put_sock [OF swf live(2), of "k\<lparr>sk_dev := dev\<rparr>"] live(4) by (simp add: sock_wf_def)
        have hook: "xmit_hook d ?s1 = Some f" using d(2) by simp
        have "send_skb bytes len d ?s1 = Some (r, t)" using eq send buf(1) d by simp
        with heap hook buf(2) show ?thesis
          by (cases rule: send_skb_cases [of ?s1 d f len bytes]) auto
      qed
    qed
  qed
qed

lemma session_counter:
  assumes up: "net_up s" and op: "session_op op" and not_socket: "\<nexists>domain ty protocol. op = Socket domain ty protocol"
    and exec: "net_exec op s = Some (r, t)"
  shows "same_counter s t"
proof -
  have wf: "net_wf s" and dwf: "netdev_wf s" using up by (simp_all add: net_up_def net_wf_def)
  show ?thesis
  proof (cases op)
    case Loopback_init
    with loopback_init_wf [OF dwf] exec show ?thesis by (auto simp: same_counter_def)
  next
    case Nic_stub_init
    with nic_stub_init_wf [OF dwf] exec show ?thesis by (auto simp: same_counter_def)
  next
    case (Netdev_register d)
    with register_wf [OF dwf, of d] exec show ?thesis by (auto simp: same_counter_def)
  next
    case (Netdev_unregister d)
    with unregister_wf [OF dwf, of d] exec show ?thesis by (auto simp: same_counter_def)
  next
    case (Send fd buf len)
    with send_counter [OF wf] op exec show ?thesis by (simp add: session_op_def)
  qed (use op not_socket exec in \<open>auto simp: session_op_def bind_eq_Some_conv with_socket_def Let_def
      nova_bind_def nova_connect_def nova_listen_def nova_accept_def nova_shutdown_def nova_getsockopt_def
      nova_setsockopt_def nova_close_def split: option.splits\<close>)
qed

lemma session_step:
  assumes up: "net_up s" and op: "session_op op" and exec: "net_exec op s = Some (r, t)"
  shows "net_up t" "sockets_made (op # ops) (r # rs) + g_next_socket_fd s
    \<le> sockets_made ops rs + g_next_socket_fd t"
proof -
  have wf: "net_wf s" and ready: "ready s = s" and init: "g_network_initialized s"
    using up by (simp_all add: net_up_def)
  have wft: "net_wf t" using net_exec_safe [OF wf, of op] op exec by (auto simp: session_op_def)
  have "net_up t \<and> sockets_made (op # ops) (r # rs) + g_next_socket_fd s
    \<le> sockets_made ops rs + g_next_socket_fd t"
  proof (cases "\<exists>domain ty protocol. op = Socket domain ty protocol")
    case True
    then obtain domain ty protocol where op': "op = Socket domain ty protocol" by blast
    from wf show ?thesis
      using op' exec wft init ready
      by (cases rule: nova_socket_cases [of s domain ty protocol]) (auto simp: net_up_def)
  next
    case False
    then have "sockets_made (op # ops) (r # rs) = sockets_made ops rs" by (cases op) auto
    moreover have "same_counter s t" using session_counter [OF up op False exec] .
    ultimately show ?thesis using wft init by (simp add: net_up_def same_counter_def)
  qed
  then show "net_up t" "sockets_made (op # ops) (r # rs) + g_next_socket_fd s
    \<le> sockets_made ops rs + g_next_socket_fd t" by simp_all
qed

lemma session_run:
  "net_up s \<Longrightarrow> \<forall>op \<in> set ops. session_op op \<Longrightarrow> net_run ops s = Some (rs, t) \<Longrightarrow>
     net_up t \<and> sockets_made ops rs + g_next_socket_fd s \<le> g_next_socket_fd t"
proof (induction ops arbitrary: s rs)
  case (Cons op ops)
  then obtain r s1 rs' where exec: "net_exec op s = Some (r, s1)" and run: "net_run ops s1 = Some (rs', t)"
    and rs: "rs = r # rs'" by (auto split: option.splits)
  have op: "session_op op" using Cons.prems(2) by simp
  have "net_up t \<and> sockets_made ops rs' + g_next_socket_fd s1 \<le> g_next_socket_fd t"
    using Cons.IH [OF session_step(1) [OF Cons.prems(1) op exec] _ run] Cons.prems(2) by simp
  then show ?case using session_step(2) [OF Cons.prems(1) op exec, of ops rs'] rs by simp
qed simp

text \<open>
  Claim C37. Descriptors are never given back: between two initialisations of the stack, any sequence
  of calls creates at most 63 sockets, however many of them it closes in between.
\<close>
theorem socket_descriptors_spent:
  assumes "net_up s" "\<forall>op \<in> set ops. session_op op" "net_run ops s = Some (rs, t)"
  shows "sockets_made ops rs \<le> 63"
proof -
  have "net_up t" "sockets_made ops rs + g_next_socket_fd s \<le> g_next_socket_fd t"
    using session_run [OF assms] by simp_all
  moreover have "1 \<le> g_next_socket_fd s" "g_next_socket_fd t \<le> 64"
    using assms(1) calculation(1) by (simp_all add: net_up_def net_wf_def sock_wf_def)
  ultimately show ?thesis by simp
qed

text \<open>
  Shutting the network down closes no socket: the sockets stay usable, and the next
  \<open>nova_socket\<close> call with valid arguments starts the stack again, clears the table and hands out
  descriptor 1, so that every old socket block is still allocated but no descriptor reaches it.
\<close>
lemma network_shutdown_leaks:
  assumes wf: "net_wf s" and old: "nova_socket_lookup fd s = Some a" and up: "g_network_initialized s"
    and args: "af_of_int domain \<noteq> None" "sock_type_of_int ty \<noteq> None"
    and mem: "\<not> calloc_fails (net_heap s) (calloc_calls (net_heap s))"
  shows "\<exists>t u. nova_network_shutdown s = Some (0, t) \<and> nova_socket_lookup fd t = Some a \<and>
    nova_socket domain ty protocol t = Some (1, u) \<and> dom (socket_at u) = {1} \<and>
    (\<forall>fd'. nova_socket_lookup fd' u \<noteq> Some a) \<and> get_sock a u = get_sock a s \<and> get_sock a s \<noteq> None"
proof -
  have swf: "sock_wf s" and dwf: "netdev_wf s" using wf by (simp_all add: net_wf_def)
  obtain t where t: "nova_network_shutdown s = Some (0, t)" "netdev_wf t" "net_heap t = net_heap s"
    "g_socket_table t = g_socket_table s" "g_next_socket_fd t = g_next_socket_fd s" "registered t []"
    "\<not> g_network_initialized t"
    using network_shutdown_wf [OF dwf] by blast
  have "nova_socket_lookup fd t = nova_socket_lookup fd s" using t(4) by (simp add: nova_socket_lookup_def)
  with old have look: "nova_socket_lookup fd t = Some a" by simp
  have wft: "net_wf t" using t(2) sock_wf_same [OF swf t(3-5)] by (simp add: net_wf_def)
  obtain k where k: "get_sock a s = Some k" using sock_wf_lookup [OF swf old] by blast
  have heap: "heap_wf (net_heap s)" using swf by (simp add: sock_wf_def)
  have "a \<noteq> next_addr (net_heap s)"
    using heap_wf_live [OF heap] k by (auto simp: get_sock_cells)
  obtain af st where as: "af_of_int domain = Some af" "sock_type_of_int ty = Some st" using args by auto
  let ?r = "ready t"
  have ready: "g_socket_table ?r = replicate 64 None" "g_next_socket_fd ?r = 1" "net_heap ?r = net_heap s"
    "g_nova_netdev_registry ?r = None" "g_network_initialized ?r"
    using t(3,7) by (simp_all add: ready_def nova_network_init_def)
  let ?n = "next_addr (net_heap s)"
  let ?u = "?r\<lparr>net_heap := store ?n (Sock (fresh_sock af st protocol None)) (snd (calloc (Sock zero_sock) (net_heap s))),
    g_next_socket_fd := 2, g_socket_table := (replicate 64 None)[1 := Some ?n]\<rparr>"
  have "nova_socket domain ty protocol ?r = Some (1, ?u)"
    using as ready mem
    by (simp add: nova_socket_def calloc_ok nova_netdev_find_def find_loop.simps fresh_sock_def put_sock_def Let_def
        numeral_2_eq_2)
  then have sock: "nova_socket domain ty protocol t = Some (1, ?u)"
    using nova_socket_ready [of domain ty protocol t] by simp
  have look_u: "nova_socket_lookup fd' ?u = (if fd' = 1 then Some ?n else None)" for fd'
    by (auto simp: nova_socket_lookup_def nth_list_update nat_eq_iff)
  have get_u: "get_sock b ?u = (if b = ?n then Some (fresh_sock af st protocol None) else get_sock b s)" for b
    using mem by (simp add: get_sock_def calloc_ok)
  have "dom (socket_at ?u) = {1}" unfolding dom_def socket_at_def look_u get_u by auto
  moreover have "\<forall>fd'. nova_socket_lookup fd' ?u \<noteq> Some a" unfolding look_u using \<open>a \<noteq> ?n\<close> by simp
  moreover have "get_sock a ?u = get_sock a s" unfolding get_u using \<open>a \<noteq> ?n\<close> by simp
  ultimately show ?thesis using t(1) look sock k by (intro exI conjI) simp_all
qed

subsection \<open>Witnesses\<close>

text \<open>The stack of \<open>Nova_Net\<close> that is up, with one datagram socket, descriptor 1.\<close>

definition demo_sock_net :: net_state where
  "demo_sock_net = snd (the (nova_socket 2 2 0 demo_net))"

lemma cold_net_start: "net_start cold_net"
  by (simp add: net_start_def cold_net_def heap_wf_def)

lemma demo_net_reach: "reach net_start net_step demo_net"
proof -
  let ?s1 = "snd (nova_network_init cold_net)"
  let ?s2 = "snd (the (nova_loopback_init ?s1))"
  have s1: "net_exec Network_init cold_net = Some (0, ?s1)" by (simp add: nova_network_init_def)
  have r1: "map_option fst (nova_loopback_init ?s1) = Some 0" and
    r2: "map_option fst (nova_nic_stub_init ?s2) = Some 0" by code_simp+
  have s2: "net_exec Loopback_init ?s1 = Some (0, ?s2)" using r1 by auto
  have s3: "net_exec Nic_stub_init ?s2 = Some (0, demo_net)" using r2 unfolding demo_net_def by auto
  have "reach net_start net_step cold_net" by (rule reach_start) (rule cold_net_start)
  then have "reach net_start net_step ?s1" by (rule reach_step) (rule net_step.call [OF _ s1], simp)
  then have "reach net_start net_step ?s2" by (rule reach_step) (rule net_step.call [OF _ s2], simp)
  then show ?thesis by (rule reach_step) (rule net_step.call [OF _ s3], simp)
qed

lemma demo_sock_net_reach: "reach net_start net_step demo_sock_net"
proof -
  have "map_option fst (nova_socket 2 2 0 demo_net) = Some 1" by code_simp
  then have "net_exec (Socket 2 2 0) demo_net = Some (1, demo_sock_net)" unfolding demo_sock_net_def by auto
  then have "net_step demo_net demo_sock_net" by (intro net_step.call [of "Socket 2 2 0"]) simp_all
  with demo_net_reach show ?thesis by (rule reach_step)
qed

lemma demo_wf: "net_wf demo_net" "net_wf demo_sock_net"
  using net_machine.reach_inv demo_net_reach demo_sock_net_reach by blast+

theorem socket_send_spec_witness:
  "\<exists>s'. nova_send 1 (Some [7, 8, 9]) 3 demo_sock_net = Some (3, s') \<and>
     rx_packets (nd_stats (devices s' Lo_dev)) = 2 \<and> tx_packets (nd_stats (devices s' Lo_dev)) = 1"
proof -
  have "nova_socket_lookup 1 demo_sock_net = Some 0"
    "get_sock 0 demo_sock_net = Some (fresh_sock NOVA_AF_INET NOVA_SOCK_DGRAM 0 (Some Lo_dev))"
    "route (fresh_sock NOVA_AF_INET NOVA_SOCK_DGRAM 0 (Some Lo_dev)) demo_sock_net = Some (Some Lo_dev)"
    "xmit_hook Lo_dev demo_sock_net = Some Lo_start_xmit" "\<not> skb_oom demo_sock_net"
    "nd_stats (devices demo_sock_net Lo_dev) = zero_stats" by code_simp+
  then show ?thesis
    using socket_send_spec [OF demo_wf(2), of 1 0 _ Lo_dev Lo_start_xmit 3 "[7, 8, 9]"]
    by (auto simp: count_rx_def count_tx_def zero_stats_def)
qed

theorem socket_close_spec_witness:
  "\<exists>s'. nova_close 1 demo_sock_net = Some (0, s') \<and> nova_close 1 s' = Some (-1, s')"
proof -
  have "socket_at demo_sock_net 1 = Some (fresh_sock NOVA_AF_INET NOVA_SOCK_DGRAM 0 (Some Lo_dev))" by code_simp
  then show ?thesis using socket_close_spec [OF demo_wf(2), of 1] by auto
qed

theorem socket_create_spec_witness:
  "\<exists>s'. nova_socket 10 1 6 demo_sock_net = Some (2, s') \<and> nova_socket 3 1 6 demo_sock_net = Some (-1, demo_sock_net)"
proof -
  have "\<not> socket_refuses 10 1 (ready demo_sock_net)" "socket_refuses 3 1 (ready demo_sock_net)"
    "\<not> calloc_fails (net_heap (ready demo_sock_net)) (calloc_calls (net_heap (ready demo_sock_net)))"
    "g_next_socket_fd (ready demo_sock_net) = 2" "g_network_initialized demo_sock_net" by code_simp+
  then show ?thesis
    using socket_create_spec [OF demo_wf(2), of 10 1 6] socket_create_spec [OF demo_wf(2), of 3 1 6]
    by (auto simp: Let_def)
qed

lemma demo_net_up: "net_up demo_net" "socket_view_at demo_net = Map.empty"
proof -
  have init: "g_network_initialized demo_net" and tab: "g_socket_table demo_net = replicate 64 None" by code_simp+
  show "net_up demo_net" using init demo_wf by (simp add: net_up_def)
  show "socket_view_at demo_net = Map.empty"
    by (auto simp: fun_eq_iff socket_view_at_def socket_at_def nova_socket_lookup_def tab)
qed

theorem socket_descriptors_spent_witness:
  "\<exists>rs t. net_run [Socket 2 1 0, Close 1, Socket 2 1 0] demo_net = Some (rs, t) \<and>
     sockets_made [Socket 2 1 0, Close 1, Socket 2 1 0] rs \<le> 63"
proof -
  have "net_run [Socket 2 1 0, Close 1, Socket 2 1 0] demo_net \<noteq> None" by code_simp
  then obtain rs t where run: "net_run [Socket 2 1 0, Close 1, Socket 2 1 0] demo_net = Some (rs, t)" by auto
  have "\<forall>op \<in> set [Socket 2 1 0, Close 1, Socket 2 1 0]. session_op op" by (simp add: session_op_def)
  from socket_descriptors_spent [OF demo_net_up(1) this run] run show ?thesis by blast
qed

end
