(* ===== verification/Nova_Net_Packets.thy ===== *)
theory Nova_Net_Packets
  imports Nova_Sockets
begin

text \<open>
  Every public call of \<open>kernel/network\<close> in one machine: the device and socket calls of
  \<open>Nova_Sockets\<close> and the packet-buffer calls \<open>nova_alloc_skb\<close>, \<open>nova_free_skb\<close>,
  \<open>nova_netif_receive_skb\<close> and \<open>nova_dev_queue_xmit\<close>, with the assignments that a client makes to its own
  packets and device structures in between (as the host test does).  A client that passes live
  packets only can neither make the stack touch dead memory nor make a call hang.
\<close>

subsection \<open>The calls and their contract\<close>

text \<open>The last three are not calls but the client's own stores: to the fields of a packet, to its data
  block, and to a device structure.\<close>

datatype stack_op =
  Call net_op
| Alloc_skb nat | Free_skb "nat option" | Receive_skb "nat option" | Queue_xmit "nat option"
| Fill_skb nat nova_sk_buff | Fill_data nat "u8 list" | Fill_device nat nova_net_device

text \<open>The result is an integer or a pointer; what returns nothing counts as returning 0.\<close>

fun stack_exec :: "stack_op \<Rightarrow> net_state \<Rightarrow> ((int + nat option) \<times> net_state) option" where
  "stack_exec (Call op) s = do { (r, t) \<leftarrow> net_exec op s; Some (Inl r, t) }"
| "stack_exec (Alloc_skb sz) s = do { (p, t) \<leftarrow> nova_alloc_skb sz s; Some (Inr p, t) }"
| "stack_exec (Free_skb p) s = do { t \<leftarrow> nova_free_skb p s; Some (Inl 0, t) }"
| "stack_exec (Receive_skb p) s = do { (r, t) \<leftarrow> nova_netif_receive_skb p s; Some (Inl r, t) }"
| "stack_exec (Queue_xmit p) s = do { (r, t) \<leftarrow> nova_dev_queue_xmit p s; Some (Inl r, t) }"
| "stack_exec (Fill_skb a k) s = Some (Inl 0, put_skb a k s)"
| "stack_exec (Fill_data d bs) s = Some (Inl 0, s\<lparr>net_heap := store d (Bytes bs) (net_heap s)\<rparr>)"
| "stack_exec (Fill_device n d) s = Some (Inl 0, upd_dev (Other_dev n) (\<lambda>_. d) s)"

text \<open>
  The client's obligations: a buffer is at least as long as the length passed with it; a packet that
  is passed is \<open>NULL\<close> or live, that is, allocated and neither freed nor consumed by the NIC since; it
  assigns to live packets only and leaves their data pointers alone; it writes to live data blocks
  within their bounds, and to structures of unregistered devices.
\<close>

fun stack_ok :: "stack_op \<Rightarrow> net_state \<Rightarrow> bool" where
  "stack_ok (Call op) s \<longleftrightarrow> ok_op op"
| "stack_ok (Alloc_skb sz) s \<longleftrightarrow> True"
| "stack_ok (Free_skb p) s \<longleftrightarrow> (case p of None \<Rightarrow> True | Some a \<Rightarrow> get_skb a s \<noteq> None)"
| "stack_ok (Receive_skb p) s \<longleftrightarrow> (case p of None \<Rightarrow> True | Some a \<Rightarrow> get_skb a s \<noteq> None)"
| "stack_ok (Queue_xmit p) s \<longleftrightarrow> (case p of None \<Rightarrow> True | Some a \<Rightarrow> get_skb a s \<noteq> None)"
| "stack_ok (Fill_skb a k) s \<longleftrightarrow> (case get_skb a s of None \<Rightarrow> False | Some k0 \<Rightarrow> skb_data k = skb_data k0)"
| "stack_ok (Fill_data d bs) s \<longleftrightarrow>
     (case cells (net_heap s) d of Some (Bytes old) \<Rightarrow> length bs = length old | _ \<Rightarrow> False)"
| "stack_ok (Fill_device n d) s \<longleftrightarrow> (\<forall>ds. registered s ds \<longrightarrow> Other_dev n \<notin> set ds)"

text \<open>Program start: the static variables, and no packet allocated yet.\<close>

definition stack_start :: "net_state \<Rightarrow> bool" where
  "stack_start s \<longleftrightarrow> net_start s \<and> (\<forall>a. get_skb a s = None)"

inductive stack_step :: "net_state \<Rightarrow> net_state \<Rightarrow> bool" where
  stack_call: "stack_ok op s \<Longrightarrow> stack_exec op s = Some (r, t) \<Longrightarrow> stack_step s t"

inductive_cases stack_stepE: "stack_step s t"

subsection \<open>Packets in memory\<close>

text \<open>Memory without the sockets.\<close>

definition packet_mem :: "net_state \<Rightarrow> nat \<Rightarrow> net_obj option" where
  "packet_mem s a = (case cells (net_heap s) a of Some (Sock k) \<Rightarrow> None | c \<Rightarrow> c)"

text \<open>Every packet has a live data block of its own.\<close>

definition packets_ok :: "(nat \<Rightarrow> net_obj option) \<Rightarrow> bool" where
  "packets_ok m \<longleftrightarrow> (\<forall>a k. m a = Some (Skb k) \<longrightarrow> (\<exists>d bs. skb_data k = Some d \<and> m d = Some (Bytes bs))) \<and>
     (\<forall>a b k l. m a = Some (Skb k) \<longrightarrow> m b = Some (Skb l) \<longrightarrow> skb_data k = skb_data l \<longrightarrow> a = b)"

definition stack_inv :: "net_state \<Rightarrow> bool" where
  "stack_inv s \<longleftrightarrow> net_wf s \<and> packets_ok (packet_mem s)"

lemma packet_mem_skb: "packet_mem s a = Some (Skb k) \<longleftrightarrow> get_skb a s = Some k"
  "packet_mem s a = Some (Bytes bs) \<longleftrightarrow> cells (net_heap s) a = Some (Bytes bs)"
  by (auto simp: packet_mem_def get_skb_def split: option.splits net_obj.splits)

lemma packets_okE:
  assumes "packets_ok m" "m a = Some (Skb k)"
  obtains d bs where "skb_data k = Some d" "m d = Some (Bytes bs)"
  using assms unfolding packets_ok_def by blast

lemma packets_ok_own: "packets_ok m \<Longrightarrow> m a = Some (Skb k) \<Longrightarrow> m b = Some (Skb l) \<Longrightarrow> skb_data k = skb_data l \<Longrightarrow> a = b"
  unfolding packets_ok_def by blast

text \<open>Fewer packets, with the same data pointers, whose data blocks stay.\<close>

lemma packets_ok_sub:
  assumes ok: "packets_ok m"
    and old: "\<And>a k. m' a = Some (Skb k) \<Longrightarrow> \<exists>l. m a = Some (Skb l) \<and> skb_data l = skb_data k"
    and data: "\<And>a k d bs. m' a = Some (Skb k) \<Longrightarrow> skb_data k = Some d \<Longrightarrow> m d = Some (Bytes bs) \<Longrightarrow> \<exists>bs'. m' d = Some (Bytes bs')"
  shows "packets_ok m'"
  unfolding packets_ok_def
proof (intro conjI allI impI)
  fix a k assume a: "m' a = Some (Skb k)"
  then obtain l where l: "m a = Some (Skb l)" "skb_data l = skb_data k" using old by blast
  obtain d bs where d: "skb_data l = Some d" "m d = Some (Bytes bs)" using ok l(1) by (rule packets_okE)
  then have "skb_data k = Some d" using l(2) by simp
  with data [OF a this d(2)] show "\<exists>d bs. skb_data k = Some d \<and> m' d = Some (Bytes bs)" by auto
next
  fix a b k l assume ab: "m' a = Some (Skb k)" "m' b = Some (Skb l)" and eq: "skb_data k = skb_data l"
  obtain k' l' where "m a = Some (Skb k')" "skb_data k' = skb_data k" "m b = Some (Skb l')" "skb_data l' = skb_data l"
    using old [OF ab(1)] old [OF ab(2)] by blast
  with packets_ok_own [OF ok] eq show "a = b" by metis
qed

lemma packets_ok_drop:
  assumes ok: "packets_ok m" and a: "m a = Some (Skb k)" "skb_data k = Some d"
  shows "packets_ok (m(d := None, a := None))"
proof (rule packets_ok_sub [OF ok])
  fix b l assume "(m(d := None, a := None)) b = Some (Skb l)"
  then show "\<exists>l'. m b = Some (Skb l') \<and> skb_data l' = skb_data l" by (auto split: if_splits)
next
  fix b l e bs assume b: "(m(d := None, a := None)) b = Some (Skb l)" and e: "skb_data l = Some e" "m e = Some (Bytes bs)"
  have "m b = Some (Skb l)" "b \<noteq> a" using b by (auto split: if_splits)
  then have "e \<noteq> d" using packets_ok_own [OF ok a(1), of b l] a(2) e(1) by auto
  moreover have "e \<noteq> a" using e(2) a(1) by auto
  ultimately show "\<exists>bs'. (m(d := None, a := None)) e = Some (Bytes bs')" using e(2) by simp
qed

lemma packets_ok_fill:
  assumes ok: "packets_ok m" and a: "m a = Some (Skb k)" "skb_data k' = skb_data k"
  shows "packets_ok (m(a \<mapsto> Skb k'))"
proof (rule packets_ok_sub [OF ok])
  fix b l assume "(m(a \<mapsto> Skb k')) b = Some (Skb l)"
  then show "\<exists>l'. m b = Some (Skb l') \<and> skb_data l' = skb_data l" using a by (auto split: if_splits)
next
  fix b l e bs assume "m e = Some (Bytes bs)"
  then show "\<exists>bs'. (m(a \<mapsto> Skb k')) e = Some (Bytes bs')" using a(1) by auto
qed

lemma packets_ok_data:
  assumes ok: "packets_ok m" and d: "m d = Some (Bytes old)"
  shows "packets_ok (m(d \<mapsto> Bytes bs))"
proof (rule packets_ok_sub [OF ok])
  fix b l assume "(m(d \<mapsto> Bytes bs)) b = Some (Skb l)"
  then show "\<exists>l'. m b = Some (Skb l') \<and> skb_data l' = skb_data l" by (auto split: if_splits)
qed auto

text \<open>A new packet and its data block.\<close>

lemma packets_ok_pair:
  assumes ok: "packets_ok m" and new: "m n = None" "m (Suc n) = None" and k: "skb_data k = Some (Suc n)"
  shows "packets_ok (m(n \<mapsto> Skb k, Suc n \<mapsto> Bytes bs))"
  unfolding packets_ok_def
proof (intro conjI allI impI)
  let ?m = "m(n \<mapsto> Skb k, Suc n \<mapsto> Bytes bs)"
  have old: "m a = Some (Skb l)" if "?m a = Some (Skb l)" "a \<noteq> n" for a l using that by (auto split: if_splits)
  have elsewhere: "d \<noteq> n \<and> d \<noteq> Suc n" if "m d = Some (Bytes cs)" for d cs using that new by auto
  show "\<exists>d cs. skb_data l = Some d \<and> ?m d = Some (Bytes cs)" if a: "?m a = Some (Skb l)" for a l
  proof (cases "a = n")
    case True
    with a k show ?thesis by simp
  next
    case False
    obtain d cs where d: "skb_data l = Some d" "m d = Some (Bytes cs)" using ok old [OF a False] by (rule packets_okE)
    with elsewhere [OF d(2)] show ?thesis by simp
  qed
  have fresh: "skb_data l \<noteq> Some (Suc n)" if a: "?m a = Some (Skb l)" "a \<noteq> n" for a l
  proof -
    obtain d cs where d: "skb_data l = Some d" "m d = Some (Bytes cs)" using ok old [OF a] by (rule packets_okE)
    with elsewhere [OF d(2)] show ?thesis by simp
  qed
  have here: "l = k" if "?m n = Some (Skb l)" for l using that by simp
  show "a = b" if a: "?m a = Some (Skb l)" and b: "?m b = Some (Skb l')" and eq: "skb_data l = skb_data l'" for a b l l'
  proof (cases "a = n \<or> b = n")
    case True
    with fresh [OF a] fresh [OF b] here a b eq k show ?thesis by metis
  next
    case False
    with packets_ok_own [OF ok old [OF a] old [OF b] eq] show ?thesis by simp
  qed
qed

subsection \<open>Device and socket calls leave the packets of others alone\<close>

lemma packet_mem_heap: "net_heap t = net_heap s \<Longrightarrow> packet_mem t = packet_mem s"
  by (simp add: packet_mem_def fun_eq_iff)

lemma packet_mem_put_sock: "get_sock a s = Some k \<Longrightarrow> packet_mem (put_sock a k' s) = packet_mem s"
  by (auto simp: packet_mem_def get_sock_cells fun_eq_iff)

lemma packet_mem_cells: "packet_mem (s\<lparr>net_heap := h\<rparr>) = packet_mem s" if "cells h = cells (net_heap s)"
  using that by (simp add: packet_mem_def fun_eq_iff)

lemma send_packets:
  assumes wf: "net_wf s" and ok: "ok_op (Send fd buf len)" and mem: "packets_ok (packet_mem s)"
    and send: "nova_send fd buf len s = Some (r, t)"
  shows "packets_ok (packet_mem t)"
proof -
  have swf: "sock_wf s" and dwf: "netdev_wf s" using wf by (simp_all add: net_wf_def)
  from swf show ?thesis
  proof (cases rule: socket_at_cases [of s fd])
    case none
    with send mem show ?thesis by (simp add: nova_send_def with_socket_def)
  next
    case (live a k)
    show ?thesis
    proof (cases "buf = None \<or> len = 0")
      case True
      with live send mem show ?thesis by (auto simp: nova_send_def with_socket_def split: option.splits)
    next
      case False
      then obtain bytes where buf: "buf = Some bytes" "0 < len \<and> len \<le> length bytes" using ok by auto
      obtain dev where dev: "route k s = Some dev" using route_total [OF dwf] by blast
      let ?s1 = "put_sock a (k\<lparr>sk_dev := dev\<rparr>) s"
      note eq = nova_send_eq [OF live(1,2) dev conjunct1 [OF buf(2)], of bytes]
      have mem1: "packets_ok (packet_mem ?s1)" using mem by (simp only: packet_mem_put_sock [OF live(2)])
      show ?thesis
      proof (cases "case dev of None \<Rightarrow> None | Some d \<Rightarrow> xmit_hook d s")
        case None
        then have "t = ?s1" using eq buf(1) send by (auto split: option.splits)
        with mem1 show ?thesis by simp
      next
        case (Some f)
        then obtain d where d: "dev = Some d" "xmit_hook d s = Some f" by (auto split: option.splits)
        have heap: "heap_wf (net_heap ?s1)"
          using sock_wf_put_sock [OF swf live(2), of "k\<lparr>sk_dev := dev\<rparr>"] live(4) by (simp add: sock_wf_def)
        have hook: "xmit_hook d ?s1 = Some f" using d(2) by simp
        have skb: "send_skb bytes len d ?s1 = Some (r, t)" using eq send buf(1) d by simp
        from heap hook buf(2) show ?thesis
        proof (cases rule: send_skb_cases [of ?s1 d f len bytes])
          case (failed h)
          with skb mem1 packet_mem_cells [of h ?s1] show ?thesis by simp
        next
          case (nic h)
          have "packet_mem t = packet_mem ?s1"
            using skb nic(3,4) by (auto simp: packet_mem_def fun_eq_iff)
          with mem1 show ?thesis by simp
        next
          case (lo h n)
          let ?k = "(new_skb (Suc n) len)\<lparr>skb_dev := Some d\<rparr>"
          have "net_heap t = h" using skb lo(3) by auto
          then have "packet_mem t = (packet_mem ?s1)(n \<mapsto> Skb ?k, Suc n \<mapsto> Bytes (take len bytes))"
            using lo(6) by (auto simp: packet_mem_def fun_eq_iff)
          moreover have "packet_mem ?s1 n = None" "packet_mem ?s1 (Suc n) = None"
            using lo(4,5) by (simp_all add: packet_mem_def)
          moreover have "skb_data ?k = Some (Suc n)" by (simp add: new_skb_def)
          ultimately show ?thesis using packets_ok_pair [OF mem1] by metis
        qed
      qed
    qed
  qed
qed

lemma socket_packets:
  assumes wf: "net_wf s" and sock: "nova_socket domain ty protocol s = Some (r, t)"
  shows "packet_mem t = packet_mem s"
proof -
  have heap: "net_heap (ready s) = net_heap s" by (simp add: ready_def nova_network_init_def)
  have dead: "cells (net_heap s) (next_addr (net_heap s)) = None"
    using wf by (simp add: net_wf_def sock_wf_def heap_wf_fresh)
  have "nova_socket domain ty protocol (ready s) = Some (r, t)" using sock nova_socket_ready by metis
  then show ?thesis
    using heap dead ready_initialized [of s]
    by (cases rule: calloc_cases [of "Sock zero_sock" "net_heap s"])
      (auto simp: nova_socket_def Let_def packet_mem_def fun_eq_iff put_sock_def bind_eq_Some_conv split: option.splits if_splits)
qed

lemma close_packets:
  assumes wf: "net_wf s" and close: "nova_close fd s = Some (r, t)"
  shows "packet_mem t = packet_mem s"
proof -
  have "sock_wf s" using wf by (simp add: net_wf_def)
  then show ?thesis
  proof (cases rule: socket_at_cases [of s fd])
    case none
    with close show ?thesis by (simp add: nova_close_def with_socket_def)
  next
    case (live a k)
    then obtain t' where "nova_close fd s = Some (0, t')" "cells (net_heap t') = (cells (net_heap s))(a := None)"
      using nova_close_effect [OF wf, of fd] by auto
    with close live(2) show ?thesis by (auto simp: packet_mem_def get_sock_cells fun_eq_iff)
  qed
qed

lemma state_call_packets:
  assumes wf: "net_wf s" and op: "\<exists>fd. op \<in> {Connect fd, Listen fd, Shutdown fd, Bind fd, Accept fd, Getsockopt fd, Setsockopt fd}" and exec: "net_exec op s = Some (r, t)"
  shows "packet_mem t = packet_mem s"
proof -
  obtain fd where op: "op \<in> {Connect fd, Listen fd, Shutdown fd, Bind fd, Accept fd, Getsockopt fd, Setsockopt fd}"
    using op by blast
  have "sock_wf s" using wf by (simp add: net_wf_def)
  then show ?thesis
  proof (cases rule: socket_at_cases [of s fd])
    case none
    with op exec show ?thesis
      by (auto simp: nova_connect_def nova_listen_def nova_shutdown_def nova_bind_def nova_accept_def
          nova_getsockopt_def nova_setsockopt_def with_socket_def)
  next
    case (live a k)
    note put = packet_mem_put_sock [OF live(2)]
    show ?thesis
      using op exec live(1,2)
      by (auto simp: nova_connect_def nova_listen_def nova_shutdown_def nova_bind_def nova_accept_def
          nova_getsockopt_def nova_setsockopt_def with_socket_def put bind_eq_Some_conv Let_def split: option.splits)
  qed
qed

lemma net_exec_packets:
  assumes wf: "net_wf s" and ok: "ok_op op" and mem: "packets_ok (packet_mem s)" and exec: "net_exec op s = Some (r, t)"
  shows "packets_ok (packet_mem t)"
proof -
  have dwf: "netdev_wf s" using wf by (simp add: net_wf_def)
  have same: ?thesis if "packet_mem t = packet_mem s" using mem that by simp
  show ?thesis
  proof (cases op)
    case Network_init
    with exec show ?thesis by (intro same packet_mem_heap) (auto simp: nova_network_init_def)
  next
    case Network_shutdown
    with exec show ?thesis by (intro same packet_mem_heap) (auto simp: nova_network_shutdown_def bind_eq_Some_conv)
  next
    case Loopback_init
    with exec loopback_init_wf [OF dwf] show ?thesis by (intro same packet_mem_heap) auto
  next
    case Nic_stub_init
    with exec nic_stub_init_wf [OF dwf] show ?thesis by (intro same packet_mem_heap) auto
  next
    case (Netdev_register d)
    with exec register_wf [OF dwf, of d] show ?thesis by (intro same packet_mem_heap) auto
  next
    case (Netdev_unregister d)
    with exec unregister_wf [OF dwf, of d] show ?thesis by (intro same packet_mem_heap) auto
  next
    case (Socket domain ty protocol)
    with exec show ?thesis by (intro same socket_packets [OF wf]) simp
  next
    case (Close fd)
    with exec show ?thesis by (intro same close_packets [OF wf]) simp
  next
    case (Send fd buf len)
    with exec ok send_packets [OF wf _ mem] show ?thesis by simp
  qed (use exec mem state_call_packets [OF wf _ exec] in \<open>auto simp: bind_eq_Some_conv\<close>)
qed

subsection \<open>The packet calls\<close>

lemma stack_invD:
  assumes "stack_inv s"
  shows "net_wf s" "sock_wf s" "netdev_wf s" "heap_wf (net_heap s)" "packets_ok (packet_mem s)"
  using assms by (simp_all add: stack_inv_def net_wf_def sock_wf_def)

text \<open>A store to a block that is not a socket, and a change of statistics, keep the invariant of
  devices and sockets.\<close>

lemma net_wf_packets:
  assumes "net_wf s" "heap_wf h" "\<And>a k. cells (net_heap s) a = Some (Sock k) \<Longrightarrow> cells h a = Some (Sock k)"
    and "g_socket_table t = g_socket_table s" "g_next_socket_fd t = g_next_socket_fd s" "netdev_wf t"
  shows "net_wf (t\<lparr>net_heap := h\<rparr>)"
proof -
  have "sock_wf (t\<lparr>net_heap := h\<rparr>)"
  proof (rule sock_wf_frame [of s])
    show "sock_wf s" using assms(1) by (simp add: net_wf_def)
    show "cells (net_heap (t\<lparr>net_heap := h\<rparr>)) a = Some (Sock k)" if "cells (net_heap s) a = Some (Sock k)" for a k
      using assms(3) [OF that] by simp
  qed (simp_all add: assms(2,4,5))
  with assms(6) show ?thesis by (simp add: net_wf_def)
qed

lemma stack_inv_store:
  assumes inv: "stack_inv s" and old: "packet_mem s a \<noteq> None" and new: "\<And>k. obj \<noteq> Sock k"
    and mem: "packets_ok ((packet_mem s)(a \<mapsto> obj))"
  shows "stack_inv (s\<lparr>net_heap := store a obj (net_heap s)\<rparr>)"
proof -
  have a: "cells (net_heap s) a \<noteq> None" "\<And>k. cells (net_heap s) a \<noteq> Some (Sock k)"
    using old by (auto simp: packet_mem_def split: option.splits net_obj.splits)
  have "packet_mem (s\<lparr>net_heap := store a obj (net_heap s)\<rparr>) = (packet_mem s)(a \<mapsto> obj)"
    using new by (auto simp: packet_mem_def fun_eq_iff split: net_obj.split)
  moreover have "net_wf (s\<lparr>net_heap := store a obj (net_heap s)\<rparr>)"
    using stack_invD [OF inv] a by (intro net_wf_packets) (auto intro: heap_wf_store)
  ultimately show ?thesis using mem by (simp add: stack_inv_def)
qed

lemma stack_inv_put_skb:
  assumes inv: "stack_inv s" and k: "get_skb a s = Some k" "skb_data k' = skb_data k"
  shows "stack_inv (put_skb a k' s)"
  unfolding put_skb_def
proof (rule stack_inv_store [OF inv])
  have a: "packet_mem s a = Some (Skb k)" using k(1) by (simp add: packet_mem_skb)
  then show "packet_mem s a \<noteq> None" by simp
  show "packets_ok ((packet_mem s)(a \<mapsto> Skb k'))" by (rule packets_ok_fill [OF stack_invD(5) [OF inv] a k(2)])
qed simp

text \<open>Statistics.\<close>

lemma stack_inv_upd_dev:
  assumes inv: "stack_inv s" and f: "\<And>x. nd_name (f x) = nd_name x \<and> nd_next (f x) = nd_next x"
  shows "stack_inv (upd_dev d f s)"
proof -
  have "netdev_wf (upd_dev d f s)" using f by (intro netdev_wf_frame [OF stack_invD(3) [OF inv]]) simp_all
  moreover have "sock_wf (upd_dev d f s)" by (rule sock_wf_same [OF stack_invD(2) [OF inv]]) simp_all
  moreover have "packet_mem (upd_dev d f s) = packet_mem s" by (rule packet_mem_heap) simp
  ultimately show ?thesis using inv by (simp add: stack_inv_def net_wf_def)
qed

text \<open>Releasing a live packet: both blocks are live, so it returns, and the packet is dead then.\<close>

lemma live_packet:
  assumes inv: "stack_inv s" and k: "get_skb a s = Some k"
  obtains d where "skb_data k = Some d" "d \<noteq> a" "cells (net_heap s) d \<noteq> None" "\<And>x. cells (net_heap s) d \<noteq> Some (Sock x)"
proof -
  have a: "packet_mem s a = Some (Skb k)" using k by (simp add: packet_mem_skb)
  obtain d bs where d: "skb_data k = Some d" "packet_mem s d = Some (Bytes bs)"
    using stack_invD(5) [OF inv] a by (rule packets_okE)
  moreover have "d \<noteq> a" using a d(2) by auto
  ultimately show ?thesis using that [of d] by (simp add: packet_mem_skb)
qed

lemma stack_inv_drop:
  assumes inv: "stack_inv s" and k: "get_skb a s = Some k" "skb_data k = Some d"
  shows "stack_inv (s\<lparr>net_heap := (net_heap s)\<lparr>cells := (cells (net_heap s))(d := None, a := None)\<rparr>\<rparr>)"
proof -
  let ?h = "(net_heap s)\<lparr>cells := (cells (net_heap s))(d := None, a := None)\<rparr>"
  obtain e where "skb_data k = Some e" "\<And>x. cells (net_heap s) e \<noteq> Some (Sock x)" using live_packet [OF inv k(1)] by metis
  then have no_sock: "\<And>x. cells (net_heap s) d \<noteq> Some (Sock x)" "\<And>x. cells (net_heap s) a \<noteq> Some (Sock x)"
    using k by (auto simp: get_skb_cells)
  then have "net_wf (s\<lparr>net_heap := ?h\<rparr>)"
    using stack_invD [OF inv] by (intro net_wf_packets) (auto simp: heap_wf_def)
  moreover have "packet_mem (s\<lparr>net_heap := ?h\<rparr>) = (packet_mem s)(d := None, a := None)"
    by (auto simp: packet_mem_def fun_eq_iff)
  moreover have "packets_ok ((packet_mem s)(d := None, a := None))"
    using k by (intro packets_ok_drop [OF stack_invD(5) [OF inv]]) (simp_all add: packet_mem_skb)
  ultimately show ?thesis by (simp add: stack_inv_def)
qed

lemma free_skb_safe:
  assumes inv: "stack_inv s" and k: "get_skb a s = Some k"
  shows "\<exists>t. nova_free_skb (Some a) s = Some t \<and> stack_inv t \<and> get_skb a t = None \<and> nova_free_skb (Some a) t = None"
proof -
  obtain d where d: "skb_data k = Some d" "d \<noteq> a" "cells (net_heap s) d \<noteq> None" using live_packet [OF inv k] by metis
  let ?t = "s\<lparr>net_heap := (net_heap s)\<lparr>cells := (cells (net_heap s))(d := None, a := None)\<rparr>\<rparr>"
  have "get_skb a ?t = None" by (simp add: get_skb_def)
  moreover from this have "nova_free_skb (Some a) ?t = None" by (simp add: nova_free_skb_def)
  ultimately show ?thesis using free_skb_live [OF k d] stack_inv_drop [OF inv k d(1)] by blast
qed

lemma alloc_skb_safe:
  assumes inv: "stack_inv s"
  shows "\<exists>p t. nova_alloc_skb sz s = Some (p, t) \<and> stack_inv t"
proof -
  note wf = stack_invD [OF inv]
  from wf(4) show ?thesis
  proof (cases rule: alloc_skb_cases [of s sz])
    case (failed h)
    have "net_wf (s\<lparr>net_heap := h\<rparr>)" using failed wf by (intro net_wf_packets) simp_all
    with failed wf(5) packet_mem_cells [OF failed(2)] show ?thesis by (simp add: stack_inv_def)
  next
    case (fresh h n)
    let ?bs = "replicate (if sz = 0 then 1 else sz) 0"
    have dead: "cells (net_heap s) n = None" "cells (net_heap s) (Suc n) = None"
      using wf(4) fresh(2) by (simp_all add: heap_wf_fresh)
    then have "net_wf (s\<lparr>net_heap := h\<rparr>)" using fresh(3,4) wf by (intro net_wf_packets) auto
    moreover have "packet_mem (s\<lparr>net_heap := h\<rparr>) = (packet_mem s)(n \<mapsto> Skb (new_skb (Suc n) sz), Suc n \<mapsto> Bytes ?bs)"
      using fresh(3) by (auto simp: packet_mem_def fun_eq_iff)
    moreover have "packet_mem s n = None" "packet_mem s (Suc n) = None" using dead by (simp_all add: packet_mem_def)
    then have "packets_ok ((packet_mem s)(n \<mapsto> Skb (new_skb (Suc n) sz), Suc n \<mapsto> Bytes ?bs))"
      using wf(5) by (intro packets_ok_pair) (simp_all add: new_skb_def)
    ultimately show ?thesis using fresh(1) by (simp add: stack_inv_def)
  qed
qed

lemma stack_inv_counts:
  assumes "stack_inv s"
  shows "stack_inv (upd_dev d (count_rx len) s)" "stack_inv (upd_dev d (count_tx len) s)"
    "stack_inv (upd_dev d (count_rx len \<circ> count_rx len \<circ> count_tx len) s)"
  using assms by (auto intro!: stack_inv_upd_dev simp: count_rx_def count_tx_def)

lemma receive_safe:
  assumes inv: "stack_inv s" and k: "get_skb a s = Some k"
  shows "\<exists>r t. nova_netif_receive_skb (Some a) s = Some (r, t) \<and> stack_inv t"
proof -
  have "stack_inv (put_skb a (k\<lparr>skb_error := 0\<rparr>) t)" if "stack_inv t" "get_skb a t = Some k" for t
    using that by (intro stack_inv_put_skb) simp_all
  with inv k stack_inv_counts(1) [OF inv] show ?thesis
    by (auto simp: nova_netif_receive_skb_def Let_def split: option.split)
qed

lemma xmit_safe:
  assumes inv: "stack_inv s" and k: "get_skb a s = Some k"
  shows "\<exists>r t. nova_dev_queue_xmit (Some a) s = Some (r, t) \<and> stack_inv t"
proof (cases "case skb_dev k of None \<Rightarrow> None | Some d \<Rightarrow> xmit_hook d s")
  case None
  with inv k show ?thesis by (auto simp: nova_dev_queue_xmit_def split: option.splits)
next
  case (Some f)
  then obtain d where d: "skb_dev k = Some d" "xmit_hook d s = Some f" by (auto split: option.splits)
  obtain b where b: "skb_data k = Some b" "b \<noteq> a" "cells (net_heap s) b \<noteq> None" using live_packet [OF inv k] by metis
  show ?thesis
  proof (cases f)
    case Lo_start_xmit
    have "stack_inv (put_skb a (k\<lparr>skb_error := 0\<rparr>)
        (upd_dev d (count_rx (skb_len k) \<circ> count_rx (skb_len k) \<circ> count_tx (skb_len k)) s))"
      using k by (intro stack_inv_put_skb [OF stack_inv_counts(3) [OF inv]]) simp_all
    with lo_xmit [OF k d(1)] d(2) Lo_start_xmit show ?thesis by simp
  next
    case Nic_start_xmit
    have "stack_inv (upd_dev d (count_tx (skb_len k)) s)" by (rule stack_inv_counts(2) [OF inv])
    from stack_inv_drop [OF this _ b(1), of a] nic_xmit [OF k d(1) _ b] d(2) k Nic_start_xmit show ?thesis by simp
  qed
qed

lemma fill_device_safe:
  assumes inv: "stack_inv s" and n: "\<forall>ds. registered s ds \<longrightarrow> Other_dev n \<notin> set ds"
  shows "stack_inv (upd_dev (Other_dev n) (\<lambda>_. d) s)"
proof -
  let ?t = "upd_dev (Other_dev n) (\<lambda>_. d) s"
  obtain xs where xs: "registered s xs" "inj_on (dev_name s) (set xs)" "\<forall>d \<in> set xs. own_name d (dev_name s d)"
    "\<forall>d. nd_name (devices s d) ! 0 \<noteq> NUL \<longrightarrow> own_name d (dev_name s d)" using stack_invD(3) [OF inv] by (rule netdev_wfE)
  have new: "Other_dev n \<notin> set xs" using n xs(1) by blast
  then have same: "devices ?t x = devices s x" if "x \<in> set xs" for x using that by auto
  have "plist (nexts (devices ?t)) (g_nova_netdev_registry s) xs = plist (nexts (devices s)) (g_nova_netdev_registry s) xs"
    using same by (intro plist_cong) simp
  then have "registered ?t xs" using xs(1) by (simp add: registered_def)
  moreover have "inj_on (dev_name ?t) (set xs)" using xs(2) same by (simp add: inj_on_def)
  moreover have "\<forall>x \<in> set xs. own_name x (dev_name ?t x)" using xs(3) same by simp
  moreover have "\<forall>x. nd_name (devices ?t x) ! 0 \<noteq> NUL \<longrightarrow> own_name x (dev_name ?t x)"
    using xs(4) by (simp add: own_name_def)
  ultimately have "netdev_wf ?t" unfolding netdev_wf_def by blast
  moreover have "sock_wf ?t" by (rule sock_wf_same [OF stack_invD(2) [OF inv]]) simp_all
  moreover have "packet_mem ?t = packet_mem s" by (rule packet_mem_heap) simp
  ultimately show ?thesis using inv by (simp add: stack_inv_def net_wf_def)
qed

subsection \<open>Safety of every sequence of calls\<close>

lemma stack_exec_safe:
  assumes inv: "stack_inv s" and ok: "stack_ok op s"
  shows "\<exists>r t. stack_exec op s = Some (r, t) \<and> stack_inv t"
proof (cases op)
  case (Call c)
  obtain r t where t: "net_exec c s = Some (r, t)" "net_wf t"
    using net_exec_safe [OF stack_invD(1) [OF inv], of c] ok Call by auto
  have "packets_ok (packet_mem t)"
    using net_exec_packets [OF stack_invD(1) [OF inv] _ stack_invD(5) [OF inv] t(1)] ok Call by simp
  with t Call show ?thesis by (simp add: stack_inv_def)
next
  case (Alloc_skb sz)
  with alloc_skb_safe [OF inv, of sz] show ?thesis by auto
next
  case (Free_skb p)
  show ?thesis
  proof (cases p)
    case None
    with Free_skb inv show ?thesis by (simp add: nova_free_skb_def)
  next
    case (Some a)
    then obtain k where "get_skb a s = Some k" using ok Free_skb by auto
    with free_skb_safe [OF inv this] Free_skb Some show ?thesis by auto
  qed
next
  case (Receive_skb p)
  show ?thesis
  proof (cases p)
    case None
    with Receive_skb inv show ?thesis by (simp add: nova_netif_receive_skb_def)
  next
    case (Some a)
    then obtain k where "get_skb a s = Some k" using ok Receive_skb by auto
    with receive_safe [OF inv this] Receive_skb Some show ?thesis by auto
  qed
next
  case (Queue_xmit p)
  show ?thesis
  proof (cases p)
    case None
    with Queue_xmit inv show ?thesis by (simp add: nova_dev_queue_xmit_def)
  next
    case (Some a)
    then obtain k where "get_skb a s = Some k" using ok Queue_xmit by auto
    with xmit_safe [OF inv this] Queue_xmit Some show ?thesis by auto
  qed
next
  case (Fill_skb a k)
  then obtain k0 where "get_skb a s = Some k0" "skb_data k = skb_data k0" using ok by (auto split: option.splits)
  with stack_inv_put_skb [OF inv this] Fill_skb show ?thesis by simp
next
  case (Fill_data d bs)
  then obtain old where "packet_mem s d = Some (Bytes old)"
    using ok by (auto simp: packet_mem_skb split: option.splits net_obj.splits)
  then have "stack_inv (s\<lparr>net_heap := store d (Bytes bs) (net_heap s)\<rparr>)"
    using packets_ok_data [OF stack_invD(5) [OF inv]] by (intro stack_inv_store [OF inv]) simp_all
  with Fill_data show ?thesis by simp
next
  case (Fill_device n d)
  with fill_device_safe [OF inv] ok show ?thesis by simp
qed

lemma stack_start_inv: "stack_start s \<Longrightarrow> stack_inv s"
  by (simp add: stack_start_def stack_inv_def net_start_wf packets_ok_def packet_mem_skb)

interpretation stack_machine: invariant_machine stack_start stack_step stack_inv
proof unfold_locales
  show "stack_start s \<Longrightarrow> stack_inv s" for s by (rule stack_start_inv)
  show "stack_inv t" if "stack_inv s" "stack_step s t" for s t
    using that(2)
  proof (rule stack_stepE)
    fix op r assume "stack_ok op s" "stack_exec op s = Some (r, t)"
    with stack_exec_safe [OF that(1)] show "stack_inv t" by fastforce
  qed
qed

text \<open>
  Claim C1. Safety of the network stack: take any sequence of its public calls from program start
  (devices, sockets and packet buffers, in any order, with any descriptors, names, device structures
  and lengths) in which the client keeps its contract: a buffer is as long as its length says, a
  packet that is passed is \<open>NULL\<close> or live, and between calls the client writes only to live packets,
  within their data blocks, and to structures of unregistered devices, whose hooks are \<open>NULL\<close> or
  functions of the loopback device or the NIC stub.  Under any pattern of allocation failures every
  further such call returns: none reads or frees dead memory and none walks the device list for ever.
  Afterwards every live packet still has a live data block, and no two packets the same.  A freed
  packet is dead, and freeing it again would be undefined, so the contract cannot be dropped.
\<close>
theorem network_stack_safe:
  assumes "reach stack_start stack_step s" "stack_ok op s"
  shows "\<exists>r t. stack_exec op s = Some (r, t) \<and>
    (\<forall>a k. get_skb a t = Some k \<longrightarrow> (\<exists>d bs. skb_data k = Some d \<and> cells (net_heap t) d = Some (Bytes bs))) \<and>
    (\<forall>a b k l. get_skb a t = Some k \<and> get_skb b t = Some l \<and> skb_data k = skb_data l \<longrightarrow> a = b) \<and>
    (\<forall>a. op = Free_skb (Some a) \<longrightarrow> get_skb a t = None \<and> nova_free_skb (Some a) t = None)"
proof -
  have inv: "stack_inv s" by (rule stack_machine.reach_inv [OF assms(1)])
  obtain r t where t: "stack_exec op s = Some (r, t)" "stack_inv t" using stack_exec_safe [OF inv assms(2)] by blast
  have "get_skb a t = None \<and> nova_free_skb (Some a) t = None" if op: "op = Free_skb (Some a)" for a
  proof -
    obtain k where "get_skb a s = Some k" using assms(2) op by auto
    from free_skb_safe [OF inv this] t(1) op show ?thesis by auto
  qed
  with t(1) stack_invD(5) [OF t(2)] show ?thesis unfolding packets_ok_def packet_mem_skb by blast
qed

subsection \<open>Witnesses\<close>

text \<open>A packet allocated, then freed.\<close>

theorem network_stack_safe_witness:
  "\<exists>s t. reach stack_start stack_step s \<and> get_skb 0 s \<noteq> None \<and>
     stack_exec (Free_skb (Some 0)) s = Some (Inl 0, t) \<and> get_skb 0 t = None \<and> nova_free_skb (Some 0) t = None"
proof -
  let ?s = "snd (the (nova_alloc_skb 4 cold_net))"
  have alloc: "map_option fst (nova_alloc_skb 4 cold_net) = Some (Some 0)" and live: "get_skb 0 ?s \<noteq> None"
    by code_simp+
  then have "stack_exec (Alloc_skb 4) cold_net = Some (Inr (Some 0), ?s)" by auto
  then have "stack_step cold_net ?s" by (rule stack_call [rotated]) simp
  moreover have "stack_start cold_net" using cold_net_start by (simp add: stack_start_def get_skb_def cold_net_def)
  then have "reach stack_start stack_step cold_net" by (rule reach_start)
  ultimately have reach: "reach stack_start stack_step ?s" by (rule reach_step [rotated])
  have "stack_ok (Free_skb (Some 0)) ?s" using live by simp
  from network_stack_safe [OF reach this] obtain t where "stack_exec (Free_skb (Some 0)) ?s = Some (Inl 0, t)"
    "get_skb 0 t = None" "nova_free_skb (Some 0) t = None" by (auto simp: bind_eq_Some_conv)
  with reach live show ?thesis by blast
qed

end
