(* ===== verification/Nova_Socket_Api.thy ===== *)
theory Nova_Socket_Api
  imports Nova_Sockets
begin

text \<open>
  The contract of the network calls of \<open>kernel/network\<close>, as a client sees it: an abstract machine
  whose state is what each descriptor stands for, the next descriptor and whether the stack is up.
  Its calls say what is returned and what becomes of that state; the stack of \<open>Nova_Sockets\<close>, with
  its heap, device list and packet buffers, implements it.  Two choices are left to the
  implementation: whether an allocation fails, and whether a transmission gets through.
\<close>

subsection \<open>The specification\<close>

record api_state =
  api_sockets :: "int \<Rightarrow> socket_view option"
  api_next :: nat
  api_up :: bool

definition api_reset :: api_state where
  "api_reset = \<lparr>api_sockets = Map.empty, api_next = 1, api_up = True\<rparr>"

definition api_ready :: "api_state \<Rightarrow> api_state" where
  "api_ready a = (if api_up a then a else api_reset)"

definition open_fd :: "int \<Rightarrow> api_state \<Rightarrow> bool" where
  "open_fd fd a \<longleftrightarrow> fd \<in> dom (api_sockets a)"

text \<open>A call that needs a socket: its result on one, and what it does to the socket's state.\<close>

definition on_socket :: "int \<Rightarrow> api_state \<Rightarrow> int \<Rightarrow> (socket_view \<Rightarrow> socket_view option) \<Rightarrow> int \<Rightarrow> api_state \<Rightarrow> bool" where
  "on_socket fd a code f r b \<longleftrightarrow>
     (case api_sockets a fd of
        None \<Rightarrow> r = -1 \<and> b = a
      | Some v \<Rightarrow> r = code \<and> b = a\<lparr>api_sockets := (api_sockets a)(fd := f v)\<rparr>)"

definition set_state :: "int \<Rightarrow> socket_view \<Rightarrow> socket_view option" where
  "set_state st v = (case v of (family, ty, protocol, _) \<Rightarrow> Some (family, ty, protocol, st))"

fun api_spec :: "net_op \<Rightarrow> api_state \<Rightarrow> int \<Rightarrow> api_state \<Rightarrow> bool" where
  "api_spec Network_init a r b \<longleftrightarrow> r = 0 \<and> b = api_reset"
| "api_spec Network_shutdown a r b \<longleftrightarrow> r = 0 \<and> b = a\<lparr>api_up := False\<rparr>"
| "api_spec (Socket domain ty protocol) a r b \<longleftrightarrow>
     (let n = api_next (api_ready a) in
      case (af_of_int domain, sock_type_of_int ty) of
        (Some af, Some st) \<Rightarrow>
          if 64 \<le> n then r = -1 \<and> b = api_ready a
          else r = -1 \<and> b = (api_ready a)\<lparr>api_next := n + 1\<rparr> \<or>
            r = int n \<and> \<not> open_fd r (api_ready a) \<and>
            b = (api_ready a)\<lparr>api_next := n + 1,
              api_sockets := (api_sockets (api_ready a))(r \<mapsto> (af, st, protocol, 0))\<rparr>
      | _ \<Rightarrow> r = -1 \<and> b = api_ready a)"
| "api_spec (Bind fd) a r b \<longleftrightarrow> on_socket fd a 0 Some r b"
| "api_spec (Getsockopt fd) a r b \<longleftrightarrow> on_socket fd a 0 Some r b"
| "api_spec (Setsockopt fd) a r b \<longleftrightarrow> on_socket fd a 0 Some r b"
| "api_spec (Accept fd) a r b \<longleftrightarrow> on_socket fd a (-1) Some r b"
| "api_spec (Connect fd) a r b \<longleftrightarrow> on_socket fd a 0 (set_state 1) r b"
| "api_spec (Listen fd) a r b \<longleftrightarrow> on_socket fd a 0 (set_state 2) r b"
| "api_spec (Shutdown fd) a r b \<longleftrightarrow> on_socket fd a 0 (set_state 0) r b"
| "api_spec (Close fd) a r b \<longleftrightarrow> on_socket fd a 0 (\<lambda>v. None) r b"
| "api_spec (Send fd buf len) a r b \<longleftrightarrow>
     b = a \<and> (r = -1 \<or> r = ssize_of len \<and> open_fd fd a \<and> buf \<noteq> None \<and> len \<noteq> 0)"
| "api_spec (Recv fd buf len) a r b \<longleftrightarrow>
     b = a \<and> r = (if open_fd fd a \<and> buf \<noteq> None \<and> len \<noteq> 0 then ssize_of len else -1)"
| "api_spec _ a r b \<longleftrightarrow> b = a"

definition api_of :: "net_state \<Rightarrow> api_state" where
  "api_of s = \<lparr>api_sockets = socket_view_at s, api_next = g_next_socket_fd s, api_up = g_network_initialized s\<rparr>"

subsection \<open>The simulation\<close>

lemma api_of_sel [simp]:
  "api_sockets (api_of s) = socket_view_at s" "api_next (api_of s) = g_next_socket_fd s"
  "api_up (api_of s) = g_network_initialized s"
  by (simp_all add: api_of_def)

lemma view_at_None [simp]: "socket_view_at s fd = None \<longleftrightarrow> socket_at s fd = None"
  by (simp add: socket_view_at_def)

lemma api_of_eq:
  "socket_view_at t = socket_view_at s \<Longrightarrow> same_counter s t \<Longrightarrow> api_of t = api_of s"
  by (simp add: api_of_def same_counter_def)

text \<open>The view depends only on the table and the sockets it reaches.\<close>

lemma view_frame:
  assumes wf: "sock_wf s" and tab: "g_socket_table t = g_socket_table s"
    and keep: "\<And>a k. get_sock a s = Some k \<Longrightarrow> get_sock a t = Some k"
  shows "socket_view_at t = socket_view_at s"
proof
  fix fd
  have lookup: "nova_socket_lookup fd t = nova_socket_lookup fd s" using tab by (simp add: nova_socket_lookup_def)
  from wf show "socket_view_at t fd = socket_view_at s fd"
  proof (cases rule: socket_at_cases [of s fd])
    case (live a k)
    then show ?thesis using lookup keep by (simp add: socket_view_at_def socket_at_def)
  qed (simp add: socket_view_at_def socket_at_def lookup)
qed

lemma view_put_dev:
  assumes wf: "sock_wf s" and sock: "nova_socket_lookup fd s = Some a" "get_sock a s = Some k"
  shows "socket_view_at (put_sock a (k\<lparr>sk_dev := dev\<rparr>) s) = socket_view_at s"
proof -
  have "socket_at s fd = Some k" using sock by (simp add: socket_at_def)
  then show ?thesis by (auto simp: socket_view_at_def socket_at_put_sock [OF wf sock(1)] fun_eq_iff)
qed

lemma device_call_api:
  assumes wf: "net_wf s" and call: "\<exists>r t. f s = Some (r, t) \<and> netdev_wf t \<and> net_heap t = net_heap s \<and>
    g_socket_table t = g_socket_table s \<and> g_next_socket_fd t = g_next_socket_fd s \<and>
    g_network_initialized t = g_network_initialized s"
  shows "\<exists>r t. f s = Some (r, t) \<and> net_wf t \<and> api_of t = api_of s"
proof -
  obtain r t where t: "f s = Some (r, t)" "netdev_wf t" "net_heap t = net_heap s"
    "g_socket_table t = g_socket_table s" "g_next_socket_fd t = g_next_socket_fd s"
    "g_network_initialized t = g_network_initialized s" using call by blast
  have swf: "sock_wf s" using wf by (simp add: net_wf_def)
  have "socket_view_at t = socket_view_at s" using t(3) by (intro view_frame [OF swf t(4)]) (simp add: get_sock_cells)
  with t have "api_of t = api_of s" by (simp add: api_of_def)
  with t sock_wf_same [OF swf t(3-5)] show ?thesis by (auto simp: net_wf_def)
qed

text \<open>\<open>nova_send\<close> fails or sends everything, and changes no socket but for the device it sends through.\<close>

lemma send_skb_api:
  assumes swf: "sock_wf s" and hook: "xmit_hook d s = Some f" and len: "0 < len \<and> len \<le> length buf"
    and send: "send_skb buf len d s = Some (r, t)"
  shows "api_of t = api_of s \<and> (r = -1 \<or> r = ssize_of len)"
proof -
  have heap: "heap_wf (net_heap s)" using swf by (simp add: sock_wf_def)
  from heap hook len have "(r = -1 \<or> r = ssize_of len) \<and> same_counter s t \<and> g_socket_table t = g_socket_table s \<and>
      (\<forall>a k. get_sock a s = Some k \<longrightarrow> get_sock a t = Some k)"
    using send by (cases rule: send_skb_cases [of s d f len buf]) (auto simp: get_sock_cells)
  then show ?thesis using view_frame [OF swf, of t] by (auto intro: api_of_eq)
qed

lemma send_api:
  assumes wf: "net_wf s" and ok: "ok_op (Send fd buf len)"
  shows "\<exists>r t. nova_send fd buf len s = Some (r, t) \<and> net_wf t \<and> api_spec (Send fd buf len) (api_of s) r (api_of t)"
proof -
  have swf: "sock_wf s" and dwf: "netdev_wf s" using wf by (simp_all add: net_wf_def)
  obtain r t where t: "nova_send fd buf len s = Some (r, t)" "net_wf t" using nova_send_wf [OF wf ok] by blast
  from swf have "api_spec (Send fd buf len) (api_of s) r (api_of t)"
  proof (cases rule: socket_at_cases [of s fd])
    case none
    with t(1) show ?thesis by (simp add: nova_send_def with_socket_def)
  next
    case (live a k)
    then have fd: "open_fd fd (api_of s)" by (auto simp: open_fd_def domIff)
    show ?thesis
    proof (cases "buf = None \<or> len = 0")
      case True
      with live t(1) show ?thesis by (auto simp: nova_send_def with_socket_def split: option.splits)
    next
      case False
      then obtain bytes where buf: "buf = Some bytes" "0 < len \<and> len \<le> length bytes" using ok by auto
      obtain dev where dev: "route k s = Some dev" using route_total [OF dwf] by blast
      let ?s1 = "put_sock a (k\<lparr>sk_dev := dev\<rparr>) s"
      have s1: "sock_wf ?s1" "api_of ?s1 = api_of s"
        using sock_wf_put_sock [OF swf live(2), of "k\<lparr>sk_dev := dev\<rparr>"] live(4) view_put_dev [OF swf live(1,2)]
        by (auto intro: api_of_eq)
      note eq = nova_send_eq [OF live(1,2) dev conjunct1 [OF buf(2)], of bytes]
      show ?thesis
      proof (cases "case dev of None \<Rightarrow> None | Some d \<Rightarrow> xmit_hook d s")
        case None
        then have "r = -1" "t = ?s1" using eq buf(1) t(1) by (auto split: option.splits)
        with s1(2) show ?thesis by simp
      next
        case (Some f)
        then obtain d where d: "dev = Some d" "xmit_hook d s = Some f" by (auto split: option.splits)
        have hook: "xmit_hook d ?s1 = Some f" using d(2) by simp
        have "send_skb bytes len d ?s1 = Some (r, t)" using eq t(1) buf(1) d by simp
        with send_skb_api [OF s1(1) hook buf(2)] s1(2) fd False show ?thesis by auto
      qed
    qed
  qed
  with t show ?thesis by blast
qed

lemma state_calls_api:
  assumes wf: "net_wf s"
  shows "\<exists>r t. nova_listen fd s = Some (r, t) \<and> net_wf t \<and> api_spec (Listen fd) (api_of s) r (api_of t)"
    "\<exists>r t. nova_shutdown fd s = Some (r, t) \<and> net_wf t \<and> api_spec (Shutdown fd) (api_of s) r (api_of t)"
    "\<exists>r t. nova_connect fd s = Some (r, t) \<and> net_wf t \<and> api_spec (Connect fd) (api_of s) r (api_of t)"
    "\<exists>r t. nova_close fd s = Some (r, t) \<and> net_wf t \<and> api_spec (Close fd) (api_of s) r (api_of t)"
proof -
  have counter: "same_counter s t" if "net_exec op s = Some (r, t)"
    "op = Listen fd \<or> op = Shutdown fd \<or> op = Connect fd \<or> op = Close fd" for op r t
    using that by (auto simp: bind_eq_Some_conv with_socket_def Let_def
      nova_connect_def nova_listen_def nova_shutdown_def nova_close_def split: option.splits)
  have api: "api_of t = (api_of s)\<lparr>api_sockets := (socket_view_at s)(fd := map_option (\<lambda>k. (sk_family k, sk_type k, sk_protocol k, sk_state k)) v)\<rparr>"
    if "socket_at t = (socket_at s)(fd := v)" "same_counter s t" for t v
    using that by (simp add: api_of_def same_counter_def socket_view_at_def fun_eq_iff)
  note counters = counter [of "Listen fd"] counter [of "Shutdown fd"] counter [of "Connect fd"] counter [of "Close fd"]
  show "\<exists>r t. nova_listen fd s = Some (r, t) \<and> net_wf t \<and> api_spec (Listen fd) (api_of s) r (api_of t)"
    "\<exists>r t. nova_shutdown fd s = Some (r, t) \<and> net_wf t \<and> api_spec (Shutdown fd) (api_of s) r (api_of t)"
    "\<exists>r t. nova_connect fd s = Some (r, t) \<and> net_wf t \<and> api_spec (Connect fd) (api_of s) r (api_of t)"
    "\<exists>r t. nova_close fd s = Some (r, t) \<and> net_wf t \<and> api_spec (Close fd) (api_of s) r (api_of t)"
    using socket_state_effect [OF wf, of fd] nova_close_effect [OF wf, of fd] wf counters
    by (cases "socket_at s fd", simp add: on_socket_def,
        fastforce simp: on_socket_def socket_view_at_def set_state_def api)+
qed

lemma query_calls_api:
  assumes wf: "net_wf s"
  shows "\<exists>r. nova_bind fd s = Some (r, s) \<and> api_spec (Bind fd) (api_of s) r (api_of s)"
    "\<exists>r. nova_getsockopt fd s = Some (r, s) \<and> api_spec (Getsockopt fd) (api_of s) r (api_of s)"
    "\<exists>r. nova_setsockopt fd s = Some (r, s) \<and> api_spec (Setsockopt fd) (api_of s) r (api_of s)"
    "\<exists>r. nova_accept fd s = Some (r, s) \<and> api_spec (Accept fd) (api_of s) r (api_of s)"
proof -
  have swf: "sock_wf s" using wf by (simp add: net_wf_def)
  then show "\<exists>r. nova_bind fd s = Some (r, s) \<and> api_spec (Bind fd) (api_of s) r (api_of s)"
    "\<exists>r. nova_getsockopt fd s = Some (r, s) \<and> api_spec (Getsockopt fd) (api_of s) r (api_of s)"
    "\<exists>r. nova_setsockopt fd s = Some (r, s) \<and> api_spec (Setsockopt fd) (api_of s) r (api_of s)"
    "\<exists>r. nova_accept fd s = Some (r, s) \<and> api_spec (Accept fd) (api_of s) r (api_of s)"
    by (cases rule: socket_at_cases [of s fd]; auto simp: nova_bind_def nova_getsockopt_def nova_setsockopt_def
        nova_accept_def with_socket_def on_socket_def socket_view_at_def api_of_def fun_upd_idem)+
qed

lemma ready_api: "net_wf s \<Longrightarrow> api_of (ready s) = api_ready (api_of s)"
proof -
  assume wf: "net_wf s"
  have "socket_view_at (snd (nova_network_init s)) = Map.empty"
    using net_wf_init(2) [OF wf] by (simp add: socket_view_at_def fun_eq_iff)
  then show ?thesis by (simp add: api_of_def api_ready_def ready_def api_reset_def nova_network_init_def)
qed

lemma start_stop_api:
  assumes wf: "net_wf s"
  shows "\<exists>r t. net_exec Network_init s = Some (r, t) \<and> net_wf t \<and> api_spec Network_init (api_of s) r (api_of t)"
    "\<exists>r t. net_exec Network_shutdown s = Some (r, t) \<and> net_wf t \<and> api_spec Network_shutdown (api_of s) r (api_of t)"
proof -
  have "socket_view_at (snd (nova_network_init s)) = Map.empty"
    using net_wf_init(2) [OF wf] by (simp add: socket_view_at_def fun_eq_iff)
  then show "\<exists>r t. net_exec Network_init s = Some (r, t) \<and> net_wf t \<and> api_spec Network_init (api_of s) r (api_of t)"
    using net_wf_init(1) [OF wf] by (simp add: api_of_def api_reset_def nova_network_init_def)
  have swf: "sock_wf s" and dwf: "netdev_wf s" using wf by (simp_all add: net_wf_def)
  obtain t where t: "nova_network_shutdown s = Some (0, t)" "netdev_wf t" "net_heap t = net_heap s"
    "g_socket_table t = g_socket_table s" "g_next_socket_fd t = g_next_socket_fd s" "\<not> g_network_initialized t"
    using network_shutdown_wf [OF dwf] by blast
  have "socket_view_at t = socket_view_at s" using t(3) by (intro view_frame [OF swf t(4)]) (simp add: get_sock_cells)
  then show "\<exists>r t. net_exec Network_shutdown s = Some (r, t) \<and> net_wf t \<and> api_spec Network_shutdown (api_of s) r (api_of t)"
    using t sock_wf_same [OF swf t(3-5)] by (simp add: api_of_def net_wf_def)
qed

lemma socket_call_api:
  assumes wf: "net_wf s"
  shows "\<exists>r t. nova_socket domain ty protocol s = Some (r, t) \<and> net_wf t \<and>
    api_spec (Socket domain ty protocol) (api_of s) r (api_of t)"
  using wf
proof (cases rule: nova_socket_cases [of s domain ty protocol])
  case refused
  then show ?thesis using ready_api [OF wf] net_wf_ready [OF wf]
    by (auto simp: socket_refuses_def ready_api [OF wf, symmetric] split: option.split)
next
  case (oom t)
  have "api_of t = (api_of (ready s))\<lparr>api_next := g_next_socket_fd (ready s) + 1\<rparr>"
    using oom(5-7) by (simp add: api_of_def socket_view_at_def fun_eq_iff)
  with oom show ?thesis by (auto simp: socket_refuses_def ready_api [OF wf, symmetric])
next
  case (made af st dev t)
  then have view: "socket_view_at t = (socket_view_at (ready s))(int (g_next_socket_fd (ready s)) \<mapsto> (af, st, protocol, 0))"
    by (simp add: socket_view_at_def fun_eq_iff fresh_sock_def)
  have "api_of t = (api_of (ready s))\<lparr>api_next := g_next_socket_fd (ready s) + 1,
      api_sockets := (socket_view_at (ready s))(int (g_next_socket_fd (ready s)) \<mapsto> (af, st, protocol, 0))\<rparr>"
    using view made(10,11) by (simp add: api_of_def)
  with made show ?thesis
    by (auto simp: socket_refuses_def ready_api [OF wf, symmetric] open_fd_def domIff)
qed

lemma recv_api:
  assumes wf: "net_wf s" and ok: "ok_op (Recv fd buf len)"
  shows "\<exists>r. net_exec (Recv fd buf len) s = Some (r, s) \<and> api_spec (Recv fd buf len) (api_of s) r (api_of s)"
proof -
  have "sock_wf s" using wf by (simp add: net_wf_def)
  then show ?thesis
    using ok by (cases rule: socket_at_cases [of s fd]; auto simp: nova_recv_def open_fd_def domIff split: option.split)
qed

lemma net_exec_api:
  assumes wf: "net_wf s" and ok: "ok_op op"
  shows "\<exists>r t. net_exec op s = Some (r, t) \<and> net_wf t \<and> api_spec op (api_of s) r (api_of t)"
proof -
  have dwf: "netdev_wf s" using wf by (simp add: net_wf_def)
  note device = device_call_api [OF wf]
  show ?thesis
  proof (cases op)
    case Loopback_init
    then show ?thesis using device [of "nova_loopback_init", OF loopback_init_wf [OF dwf]] by simp
  next
    case Nic_stub_init
    then show ?thesis using device [of "nova_nic_stub_init", OF nic_stub_init_wf [OF dwf]] by simp
  next
    case (Netdev_register d)
    then show ?thesis using device [of "nova_netdev_register d", OF register_wf [OF dwf]] by simp
  next
    case (Netdev_unregister d)
    then show ?thesis using device [of "nova_netdev_unregister d", OF unregister_wf [OF dwf]] by simp
  next
    case (Netdev_find n)
    then show ?thesis using netdev_wf_find [OF dwf, of n] wf by auto
  next
    case (Recv fd buf len)
    with recv_api [OF wf] ok wf show ?thesis by blast
  next
    case (Send fd buf len)
    with send_api [OF wf] ok show ?thesis by simp
  qed (use wf in \<open>auto simp del: api_spec.simps simp: start_stop_api [simplified] socket_call_api state_calls_api\<close>,
      (use query_calls_api [OF wf] wf in \<open>simp del: api_spec.simps, blast\<close>)+)
qed

definition api_sim :: "net_state \<Rightarrow> api_state \<Rightarrow> bool" where
  "api_sim s a \<longleftrightarrow> net_wf s \<and> a = api_of s"

interpretation socket_api: call_refinement api_sim net_exec "\<lambda>op a. ok_op op" api_spec
  by unfold_locales (unfold api_sim_def, metis net_exec_api)

subsection \<open>Properties\<close>

text \<open>
  Claim C5. The network stack implements its contract: from program start, for any sequence of calls
  whose buffers are as long as they say, under any pattern of allocation failures and with any
  registered devices whose hooks are \<open>NULL\<close> or functions of the tree's two drivers, every call
  returns, and what the calls return is a run of the abstract socket machine from the empty table.  So a descriptor stands for what was opened under it until
  it is closed, connect, listen and shutdown set its state, the option calls and bind accept every
  open descriptor, accept never succeeds, receiving returns the length asked for, sending returns
  the length or -1, and everything on a closed descriptor is refused.
\<close>
theorem socket_api_refines:
  assumes "net_start s" "\<forall>op \<in> set ops. ok_op op"
  shows "\<exists>rs t. call_run net_exec ops s = Some (rs, t) \<and>
    spec_run api_spec ops \<lparr>api_sockets = Map.empty, api_next = 1, api_up = False\<rparr> rs (api_of t)"
proof -
  have "api_of s = \<lparr>api_sockets = Map.empty, api_next = 1, api_up = False\<rparr>"
    using assms(1) by (auto simp: api_of_def net_start_def socket_view_at_def socket_at_def nova_socket_lookup_def fun_eq_iff)
  moreover have "keeps_contract (\<lambda>op a. ok_op op) api_spec ops (api_of s)"
    using assms(2) by (intro keeps_contract_static) simp
  moreover have "api_sim s (api_of s)" using net_start_wf [OF assms(1)] by (simp add: api_sim_def)
  ultimately show ?thesis using socket_api.run_sim [of s "api_of s" ops] by (auto simp: api_sim_def)
qed

text \<open>
  Claim C15. Memory stays well typed: in every state the stack can reach, a descriptor leads to a live
  block that holds a socket, two descriptors never lead to the same block, every live block lies
  below the next address the allocator hands out, and the device list is finite, without
  repetition, and its devices have different names.
\<close>
theorem network_memory_typed:
  assumes "reach net_start net_step s"
  shows "(\<forall>fd a. nova_socket_lookup fd s = Some a \<longrightarrow> (\<exists>k. cells (net_heap s) a = Some (Sock k))) \<and>
    (\<forall>fd fd' a. nova_socket_lookup fd s = Some a \<longrightarrow> nova_socket_lookup fd' s = Some a \<longrightarrow> fd = fd') \<and>
    (\<forall>a. cells (net_heap s) a \<noteq> None \<longrightarrow> a < next_addr (net_heap s)) \<and>
    (\<exists>ds. registered s ds \<and> distinct (map (dev_name s) ds))"
proof -
  have wf: "sock_wf s" "netdev_wf s" using net_machine.reach_inv [OF assms] by (simp_all add: net_wf_def)
  then obtain ds where "registered s ds" "inj_on (dev_name s) (set ds)" by (auto simp: netdev_wf_def)
  then have "registered s ds \<and> distinct (map (dev_name s) ds)"
    using plist_distinct by (auto simp: distinct_map registered_def)
  moreover have "\<exists>k. cells (net_heap s) a = Some (Sock k)" if "nova_socket_lookup fd s = Some a" for fd a
    using sock_wf_lookup [OF wf(1) that] by (auto simp: get_sock_cells)
  moreover have "fd = fd'" if "nova_socket_lookup fd s = Some a" "nova_socket_lookup fd' s = Some a" for fd fd' a
    using lookup_inj [OF wf(1) that] by simp
  moreover have "a < next_addr (net_heap s)" if "cells (net_heap s) a \<noteq> None" for a
    using that wf(1) heap_wf_live by (auto simp: sock_wf_def)
  ultimately show ?thesis by blast
qed

subsection \<open>Witnesses\<close>

theorem socket_api_refines_witness:
  "\<exists>rs t. call_run net_exec [Loopback_init, Socket 2 1 0, Listen 1, Send 1 (Some [7]) 1, Close 1, Bind 1] cold_net =
      Some (rs, t) \<and>
    spec_run api_spec [Loopback_init, Socket 2 1 0, Listen 1, Send 1 (Some [7]) 1, Close 1, Bind 1]
      \<lparr>api_sockets = Map.empty, api_next = 1, api_up = False\<rparr> rs (api_of t)"
  by (rule socket_api_refines [OF cold_net_start]) simp

theorem network_memory_typed_witness:
  "\<exists>a k. nova_socket_lookup 1 demo_sock_net = Some a \<and> cells (net_heap demo_sock_net) a = Some (Sock k)"
proof -
  have "nova_socket_lookup 1 demo_sock_net = Some 0" by code_simp
  with network_memory_typed [OF demo_sock_net_reach] show ?thesis by blast
qed

end
