(* ===== verification/Nova_Net_Traffic.thy ===== *)
theory Nova_Net_Traffic
  imports Nova_Socket_Api
begin

text \<open>
  The books of \<open>kernel/network\<close> over whole sessions: what any sequence of socket calls of a client does
  to the counters of the loopback device and to the heap, after the start-up that the README
  describes.  The counters are an exact function of the sends that succeeded, and every block that
  is neither a socket of an open descriptor nor older than the stack is a packet that loopback kept.
\<close>

subsection \<open>What is counted\<close>

text \<open>The calls of a client that leaves the devices alone; a message is shorter than \<open>SSIZE_MAX\<close>.\<close>

fun client_call :: "net_op \<Rightarrow> bool" where
  "client_call (Send fd (Some buf) len) \<longleftrightarrow> len \<le> length buf \<and> len < 2 ^ 63"
| "client_call (Recv fd (Some buf) len) \<longleftrightarrow> len \<le> length buf"
| "client_call op \<longleftrightarrow> op \<notin> {Network_init, Network_shutdown, Loopback_init, Nic_stub_init} \<and>
     (\<nexists>d. op = Netdev_register d \<or> op = Netdev_unregister d)"

text \<open>The packets and the bytes that a call with a given result handed over.\<close>

fun packets :: "net_op \<Rightarrow> int \<Rightarrow> nat" where
  "packets (Send fd buf len) r = (if r = -1 then 0 else 1)"
| "packets _ r = 0"

fun octets :: "net_op \<Rightarrow> int \<Rightarrow> nat" where
  "octets (Send fd buf len) r = (if r = -1 then 0 else len)"
| "octets _ r = 0"

definition packets_sent :: "net_op list \<Rightarrow> int list \<Rightarrow> nat" where
  "packets_sent ops rs = sum_list (map2 packets ops rs)"

definition octets_sent :: "net_op list \<Rightarrow> int list \<Rightarrow> nat" where
  "octets_sent ops rs = sum_list (map2 octets ops rs)"

text \<open>A device after \<open>k\<close> packets of \<open>n\<close> bytes in all went round the loop: each is counted twice.\<close>

definition looped :: "nat \<Rightarrow> nat \<Rightarrow> nova_net_device \<Rightarrow> nova_net_device" where
  "looped k n d = d\<lparr>nd_stats := (nd_stats d)
     \<lparr>tx_packets := tx_packets (nd_stats d) + of_nat k, tx_bytes := tx_bytes (nd_stats d) + of_nat n,
      rx_packets := rx_packets (nd_stats d) + of_nat (2 * k), rx_bytes := rx_bytes (nd_stats d) + of_nat (2 * n)\<rparr>\<rparr>"

text \<open>The sockets that descriptors lead to, and the other live blocks.\<close>

definition socket_blocks :: "net_state \<Rightarrow> nat set" where
  "socket_blocks s = {a. \<exists>fd. nova_socket_lookup fd s = Some a}"

definition unowned :: "net_state \<Rightarrow> nat set" where
  "unowned s = dom (cells (net_heap s)) - socket_blocks s"

lemma looped_0 [simp]: "looped 0 0 d = d"
  by (simp add: looped_def)

lemma looped_1: "count_rx len (count_rx len (count_tx len d)) = looped 1 len d"
  by (simp add: looped_def count_rx_def count_tx_def)

lemma looped_add: "looped k n (looped k' n' d) = looped (k' + k) (n' + n) d"
  by (simp add: looped_def algebra_simps)

lemma looped_sel [simp]:
  "nd_name (looped k n d) = nd_name d" "nd_next (looped k n d) = nd_next d" "nd_ops (looped k n d) = nd_ops d"
  by (simp_all add: looped_def)

lemma client_call_ok: "client_call op \<Longrightarrow> ok_op op"
  by (cases op rule: client_call.cases) auto

subsection \<open>One call\<close>

text \<open>The stack is up and everything goes over loopback.\<close>

definition lo_world :: "net_state \<Rightarrow> bool" where
  "lo_world s \<longleftrightarrow> net_up s \<and> nova_netdev_find (Some ''lo'') s = Some (Some Lo_dev) \<and>
     xmit_hook Lo_dev s = Some Lo_start_xmit \<and> (\<forall>fd k. socket_at s fd = Some k \<longrightarrow> sk_dev k = Some Lo_dev)"

text \<open>What a call does to the books: \<open>k\<close> packets of \<open>n\<close> bytes in all.\<close>

definition books :: "nat \<Rightarrow> nat \<Rightarrow> net_state \<Rightarrow> net_state \<Rightarrow> bool" where
  "books k n s t \<longleftrightarrow> devices t = (devices s)(Lo_dev := looped k n (devices s Lo_dev)) \<and>
     (\<exists>P. unowned t = unowned s \<union> P \<and> P \<inter> unowned s = {} \<and> finite P \<and> card P = 2 * k)"

lemma books_refl: "devices t = devices s \<Longrightarrow> unowned t = unowned s \<Longrightarrow> books 0 0 s t"
  by (auto simp: books_def)

lemma books_trans:
  assumes "books k n s t" "books k' n' t u"
  shows "books (k + k') (n + n') s u"
proof -
  from assms obtain P Q where P: "unowned t = unowned s \<union> P" "P \<inter> unowned s = {}" "finite P" "card P = 2 * k"
    and Q: "unowned u = unowned t \<union> Q" "Q \<inter> unowned t = {}" "finite Q" "card Q = 2 * k'"
    unfolding books_def by blast
  have "card (P \<union> Q) = 2 * (k + k')" using P Q by (subst card_Un_disjoint) auto
  moreover have "unowned u = unowned s \<union> (P \<union> Q)" "(P \<union> Q) \<inter> unowned s = {}" "finite (P \<union> Q)"
    using P Q by auto
  moreover have "devices u = (devices s)(Lo_dev := looped (k + k') (n + n') (devices s Lo_dev))"
    using assms by (simp add: books_def looped_add fun_eq_iff)
  ultimately show ?thesis unfolding books_def by blast
qed

lemma find_frame:
  assumes wf: "netdev_wf s" and reg: "g_nova_netdev_registry t = g_nova_netdev_registry s"
    and devs: "\<And>d. nd_name (devices t d) = nd_name (devices s d) \<and> nd_next (devices t d) = nd_next (devices s d)"
  shows "nova_netdev_find n t = nova_netdev_find n s"
proof (cases n)
  case (Some m)
  obtain xs where xs: "registered s xs" using wf by (auto simp: netdev_wf_def)
  then have "registered t xs" using reg devs by (simp add: registered_def)
  with xs Some show ?thesis using devs by (simp add: netdev_find_registered)
qed (simp add: nova_netdev_find_def)

lemma live_sockets:
  assumes "sock_wf s" "nova_socket_lookup fd s = Some a"
  shows "a \<in> socket_blocks s" "a \<in> dom (cells (net_heap s))"
  using sock_wf_lookup [OF assms] assms(2) by (auto simp: socket_blocks_def get_sock_cells)

text \<open>Changing a socket's state.\<close>

lemma put_sock_books:
  assumes w: "lo_world s" and sock: "nova_socket_lookup fd s = Some a" "get_sock a s = Some k0"
    and k: "sk_private_data k = None" "sk_dev k = Some Lo_dev"
  shows "lo_world (put_sock a k s) \<and> books 0 0 s (put_sock a k s)"
proof -
  have wf: "sock_wf s" "netdev_wf s" "g_network_initialized s" using w by (simp_all add: lo_world_def net_up_def net_wf_def)
  have "net_up (put_sock a k s)"
    using sock_wf_put_sock [OF wf(1) sock(2) k(1)] wf by (simp add: net_up_def net_wf_def)
  then have "lo_world (put_sock a k s)"
    using w k(2) by (auto simp: lo_world_def socket_at_put_sock [OF wf(1) sock(1)])
  moreover have "socket_blocks (put_sock a k s) = socket_blocks s" by (simp add: socket_blocks_def)
  then have "books 0 0 s (put_sock a k s)"
    using sock(2) by (intro books_refl) (auto simp: unowned_def get_sock_cells)
  ultimately show ?thesis by blast
qed

lemma state_calls_books:
  assumes w: "lo_world s" and op: "op = Connect fd \<or> op = Listen fd \<or> op = Shutdown fd"
  shows "\<exists>r t. net_exec op s = Some (r, t) \<and> lo_world t \<and> books 0 0 s t"
proof -
  have wf: "sock_wf s" using w by (simp add: lo_world_def net_up_def net_wf_def)
  then show ?thesis
  proof (cases rule: socket_at_cases [of s fd])
    case none
    with w op show ?thesis
      by (auto simp: nova_connect_def nova_listen_def nova_shutdown_def with_socket_def books_refl)
  next
    case (live a k)
    then have dev: "sk_dev k = Some Lo_dev" using w by (simp add: lo_world_def)
    note put = put_sock_books [OF w live(1,2)]
    show ?thesis
      using op live dev put [of "k\<lparr>sk_state := 0\<rparr>"] put [of "k\<lparr>sk_state := 1\<rparr>"] put [of "k\<lparr>sk_state := 2\<rparr>"]
      by (auto simp: nova_connect_def nova_listen_def nova_shutdown_def with_socket_def)
  qed
qed

text \<open>Sending: nothing changes when an allocation fails, otherwise a packet goes round the loop.\<close>

lemma send_books:
  assumes w: "lo_world s" and op: "client_call (Send fd buf len)"
  shows "\<exists>r t. nova_send fd buf len s = Some (r, t) \<and> lo_world t \<and>
    books (packets (Send fd buf len) r) (octets (Send fd buf len) r) s t"
proof -
  have wf: "net_wf s" "sock_wf s" "netdev_wf s" and up: "g_network_initialized s"
    and find: "nova_netdev_find (Some ''lo'') s = Some (Some Lo_dev)"
    and hook: "xmit_hook Lo_dev s = Some Lo_start_xmit"
    and socks: "\<And>fd k. socket_at s fd = Some k \<Longrightarrow> sk_dev k = Some Lo_dev"
    using w by (simp_all add: lo_world_def net_up_def net_wf_def)
  have heap: "heap_wf (net_heap s)" using wf(2) by (simp add: sock_wf_def)
  have unchanged: "\<exists>r t. nova_send fd buf len s = Some (r, t) \<and> lo_world t \<and>
      books (packets (Send fd buf len) r) (octets (Send fd buf len) r) s t"
    if "nova_send fd buf len s = Some (-1, s)"
    using that w by (auto simp: books_refl)
  from wf(2) show ?thesis
  proof (cases rule: socket_at_cases [of s fd])
    case none
    then show ?thesis by (intro unchanged) (simp add: nova_send_def with_socket_def)
  next
    case (live a k)
    show ?thesis
    proof (cases "buf = None \<or> len = 0")
      case True
      with live show ?thesis by (intro unchanged) (auto simp: nova_send_def with_socket_def split: option.splits)
    next
      case False
      then obtain bytes where buf: "buf = Some bytes" "0 < len \<and> len \<le> length bytes" "len < 2 ^ 63" using op by auto
      have dev: "sk_dev k = Some Lo_dev" by (rule socks [OF live(3)])
      then have same: "k\<lparr>sk_dev := Some Lo_dev\<rparr> = k" by (cases k) simp
      have "route k s = Some (Some Lo_dev)" using dev by (simp add: route_def)
      note eq = nova_send_eq [OF live(1,2) this conjunct1 [OF buf(2)], of bytes]
      have send: "nova_send fd buf len s = send_skb bytes len Lo_dev s"
        unfolding buf(1) eq same put_sock_same [OF live(2)] by (simp add: hook)
      obtain r t where t: "nova_send fd buf len s = Some (r, t)" "net_wf t"
        using nova_send_wf [OF wf(1) client_call_ok [OF op]] by blast
      have counter: "same_counter s t" by (rule send_counter [OF wf(1) client_call_ok [OF op] t(1)])
      from heap hook buf(2) have eff: "g_socket_table t = g_socket_table s \<and> g_nova_netdev_registry t = g_nova_netdev_registry s \<and>
          (\<forall>a k. get_sock a s = Some k \<longrightarrow> get_sock a t = Some k) \<and>
          (r = -1 \<and> devices t = devices s \<and> dom (cells (net_heap t)) = dom (cells (net_heap s)) \<or>
           r = int len \<and> devices t = (devices s)(Lo_dev := looped 1 len (devices s Lo_dev)) \<and>
           (\<exists>n. n \<notin> dom (cells (net_heap s)) \<and> Suc n \<notin> dom (cells (net_heap s)) \<and>
             dom (cells (net_heap t)) = dom (cells (net_heap s)) \<union> {n, Suc n}))"
      proof (cases rule: send_skb_cases [of s Lo_dev Lo_start_xmit len bytes])
        case (lo h n)
        have "r = int len" "t = (upd_dev Lo_dev (count_rx len \<circ> count_rx len \<circ> count_tx len) s)\<lparr>net_heap := h\<rparr>"
          using t(1) lo(3) by (simp_all add: send ssize_of_small [OF buf(3)])
        moreover have "dom (cells h) = dom (cells (net_heap s)) \<union> {n, Suc n}" unfolding lo(6) by auto
        moreover have "get_sock a t = Some k" if "get_sock a s = Some k" for a k
          using that lo(4-6) calculation(2) by (auto simp: get_sock_cells)
        ultimately show ?thesis using lo(4,5) by (auto simp: looped_1)
      qed (use t(1) in \<open>auto simp: send get_sock_cells\<close>)
      have tab: "nova_socket_lookup fd' t = nova_socket_lookup fd' s" for fd' using eff by (simp add: nova_socket_lookup_def)
      have at: "socket_at t fd' = socket_at s fd'" for fd'
        using wf(2) by (cases rule: socket_at_cases [of s fd']) (use tab eff in \<open>auto simp: socket_at_def\<close>)
      have "devices t = devices s \<or> devices t = (devices s)(Lo_dev := looped 1 len (devices s Lo_dev))" using eff by blast
      then have devs: "nd_name (devices t d) = nd_name (devices s d) \<and> nd_next (devices t d) = nd_next (devices s d)"
        "nd_ops (devices t d) = nd_ops (devices s d)" for d by auto
      have "nova_netdev_find (Some ''lo'') t = Some (Some Lo_dev)"
        unfolding find_frame [OF wf(3) conjunct1 [OF conjunct2 [OF eff]] devs(1)] by (rule find)
      then have "lo_world t"
        using t(2) counter up hook socks devs(2) by (simp add: lo_world_def net_up_def same_counter_def at xmit_hook_def)
      moreover have blocks: "socket_blocks t = socket_blocks s" by (simp add: socket_blocks_def tab)
      have owned: "socket_blocks s \<subseteq> dom (cells (net_heap s))" using live_sockets(2) [OF wf(2)] unfolding socket_blocks_def by blast
      have "books (packets (Send fd buf len) r) (octets (Send fd buf len) r) s t"
      proof (cases "r = -1")
        case True
        with eff blocks show ?thesis by (auto simp: unowned_def intro!: books_refl)
      next
        case False
        with eff obtain n where n: "n \<notin> dom (cells (net_heap s))" "Suc n \<notin> dom (cells (net_heap s))"
          "dom (cells (net_heap t)) = dom (cells (net_heap s)) \<union> {n, Suc n}"
          and d: "devices t = (devices s)(Lo_dev := looped 1 len (devices s Lo_dev))" by blast
        have "unowned t = unowned s \<union> {n, Suc n}" "{n, Suc n} \<inter> unowned s = {}"
          using n owned blocks unfolding unowned_def by blast+
        then have "\<exists>P. unowned t = unowned s \<union> P \<and> P \<inter> unowned s = {} \<and> finite P \<and> card P = 2 * 1"
          by (intro exI [of _ "{n, Suc n}"]) simp
        with d False show ?thesis by (simp add: books_def)
      qed
      ultimately show ?thesis using t(1) by blast
    qed
  qed
qed

text \<open>Closing gives the socket's block back.\<close>

lemma close_books:
  assumes w: "lo_world s"
  shows "\<exists>r t. nova_close fd s = Some (r, t) \<and> lo_world t \<and> books 0 0 s t"
proof -
  have wf: "net_wf s" "sock_wf s" "netdev_wf s" using w by (simp_all add: lo_world_def net_up_def net_wf_def)
  from wf(2) show ?thesis
  proof (cases rule: socket_at_cases [of s fd])
    case none
    with w show ?thesis by (simp add: nova_close_def with_socket_def books_refl)
  next
    case (live a k)
    then obtain t where t: "nova_close fd s = Some (0, t)" "net_wf t" "socket_at t = (socket_at s)(fd := None)"
      "cells (net_heap t) = (cells (net_heap s))(a := None)" "nova_close fd t = Some (-1, t)"
      using nova_close_effect [OF wf(1), of fd] by auto
    have frame: "devices t = devices s" "g_nova_netdev_registry t = g_nova_netdev_registry s"
      "g_network_initialized t = g_network_initialized s" "g_socket_table t = (g_socket_table s)[nat fd := None]"
      using t(1) live(1) by (auto simp: nova_close_def with_socket_def bind_eq_Some_conv)
    have "nova_netdev_find (Some ''lo'') t = nova_netdev_find (Some ''lo'') s"
      using frame by (intro find_frame [OF wf(3)]) simp_all
    then have "lo_world t" using w t(2,3) frame by (auto simp: lo_world_def net_up_def xmit_hook_def split: if_splits)
    moreover have look: "nova_socket_lookup fd' t = (if fd' = fd then None else nova_socket_lookup fd' s)" for fd'
    proof -
      have "0 < fd" "fd < 64" using live(1) by (auto simp: nova_socket_lookup_def split: if_splits)
      moreover have "length (g_socket_table s) = 64" using wf(2) by (simp add: sock_wf_def)
      ultimately show ?thesis by (auto simp: nova_socket_lookup_def frame(4) nth_list_update)
    qed
    have "socket_blocks t = socket_blocks s - {a}"
    proof -
      have "nova_socket_lookup fd' t = Some b \<longleftrightarrow> nova_socket_lookup fd' s = Some b \<and> b \<noteq> a" for fd' b
        using live(1) lookup_inj [OF wf(2) live(1), of fd'] by (cases "fd' = fd") (auto simp: look)
      then show ?thesis by (auto simp: socket_blocks_def)
    qed
    then have "unowned t = unowned s"
      using t(4) live_sockets(1) [OF wf(2) live(1)] by (auto simp: unowned_def split: if_splits)
    then have "books 0 0 s t" using frame(1) by (intro books_refl) simp_all
    ultimately show ?thesis using t(1) by blast
  qed
qed

text \<open>Opening a socket: at most its own block is new, and it goes over loopback.\<close>

lemma socket_books:
  assumes w: "lo_world s"
  shows "\<exists>r t. nova_socket domain ty protocol s = Some (r, t) \<and> lo_world t \<and> books 0 0 s t"
proof -
  have wf: "net_wf s" "sock_wf s" "netdev_wf s" and up: "g_network_initialized s"
    and find: "nova_netdev_find (Some ''lo'') s = Some (Some Lo_dev)"
    using w by (simp_all add: lo_world_def net_up_def net_wf_def)
  have heap: "heap_wf (net_heap s)" using wf(2) by (simp add: sock_wf_def)
  obtain r t where t: "nova_socket domain ty protocol s = Some (r, t)" "net_wf t"
    using nova_socket_wf [OF wf(1)] by blast
  have socks: "sk_dev k = Some Lo_dev" if "socket_at t fd = Some k" for fd k
    using wf(1) t(1) that w up find
    by (cases rule: nova_socket_cases [of s domain ty protocol])
      (auto simp: lo_world_def fresh_sock_def split: if_splits)
  let ?n = "next_addr (net_heap s)" and ?i = "g_next_socket_fd s"
  have frame: "devices t = devices s \<and> g_nova_netdev_registry t = g_nova_netdev_registry s \<and> g_network_initialized t \<and>
      (g_socket_table t = g_socket_table s \<and> cells (net_heap t) = cells (net_heap s) \<or>
       ?i < 64 \<and> g_socket_table t = (g_socket_table s)[?i := Some ?n] \<and> dom (cells (net_heap t)) = insert ?n (dom (cells (net_heap s))))"
    using t(1) up find
    by (cases rule: calloc_cases [of "Sock zero_sock" "net_heap s"])
      (auto simp: nova_socket_def Let_def not_le split: option.splits if_splits)
  have "nova_netdev_find (Some ''lo'') t = nova_netdev_find (Some ''lo'') s"
    using frame by (intro find_frame [OF wf(3)]) simp_all
  then have "lo_world t" using w t(2) socks frame by (auto simp: lo_world_def net_up_def xmit_hook_def)
  moreover have "unowned t = unowned s"
  proof (cases "g_socket_table t = g_socket_table s")
    case True
    then have "socket_blocks t = socket_blocks s" by (simp add: socket_blocks_def nova_socket_lookup_def)
    moreover have "cells (net_heap t) = cells (net_heap s)"
    proof (rule ccontr)
      assume "cells (net_heap t) \<noteq> cells (net_heap s)"
      then have i: "?i < 64" "(g_socket_table s)[?i := Some ?n] = g_socket_table s" using frame True by auto
      moreover have "length (g_socket_table s) = 64" "g_socket_table s ! ?i = None" using wf(2) i(1) by (simp_all add: sock_wf_def)
      ultimately show False using nth_list_update_eq [of ?i "g_socket_table s" "Some ?n"] by simp
    qed
    ultimately show ?thesis by (simp add: unowned_def)
  next
    case False
    then have i: "?i < 64" "g_socket_table t = (g_socket_table s)[?i := Some ?n]"
      and dom: "dom (cells (net_heap t)) = insert ?n (dom (cells (net_heap s)))" using frame by auto
    have tab: "length (g_socket_table s) = 64" "1 \<le> ?i" "g_socket_table s ! ?i = None" using wf(2) i(1) by (auto simp: sock_wf_def)
    then have look: "nova_socket_lookup fd t = (if fd = int ?i then Some ?n else nova_socket_lookup fd s)" for fd
      using i by (auto simp: nova_socket_lookup_def nth_list_update)
    moreover have "nova_socket_lookup (int ?i) s = None" using tab i(1) by (simp add: nova_socket_lookup_def)
    ultimately have "nova_socket_lookup fd t = Some b \<longleftrightarrow> nova_socket_lookup fd s = Some b \<or> fd = int ?i \<and> b = ?n" for fd b
      by (cases "fd = int ?i") auto
    then have "socket_blocks t = insert ?n (socket_blocks s)" by (auto simp: socket_blocks_def)
    moreover have "?n \<notin> dom (cells (net_heap s))" using heap by (simp add: heap_wf_fresh domIff)
    ultimately show ?thesis using dom by (auto simp: unowned_def)
  qed
  then have "books 0 0 s t" using frame by (intro books_refl) simp_all
  ultimately show ?thesis using t(1) by blast
qed

subsection \<open>Sessions\<close>

lemma client_call_books:
  assumes w: "lo_world s" and op: "client_call op"
  shows "\<exists>r t. net_exec op s = Some (r, t) \<and> lo_world t \<and> books (packets op r) (octets op r) s t"
proof -
  have wf: "net_wf s" "netdev_wf s" using w by (simp_all add: lo_world_def net_up_def net_wf_def)
  have same: "\<exists>r t. net_exec op s = Some (r, t) \<and> lo_world t \<and> books (packets op r) (octets op r) s t"
    if "net_exec op s = Some (r, s)" "\<And>r. packets op r = 0 \<and> octets op r = 0" for r
    using that w by (simp add: books_refl)
  show ?thesis
  proof (cases op)
    case (Netdev_find n)
    then show ?thesis using netdev_wf_find [OF wf(2), of n] by (intro same) auto
  next
    case (Recv fd buf len)
    with recv_api [OF wf(1), of fd buf len] client_call_ok [OF op] obtain r where "net_exec op s = Some (r, s)" by auto
    then show ?thesis using Recv by (intro same) simp_all
  next
    case (Send fd buf len)
    with send_books [OF w, of fd buf len] op show ?thesis by simp
  next
    case (Close fd)
    with close_books [OF w, of fd] show ?thesis by simp
  next
    case (Socket domain ty protocol)
    with socket_books [OF w, of domain ty protocol] show ?thesis by simp
  next
    case (Connect fd)
    with state_calls_books [OF w, of op fd] show ?thesis by simp
  next
    case (Listen fd)
    with state_calls_books [OF w, of op fd] show ?thesis by simp
  next
    case (Shutdown fd)
    with state_calls_books [OF w, of op fd] show ?thesis by simp
  next
    case (Bind fd)
    with query_calls_api(1) [OF wf(1), of fd] obtain r where "net_exec op s = Some (r, s)" by auto
    then show ?thesis using Bind by (intro same) simp_all
  next
    case (Accept fd)
    with query_calls_api(4) [OF wf(1), of fd] obtain r where "net_exec op s = Some (r, s)" by auto
    then show ?thesis using Accept by (intro same) simp_all
  next
    case (Getsockopt fd)
    with query_calls_api(2) [OF wf(1), of fd] obtain r where "net_exec op s = Some (r, s)" by auto
    then show ?thesis using Getsockopt by (intro same) simp_all
  next
    case (Setsockopt fd)
    with query_calls_api(3) [OF wf(1), of fd] obtain r where "net_exec op s = Some (r, s)" by auto
    then show ?thesis using Setsockopt by (intro same) simp_all
  qed (use op in simp_all)
qed

lemma client_run_books:
  "lo_world s \<Longrightarrow> \<forall>op \<in> set ops. client_call op \<Longrightarrow>
     \<exists>rs t. net_run ops s = Some (rs, t) \<and> lo_world t \<and> books (packets_sent ops rs) (octets_sent ops rs) s t"
proof (induction ops arbitrary: s)
  case Nil
  then show ?case by (simp add: packets_sent_def octets_sent_def books_refl)
next
  case (Cons op ops)
  then obtain r s1 where s1: "net_exec op s = Some (r, s1)" "lo_world s1" "books (packets op r) (octets op r) s s1"
    using client_call_books [of s op] by auto
  from Cons.IH [OF s1(2)] Cons.prems(2) obtain rs t where t: "net_run ops s1 = Some (rs, t)" "lo_world t"
    "books (packets_sent ops rs) (octets_sent ops rs) s1 t" by auto
  from books_trans [OF s1(3) t(3)] show ?case using s1(1) t(1,2) by (simp add: packets_sent_def octets_sent_def)
qed

text \<open>There are as many socket blocks as open descriptors.\<close>

lemma card_socket_blocks:
  assumes wf: "sock_wf s"
  shows "card (socket_blocks s) = card (dom (socket_at s))"
proof -
  define f where "f = (\<lambda>fd. nova_socket_lookup fd s)"
  have "socket_at s fd = None \<longleftrightarrow> f fd = None" for fd
    using wf by (cases rule: socket_at_cases [of s fd]) (simp_all add: f_def)
  then have dom: "dom (socket_at s) = dom f" by (auto simp: dom_def)
  have "fd = fd'" if "f fd = Some a" "f fd' = Some a" for fd fd' a
    using lookup_inj [OF wf] that unfolding f_def by blast
  then have "inj_on (\<lambda>fd. the (f fd)) (dom f)" by (auto simp: inj_on_def)
  moreover have "socket_blocks s = (\<lambda>fd. the (f fd)) ` dom f"
    by (force simp: socket_blocks_def f_def [symmetric] dom_def fun_cong [OF f_def, symmetric])
  ultimately show ?thesis by (simp add: dom card_image)
qed

text \<open>
  Claim C6. The books of the network stack: bring the stack up as the README says (initialise,
  loopback, NIC stub) and make any sequence of socket calls, with any arguments (closed or unissued
  descriptors, buffers that are \<open>NULL\<close>, empty messages) and under any pattern of allocation failures.
  Every call returns.  At the end \<open>lo\<close> has counted exactly the packets and bytes of the sends that
  returned something other than -1, and each of them twice as received; \<open>nic0\<close> has counted nothing;
  and every block that is live and is not the socket of an open descriptor was live before or is one
  of the two blocks of a packet that was sent: nothing else leaks, and no sent packet is ever freed.
\<close>
theorem network_books:
  assumes "net_start s" "\<forall>op \<in> set calls. client_call op"
  shows "\<exists>rs t. net_run ([Network_init, Loopback_init, Nic_stub_init] @ calls) s = Some ([0, 0, 0] @ rs, t) \<and>
    (let k = packets_sent calls rs; n = octets_sent calls rs in
     nd_stats (devices t Lo_dev) = zero_stats\<lparr>tx_packets := of_nat k, tx_bytes := of_nat n,
       rx_packets := of_nat (2 * k), rx_bytes := of_nat (2 * n)\<rparr> \<and>
     nd_stats (devices t Nic_dev) = zero_stats \<and>
     (\<exists>P. dom (cells (net_heap t)) = socket_blocks t \<union> dom (cells (net_heap s)) \<union> P \<and>
        socket_blocks t \<inter> (dom (cells (net_heap s)) \<union> P) = {} \<and>
        P \<inter> dom (cells (net_heap s)) = {} \<and> card P = 2 * k \<and> card (socket_blocks t) = card (dom (socket_at t))))"
proof -
  obtain s1 s2 where init: "nova_loopback_init (snd (nova_network_init s)) = Some (0, s1)" "nova_nic_stub_init s1 = Some (0, s2)"
    and find: "nova_netdev_find (Some ''lo'') s2 = Some (Some Lo_dev)"
    and devs: "devices s2 = (devices s)(Lo_dev := lo_netdev, Nic_dev := nic_netdev)"
    and up: "g_network_initialized s2" "net_heap s2 = net_heap s" "g_socket_table s2 = replicate 64 None"
    and hook: "xmit_hook Lo_dev s2 = Some Lo_start_xmit"
    using network_bootstrap [of s] by auto
  have wf: "net_wf (snd (nova_network_init s))" by (rule net_wf_init(1) [OF net_start_wf [OF assms(1)]])
  then have "net_wf s1" using net_exec_safe [of _ Loopback_init] init(1) by fastforce
  then have "net_wf s2" using net_exec_safe [of _ Nic_stub_init] init(2) by fastforce
  moreover have none: "nova_socket_lookup fd s2 = None" for fd using up(3) by (auto simp: nova_socket_lookup_def nat_less_iff)
  ultimately have w: "lo_world s2" using find hook up(1) by (simp add: lo_world_def net_up_def socket_at_def)
  from client_run_books [OF w assms(2)] obtain rs t where t: "net_run calls s2 = Some (rs, t)" "lo_world t"
    "books (packets_sent calls rs) (octets_sent calls rs) s2 t" by blast
  let ?k = "packets_sent calls rs" and ?n = "octets_sent calls rs"
  have twf: "sock_wf t" using t(2) by (simp add: lo_world_def net_up_def net_wf_def)
  have run: "net_run ([Network_init, Loopback_init, Nic_stub_init] @ calls) s = Some ([0, 0, 0] @ rs, t)"
    using init t(1) by (simp add: nova_network_init_def)
  have stats: "nd_stats (devices t Lo_dev) = zero_stats\<lparr>tx_packets := of_nat ?k, tx_bytes := of_nat ?n,
       rx_packets := of_nat (2 * ?k), rx_bytes := of_nat (2 * ?n)\<rparr>" "nd_stats (devices t Nic_dev) = zero_stats"
    using t(3) by (simp_all add: books_def devs looped_def zero_stats_def)
  have "unowned s2 = dom (cells (net_heap s))" using up(2) none by (simp add: unowned_def socket_blocks_def)
  then obtain P where P: "unowned t = dom (cells (net_heap s)) \<union> P" "P \<inter> dom (cells (net_heap s)) = {}" "card P = 2 * ?k"
    using t(3) unfolding books_def by auto
  have "socket_blocks t \<subseteq> dom (cells (net_heap t))"
    using live_sockets(2) [OF twf] unfolding socket_blocks_def by blast
  then have "dom (cells (net_heap t)) = socket_blocks t \<union> dom (cells (net_heap s)) \<union> P"
    "socket_blocks t \<inter> (dom (cells (net_heap s)) \<union> P) = {}"
    using P(1) unfolding unowned_def by blast+
  moreover note card_socket_blocks [OF twf]
  ultimately show ?thesis using run stats P(2,3) unfolding Let_def by blast
qed

subsection \<open>Witnesses\<close>

theorem network_books_witness:
  "\<exists>rs t. net_run ([Network_init, Loopback_init, Nic_stub_init] @
      [Socket 2 2 0, Send 1 (Some [7, 8, 9]) 2, Send 5 None 0, Close 1]) cold_net = Some ([0, 0, 0] @ rs, t) \<and>
    nd_stats (devices t Nic_dev) = zero_stats"
  using network_books [OF cold_net_start, of "[Socket 2 2 0, Send 1 (Some [7, 8, 9]) 2, Send 5 None 0, Close 1]"]
  unfolding Let_def by (auto simp del: call_run.simps)

end
