(* ===== verification/Nova_Byteorder.thy ===== *)
theory Nova_Byteorder
  imports Nova_Prelude
begin

unbundle bit_operations_syntax

text \<open>
  The byte-order helpers of \<open>kernel/network/network_stack.c\<close>, which swap bytes whatever the host:
  what each result byte is, and that the conversions undo each other.
\<close>

definition nova_htonl :: "u32 \<Rightarrow> u32" where
  "nova_htonl hostlong =
     (push_bit 24 (hostlong AND 0x000000FF) OR push_bit 8 (hostlong AND 0x0000FF00)) OR
     (drop_bit 8 (hostlong AND 0x00FF0000) OR drop_bit 24 (hostlong AND 0xFF000000))"

text \<open>The 16-bit operand is promoted to \<open>int\<close> and the result is cut to 16 bits again.\<close>

definition nova_htons :: "u16 \<Rightarrow> u16" where
  "nova_htons hostshort =
     ucast (push_bit 8 (ucast hostshort AND (0x00FF :: u32)) OR drop_bit 8 (ucast hostshort AND (0xFF00 :: u32)))"

definition nova_ntohl :: "u32 \<Rightarrow> u32" where
  "nova_ntohl netlong = nova_htonl netlong"

definition nova_ntohs :: "u16 \<Rightarrow> u16" where
  "nova_ntohs netshort = nova_htons netshort"

text \<open>Byte \<open>i\<close> of a word, the least significant first.\<close>

definition byte_of :: "nat \<Rightarrow> 'w::len word \<Rightarrow> u8" where
  "byte_of i w = ucast (drop_bit (8 * i) w)"

lemma bit_byte_of: "bit (byte_of i w) n \<longleftrightarrow> n < 8 \<and> bit w (8 * i + n)" for w :: "'w::len word"
  by (auto simp: byte_of_def bit_simps add.commute)

text \<open>The masks of the code keep one byte each.\<close>

lemma nova_htonl_masks:
  "nova_htonl w =
     (push_bit 24 (w AND mask 8) OR push_bit 8 (w AND push_bit 8 (mask 8))) OR
     (drop_bit 8 (w AND push_bit 16 (mask 8)) OR drop_bit 24 (w AND push_bit 24 (mask 8)))"
proof -
  have "(mask 8 :: u32) = 0x000000FF" by (simp add: mask_eq_exp_minus_1)
  then show ?thesis by (simp add: nova_htonl_def push_bit_eq_mult)
qed

lemma nova_htonl_bit:
  assumes "n < 8"
  shows "bit (nova_htonl w) n \<longleftrightarrow> bit w (24 + n)" "bit (nova_htonl w) (8 + n) \<longleftrightarrow> bit w (16 + n)"
    "bit (nova_htonl w) (16 + n) \<longleftrightarrow> bit w (8 + n)" "bit (nova_htonl w) (24 + n) \<longleftrightarrow> bit w n"
  using assms by (auto simp: nova_htonl_masks bit_simps add.commute)

lemma nova_htons_bit:
  assumes "n < 8"
  shows "bit (nova_htons w) n \<longleftrightarrow> bit w (8 + n)" "bit (nova_htons w) (8 + n) \<longleftrightarrow> bit w n"
proof -
  have m: "(mask 8 :: u32) = 0x00FF" by (simp add: mask_eq_exp_minus_1)
  have "nova_htons w =
      ucast (push_bit 8 (ucast w AND (mask 8 :: u32)) OR drop_bit 8 (ucast w AND (push_bit 8 (mask 8) :: u32)))"
    unfolding nova_htons_def m by (simp add: push_bit_eq_mult)
  then show "bit (nova_htons w) n \<longleftrightarrow> bit w (8 + n)" "bit (nova_htons w) (8 + n) \<longleftrightarrow> bit w n"
    using assms by (auto simp: bit_simps add.commute)
qed

text \<open>Words with the same bytes are equal.\<close>

lemma u32_bytes_eqI: "(\<And>i. i < 4 \<Longrightarrow> byte_of i v = byte_of i w) \<Longrightarrow> v = w" for v w :: u32
proof (rule bit_word_eqI)
  fix n assume eq: "\<And>i. i < 4 \<Longrightarrow> byte_of i v = byte_of i w" and n: "n < LENGTH(32)"
  have "n div 8 < 4" "n mod 8 < 8" "8 * (n div 8) + n mod 8 = n" using n by auto
  then show "bit v n = bit w n" using eq [of "n div 8"] bit_byte_of by metis
qed

lemma u16_bytes_eqI: "(\<And>i. i < 2 \<Longrightarrow> byte_of i v = byte_of i w) \<Longrightarrow> v = w" for v w :: u16
proof (rule bit_word_eqI)
  fix n assume eq: "\<And>i. i < 2 \<Longrightarrow> byte_of i v = byte_of i w" and n: "n < LENGTH(16)"
  have "n div 8 < 2" "n mod 8 < 8" "8 * (n div 8) + n mod 8 = n" using n by auto
  then show "bit v n = bit w n" using eq [of "n div 8"] bit_byte_of by metis
qed

lemma htonl_bytes:
  "byte_of 0 (nova_htonl w) = byte_of 3 w" "byte_of 1 (nova_htonl w) = byte_of 2 w"
  "byte_of 2 (nova_htonl w) = byte_of 1 w" "byte_of 3 (nova_htonl w) = byte_of 0 w"
  by (rule bit_word_eqI, simp add: bit_byte_of nova_htonl_bit)+

lemma htons_bytes: "byte_of 0 (nova_htons v) = byte_of 1 v" "byte_of 1 (nova_htons v) = byte_of 0 v"
  by (rule bit_word_eqI, simp add: bit_byte_of nova_htons_bit)+

lemma less_4: "i < 4 \<Longrightarrow> i = 0 \<or> i = 1 \<or> i = 2 \<or> i = (3 :: nat)" and less_2: "i < 2 \<Longrightarrow> i = 0 \<or> i = (1 :: nat)"
  by auto

text \<open>
  Claim C27. The byte-order helpers reverse the bytes of their argument, 32 and 16 bits wide, on any
  host, and the conversion from network order undoes the one to it, in both orders of application.
\<close>
theorem byteorder_spec:
  "byte_of 0 (nova_htonl w) = byte_of 3 w \<and> byte_of 1 (nova_htonl w) = byte_of 2 w \<and>
   byte_of 2 (nova_htonl w) = byte_of 1 w \<and> byte_of 3 (nova_htonl w) = byte_of 0 w \<and>
   byte_of 0 (nova_htons v) = byte_of 1 v \<and> byte_of 1 (nova_htons v) = byte_of 0 v \<and>
   nova_ntohl (nova_htonl w) = w \<and> nova_htonl (nova_ntohl w) = w \<and>
   nova_ntohs (nova_htons v) = v \<and> nova_htons (nova_ntohs v) = v"
proof -
  have "nova_htonl (nova_htonl w) = w"
    by (rule u32_bytes_eqI, drule less_4) (elim disjE; simp only: htonl_bytes)
  moreover have "nova_htons (nova_htons v) = v"
    by (rule u16_bytes_eqI, drule less_2) (elim disjE; simp only: htons_bytes)
  ultimately show ?thesis using htonl_bytes htons_bytes by (simp add: nova_ntohl_def nova_ntohs_def)
qed

end
