(* ===== verification/Nova_Io.thy ===== *)
theory Nova_Io
  imports Nova_Heap "HOL-Library.Monad_Syntax"
begin

text \<open>
  The I/O stack of \<open>kernel/io\<close>: the device registry, I/O requests, block transfers and completion
  ports.

  Devices, requests and ports are blocks of one heap; \<open>static_mem\<close> says which addresses are static
  storage, which may not be freed.  A driver's \<open>submit_io\<close> is not part of the tree: the operations
  that reach it take the driver table as the argument \<open>drv\<close>.  An operation returns \<open>None\<close> when it does
  not return normally: it uses a dead block, walks a cyclic list for ever or spins on a lock that is
  never released.

  \<open>io_stack.c\<close> uses a member \<open>prev\<close> that \<open>struct nova_device\<close> of \<open>io_stack.h\<close> does not declare; the
  model has it.  In \<open>nova_block_read_sectors\<close> the condition of the conditional expression
  reads \<open>dev->block_ops\<close> and both branches are \<open>count * 512\<close>; the model has that read.
\<close>

subsection \<open>Types\<close>

datatype nova_io_type = NOVA_IO_READ | NOVA_IO_WRITE | NOVA_IO_IOCTL | NOVA_IO_FLUSH | NOVA_IO_DISCARD

datatype nova_io_status = NOVA_IO_PENDING | NOVA_IO_SUCCESS | NOVA_IO_ERROR | NOVA_IO_CANCELLED

datatype nova_device_type =
  NOVA_DEVICE_BLOCK | NOVA_DEVICE_CHAR | NOVA_DEVICE_NETWORK | NOVA_DEVICE_FRAMEBUFFER
| NOVA_DEVICE_INPUT | NOVA_DEVICE_AUDIO

text \<open>A function pointer of a driver is a number in the driver table.\<close>

record nova_block_ops =
  bo_open :: "nat option"
  bo_close :: "nat option"
  bo_submit_io :: "nat option"
  bo_flush :: "nat option"
  bo_get_geometry :: "nat option"

text \<open>The operation tables that the union of \<open>struct nova_device\<close> can point to; those of other
  device classes are never read by the stack.\<close>

datatype dev_ops = Block_ops nova_block_ops | Other_ops nat

record nova_device =
  dv_name :: "char list"
  dv_path :: "char list"
  dv_type :: nova_device_type
  dv_major :: u32
  dv_minor :: u32
  dv_ref_count :: int
  dv_flags :: int
  dv_private_data :: "nat option"
  dv_ops :: "dev_ops option"
  dv_next :: "nat option"
  dv_prev :: "nat option"
  dv_parent :: "nat option"

text \<open>The type of a request is \<open>None\<close>, the zero of \<open>calloc\<close>, until it is set.\<close>

record nova_io_request =
  rq_type :: "nova_io_type option"
  rq_status :: nova_io_status
  rq_device :: "nat option"
  rq_offset :: u64
  rq_buffer :: "nat option"
  rq_length :: u64
  rq_flags :: u32
  rq_timeout_ms :: u64
  rq_callback :: "nat option"
  rq_callback_ctx :: "nat option"
  rq_completion :: "nat option"
  rq_error_code :: int

record nova_io_completion_port =
  cp_queue :: "nat option"
  cp_max_events :: u32
  cp_timeout_ms :: u32

datatype io_obj = Dev nova_device | Req nova_io_request | Port nova_io_completion_port

record io_state =
  io_heap :: "io_obj heap"
  static_mem :: "nat \<Rightarrow> bool"
  g_device_registry :: "nat option"
  g_next_major :: u32
  g_io_initialized :: bool
  g_registry_lock :: bool

subsection \<open>Memory\<close>

definition get_dev :: "nat \<Rightarrow> io_state \<Rightarrow> nova_device option" where
  "get_dev a s = (case cells (io_heap s) a of Some (Dev d) \<Rightarrow> Some d | _ \<Rightarrow> None)"

definition put_dev :: "nat \<Rightarrow> nova_device \<Rightarrow> io_state \<Rightarrow> io_state" where
  "put_dev a d s = s\<lparr>io_heap := store a (Dev d) (io_heap s)\<rparr>"

definition get_req :: "nat \<Rightarrow> io_state \<Rightarrow> nova_io_request option" where
  "get_req a s = (case cells (io_heap s) a of Some (Req r) \<Rightarrow> Some r | _ \<Rightarrow> None)"

definition put_req :: "nat \<Rightarrow> nova_io_request \<Rightarrow> io_state \<Rightarrow> io_state" where
  "put_req a r s = s\<lparr>io_heap := store a (Req r) (io_heap s)\<rparr>"

definition io_free :: "nat \<Rightarrow> io_state \<Rightarrow> io_state option" where
  "io_free a s = (if static_mem s a then None
                  else do { h \<leftarrow> free (Some a) (io_heap s); Some (s\<lparr>io_heap := h\<rparr>) })"

subsection \<open>The lock\<close>

definition lock_registry :: "io_state \<Rightarrow> io_state option" where
  "lock_registry s = (if g_registry_lock s then None else Some (s\<lparr>g_registry_lock := True\<rparr>))"

definition unlock_registry :: "io_state \<Rightarrow> io_state" where
  "unlock_registry s = s\<lparr>g_registry_lock := False\<rparr>"

subsection \<open>The device registry\<close>

definition nova_io_init :: "io_state \<Rightarrow> int \<times> io_state" where
  "nova_io_init s =
     (if g_io_initialized s then (0, s)
      else (0, s\<lparr>g_device_registry := None, g_next_major := 1, g_io_initialized := True\<rparr>))"

partial_function (option) io_free_loop :: "nat option \<Rightarrow> io_state \<Rightarrow> io_state option" where
  "io_free_loop p s =
     (case p of None \<Rightarrow> Some s
      | Some a \<Rightarrow> do {
          d \<leftarrow> get_dev a s;
          s1 \<leftarrow> io_free a s;
          io_free_loop (dv_next d) s1 })"

definition nova_io_shutdown :: "io_state \<Rightarrow> (int \<times> io_state) option" where
  "nova_io_shutdown s =
     (if \<not> g_io_initialized s then Some (0, s)
      else do {
        s1 \<leftarrow> lock_registry s;
        s2 \<leftarrow> io_free_loop (g_device_registry s1) s1;
        Some (0, (unlock_registry (s2\<lparr>g_device_registry := None\<rparr>))\<lparr>g_io_initialized := False\<rparr>) })"

definition nova_device_register :: "nat option \<Rightarrow> io_state \<Rightarrow> (int \<times> io_state) option" where
  "nova_device_register dev s =
     (case dev of None \<Rightarrow> Some (-1, s)
      | Some a \<Rightarrow> do {
          d \<leftarrow> get_dev a s;
          (if dv_name d ! 0 = NUL then Some (-1, s)
           else do {
             s1 \<leftarrow> lock_registry s;
             let s2 = (if dv_major d = 0
                       then put_dev a (d\<lparr>dv_major := g_next_major s1\<rparr>) (s1\<lparr>g_next_major := g_next_major s1 + 1\<rparr>)
                       else s1);
             d2 \<leftarrow> get_dev a s2;
             let s3 = put_dev a (d2\<lparr>dv_next := g_device_registry s2\<rparr>) s2;
             s4 \<leftarrow> (case g_device_registry s3 of None \<Rightarrow> Some s3
                    | Some b \<Rightarrow> do { e \<leftarrow> get_dev b s3; Some (put_dev b (e\<lparr>dv_prev := Some a\<rparr>) s3) });
             Some (0, unlock_registry (s4\<lparr>g_device_registry := Some a\<rparr>)) }) })"

text \<open>The unlinking walk with the C variables \<open>prev\<close> and \<open>curr\<close>.\<close>

partial_function (option) io_unregister_loop ::
  "nat \<Rightarrow> nat option \<Rightarrow> nat option \<Rightarrow> io_state \<Rightarrow> (int \<times> io_state) option" where
  "io_unregister_loop dev prev cur s =
     (case cur of None \<Rightarrow> Some (-1, unlock_registry s)
      | Some c \<Rightarrow> do {
          d \<leftarrow> get_dev c s;
          (if c = dev then do {
             s1 \<leftarrow> (case prev of
                      Some p \<Rightarrow> do { e \<leftarrow> get_dev p s; Some (put_dev p (e\<lparr>dv_next := dv_next d\<rparr>) s) }
                    | None \<Rightarrow> Some (s\<lparr>g_device_registry := dv_next d\<rparr>));
             s2 \<leftarrow> (case dv_next d of None \<Rightarrow> Some s1
                    | Some n \<Rightarrow> do { e \<leftarrow> get_dev n s1; Some (put_dev n (e\<lparr>dv_prev := prev\<rparr>) s1) });
             Some (0, unlock_registry s2) }
           else io_unregister_loop dev (Some c) (dv_next d) s) })"

definition nova_device_unregister :: "nat option \<Rightarrow> io_state \<Rightarrow> (int \<times> io_state) option" where
  "nova_device_unregister dev s =
     (case dev of None \<Rightarrow> Some (-1, s)
      | Some a \<Rightarrow> do { s1 \<leftarrow> lock_registry s; io_unregister_loop a None (g_device_registry s1) s1 })"

text \<open>The two lookups differ in the test only.\<close>

partial_function (option) device_walk ::
  "(nova_device \<Rightarrow> bool) \<Rightarrow> io_state \<Rightarrow> nat option \<Rightarrow> nat option option" where
  "device_walk test s p =
     (case p of None \<Rightarrow> Some None
      | Some a \<Rightarrow> do {
          d \<leftarrow> get_dev a s;
          (if test d then Some (Some a) else device_walk test s (dv_next d)) })"

definition nova_device_find :: "string option \<Rightarrow> io_state \<Rightarrow> (nat option \<times> io_state) option" where
  "nova_device_find path s =
     (case path of None \<Rightarrow> Some (None, s)
      | Some n \<Rightarrow> do {
          s1 \<leftarrow> lock_registry s;
          r \<leftarrow> device_walk (\<lambda>d. cstr (dv_path d) = n) s1 (g_device_registry s1);
          Some (r, unlock_registry s1) })"

definition nova_device_get_by_major_minor :: "u32 \<Rightarrow> u32 \<Rightarrow> io_state \<Rightarrow> (nat option \<times> io_state) option" where
  "nova_device_get_by_major_minor major minor s = do {
     s1 \<leftarrow> lock_registry s;
     r \<leftarrow> device_walk (\<lambda>d. dv_major d = major \<and> dv_minor d = minor) s1 (g_device_registry s1);
     Some (r, unlock_registry s1) }"

subsection \<open>Requests\<close>

definition zero_req :: nova_io_request where
  "zero_req = \<lparr>rq_type = None, rq_status = NOVA_IO_PENDING, rq_device = None, rq_offset = 0,
     rq_buffer = None, rq_length = 0, rq_flags = 0, rq_timeout_ms = 0, rq_callback = None,
     rq_callback_ctx = None, rq_completion = None, rq_error_code = 0\<rparr>"

definition nova_io_request_alloc :: "io_state \<Rightarrow> nat option \<times> io_state" where
  "nova_io_request_alloc s =
     (case calloc (Req zero_req) (io_heap s) of
        (None, h) \<Rightarrow> (None, s\<lparr>io_heap := h\<rparr>)
      | (Some a, h) \<Rightarrow>
          (Some a, put_req a (zero_req\<lparr>rq_status := NOVA_IO_PENDING, rq_flags := 0, rq_timeout_ms := 5000\<rparr>)
            (s\<lparr>io_heap := h\<rparr>)))"

definition nova_io_request_free :: "nat option \<Rightarrow> io_state \<Rightarrow> io_state option" where
  "nova_io_request_free req s = (case req of None \<Rightarrow> Some s | Some a \<Rightarrow> io_free a s)"

text \<open>A driver function gets the device and the request and may change both.\<close>

type_synonym driver = "nat \<Rightarrow> nat \<Rightarrow> nat \<Rightarrow> io_state \<Rightarrow> (int \<times> io_state) option"

text \<open>The \<open>submit_io\<close> entry that the switch of \<open>nova_io_submit\<close> calls, if it calls one.  The code
  trusts the class of a device: it reads the union of operation tables of a block device as a block
  table.  The tag of the model stands for what the driver stored there, and a block device with
  another table, which the code would misread, counts as having no entry.\<close>

definition submit_entry :: "nova_device \<Rightarrow> nat option" where
  "submit_entry d =
     (case dv_type d of
        NOVA_DEVICE_BLOCK \<Rightarrow> (case dv_ops d of Some (Block_ops ops) \<Rightarrow> bo_submit_io ops | _ \<Rightarrow> None)
      | _ \<Rightarrow> None)"

definition nova_io_submit :: "driver \<Rightarrow> nat option \<Rightarrow> io_state \<Rightarrow> (int \<times> io_state) option" where
  "nova_io_submit drv req s =
     (case req of None \<Rightarrow> Some (-1, s)
      | Some a \<Rightarrow> do {
          r \<leftarrow> get_req a s;
          (case (rq_device r, rq_buffer r) of
             (Some dev, Some _) \<Rightarrow> do {
               d \<leftarrow> get_dev dev s;
               (case submit_entry d of
                  Some f \<Rightarrow> drv f dev a s
                | None \<Rightarrow> Some (-1, put_req a (r\<lparr>rq_status := NOVA_IO_ERROR, rq_error_code := -1\<rparr>) s)) }
           | _ \<Rightarrow> Some (-1, s)) })"

definition nova_io_wait :: "nat option \<Rightarrow> u32 \<Rightarrow> io_state \<Rightarrow> int \<times> io_state" where
  "nova_io_wait req timeout_ms s = (0, s)"

definition nova_io_cancel :: "nat option \<Rightarrow> io_state \<Rightarrow> (int \<times> io_state) option" where
  "nova_io_cancel req s =
     (case req of None \<Rightarrow> Some (-1, s)
      | Some a \<Rightarrow> do {
          r \<leftarrow> get_req a s;
          (if rq_status r \<noteq> NOVA_IO_PENDING then Some (-1, s)
           else Some (0, put_req a (r\<lparr>rq_status := NOVA_IO_CANCELLED\<rparr>) s)) })"

text \<open>The tail that both transfers share: submit, wait, read the outcome, free the request.\<close>

definition finish_transfer :: "driver \<Rightarrow> nat \<Rightarrow> io_state \<Rightarrow> (int \<times> io_state) option" where
  "finish_transfer drv req s = do {
     (result, s1) \<leftarrow> nova_io_submit drv (Some req) s;
     (result2, s2) \<leftarrow>
       (if result = 0 then do {
          r0 \<leftarrow> get_req req s1;
          let w = nova_io_wait (Some req) (ucast (rq_timeout_ms r0)) s1;
          r \<leftarrow> get_req req (snd w);
          Some (if rq_status r = NOVA_IO_SUCCESS then 0 else rq_error_code r, snd w) }
        else Some (result, s1));
     s3 \<leftarrow> nova_io_request_free (Some req) s2;
     Some (result2, s3) }"

definition nova_block_read_sectors ::
  "driver \<Rightarrow> nat option \<Rightarrow> u64 \<Rightarrow> nat option \<Rightarrow> u32 \<Rightarrow> io_state \<Rightarrow> (int \<times> io_state) option" where
  "nova_block_read_sectors drv dev sector buf count s =
     (case (dev, buf) of
        (Some d, Some _) \<Rightarrow>
          if count = 0 then Some (-1, s)
          else
            (case nova_io_request_alloc s of
               (None, s1) \<Rightarrow> Some (-1, s1)
             | (Some a, s1) \<Rightarrow> do {
                 r \<leftarrow> get_req a s1;
                 dd \<leftarrow> get_dev d s1;
                 ops \<leftarrow> dv_ops dd;
                 finish_transfer drv a (put_req a
                   (r\<lparr>rq_type := Some NOVA_IO_READ, rq_device := Some d, rq_offset := sector,
                      rq_buffer := buf, rq_length := ucast (count * 512)\<rparr>) s1) })
      | _ \<Rightarrow> Some (-1, s))"

definition nova_block_write_sectors ::
  "driver \<Rightarrow> nat option \<Rightarrow> u64 \<Rightarrow> nat option \<Rightarrow> u32 \<Rightarrow> io_state \<Rightarrow> (int \<times> io_state) option" where
  "nova_block_write_sectors drv dev sector buf count s =
     (case (dev, buf) of
        (Some d, Some _) \<Rightarrow>
          if count = 0 then Some (-1, s)
          else
            (case nova_io_request_alloc s of
               (None, s1) \<Rightarrow> Some (-1, s1)
             | (Some a, s1) \<Rightarrow> do {
                 r \<leftarrow> get_req a s1;
                 finish_transfer drv a (put_req a
                   (r\<lparr>rq_type := Some NOVA_IO_WRITE, rq_device := Some d, rq_offset := sector,
                      rq_buffer := buf, rq_length := ucast (count * 512)\<rparr>) s1) })
      | _ \<Rightarrow> Some (-1, s))"

subsection \<open>Completion ports\<close>

text \<open>\<open>INFINITE\<close> is not defined in the tree, so its value is an argument.\<close>

definition zero_port :: nova_io_completion_port where
  "zero_port = \<lparr>cp_queue = None, cp_max_events = 0, cp_timeout_ms = 0\<rparr>"

definition nova_io_completion_port_create :: "u32 \<Rightarrow> u32 \<Rightarrow> io_state \<Rightarrow> nat option \<times> io_state" where
  "nova_io_completion_port_create INFINITE max_events s =
     (case calloc (Port zero_port) (io_heap s) of
        (None, h) \<Rightarrow> (None, s\<lparr>io_heap := h\<rparr>)
      | (Some a, h) \<Rightarrow>
          (Some a, s\<lparr>io_heap := store a
             (Port (zero_port\<lparr>cp_max_events := max_events, cp_timeout_ms := INFINITE\<rparr>)) h\<rparr>))"

definition nova_io_completion_port_destroy :: "nat option \<Rightarrow> io_state \<Rightarrow> (int \<times> io_state) option" where
  "nova_io_completion_port_destroy port s =
     (case port of None \<Rightarrow> Some (-1, s) | Some a \<Rightarrow> do { s1 \<leftarrow> io_free a s; Some (0, s1) })"

definition nova_io_completion_port_associate :: "nat option \<Rightarrow> nat option \<Rightarrow> nat \<Rightarrow> io_state \<Rightarrow> int \<times> io_state" where
  "nova_io_completion_port_associate port dev key s = (0, s)"

definition nova_io_completion_port_get_event :: "nat option \<Rightarrow> nat option \<Rightarrow> u32 \<Rightarrow> io_state \<Rightarrow> int \<times> io_state" where
  "nova_io_completion_port_get_event port req timeout_ms s = (-1, s)"

declare io_free_loop.simps [code] io_unregister_loop.simps [code] device_walk.simps [code]

subsection \<open>Doubly linked lists\<close>

text \<open>\<open>linked nxt prv p xs\<close>: the forward links from \<open>p\<close> visit \<open>xs\<close>, and every element but the first
  points back to the one before it.\<close>

definition linked :: "(nat \<Rightarrow> nat option) \<Rightarrow> (nat \<Rightarrow> nat option) \<Rightarrow> nat option \<Rightarrow> nat list \<Rightarrow> bool" where
  "linked nxt prv p xs \<longleftrightarrow> plist nxt p xs \<and> successively (\<lambda>x y. prv y = Some x) xs"

lemma successively_upd:
  "z \<notin> set (tl xs) \<Longrightarrow> successively (\<lambda>x y. (prv(z := v)) y = Some x) xs = successively (\<lambda>x y. prv y = Some x) xs"
  by (induction xs rule: induct_list012) auto

lemma linked_insert:
  assumes "linked nxt prv p xs" "a \<notin> set xs"
  shows "linked (nxt(a := p)) (case p of None \<Rightarrow> prv | Some b \<Rightarrow> prv(b := Some a)) (Some a) (a # xs)"
proof -
  have dist: "distinct xs" using assms(1) plist_distinct unfolding linked_def by blast
  have "plist (nxt(a := p)) p xs"
    using assms by (subst plist_cong [of _ _ nxt]) (auto simp: linked_def)
  moreover have "successively (\<lambda>x y. (case p of None \<Rightarrow> prv | Some b \<Rightarrow> prv(b := Some a)) y = Some x) (a # xs)"
  proof (cases xs)
    case Nil
    then show ?thesis by simp
  next
    case (Cons b ys)
    then have p: "p = Some b" using assms(1) by (simp add: linked_def)
    have "successively (\<lambda>x y. (prv(b := Some a)) y = Some x) xs"
      using assms(1) dist Cons by (subst successively_upd) (auto simp: linked_def)
    then show ?thesis using Cons p by (simp add: successively_Cons)
  qed
  ultimately show ?thesis by (simp add: linked_def)
qed

text \<open>Unlinking \<open>a\<close>: its predecessor, or the head, skips it, and its successor points back past it.\<close>

lemma linked_remove:
  assumes lk: "linked nxt prv p (ds @ a # zs)"
  defines "before \<equiv> (if ds = [] then None else Some (last ds))"
  shows "linked (case before of None \<Rightarrow> nxt | Some q \<Rightarrow> nxt(q := nxt a))
     (case nxt a of None \<Rightarrow> prv | Some z \<Rightarrow> prv(z := before))
     (case before of None \<Rightarrow> nxt a | Some q \<Rightarrow> p) (ds @ zs)"
proof -
  have dist: "distinct (ds @ a # zs)" using lk plist_distinct unfolding linked_def by blast
  have tail: "plist nxt (nxt a) zs" using plist_suffix [of nxt p ds a zs] lk by (simp add: linked_def)
  have fwd: "plist (case before of None \<Rightarrow> nxt | Some q \<Rightarrow> nxt(q := nxt a))
     (case before of None \<Rightarrow> nxt a | Some q \<Rightarrow> p) (ds @ zs)"
  proof (cases ds rule: rev_cases)
    case Nil
    with tail show ?thesis by (simp add: before_def)
  next
    case (snoc ys q)
    have "plist (nxt(q := nxt a, a := None)) p (ds @ zs)"
      using plist_unlink [of nxt p ys q a zs] lk snoc by (simp add: linked_def)
    moreover have "plist (nxt(q := nxt a, a := None)) p (ds @ zs) = plist (nxt(q := nxt a)) p (ds @ zs)"
      using dist by (intro plist_cong) auto
    ultimately show ?thesis using snoc by (simp add: before_def)
  qed
  have parts: "successively (\<lambda>x y. prv y = Some x) ds" "successively (\<lambda>x y. prv y = Some x) zs"
    using lk by (auto simp: linked_def successively_append_iff successively_Cons)
  have bwd: "successively (\<lambda>x y. (case nxt a of None \<Rightarrow> prv | Some z \<Rightarrow> prv(z := before)) y = Some x) (ds @ zs)"
  proof (cases zs)
    case Nil
    with tail parts(1) show ?thesis by simp
  next
    case (Cons z zs')
    then have z: "nxt a = Some z" using tail by simp
    have "z \<notin> set (tl ds)" using dist Cons by (cases ds) auto
    then have "successively (\<lambda>x y. (prv(z := before)) y = Some x) ds" using parts(1) by (subst successively_upd) auto
    moreover have "successively (\<lambda>x y. (prv(z := before)) y = Some x) zs"
      using parts(2) dist Cons by (subst successively_upd) auto
    ultimately show ?thesis
      using Cons z by (auto simp: successively_append_iff before_def)
  qed
  from fwd bwd show ?thesis by (simp add: linked_def)
qed

subsection \<open>The registry\<close>

definition io_next :: "io_state \<Rightarrow> nat \<Rightarrow> nat option" where
  "io_next s a = (case get_dev a s of None \<Rightarrow> None | Some d \<Rightarrow> dv_next d)"

definition io_prev :: "io_state \<Rightarrow> nat \<Rightarrow> nat option" where
  "io_prev s a = (case get_dev a s of None \<Rightarrow> None | Some d \<Rightarrow> dv_prev d)"

text \<open>The registry is a well-linked list of exactly the live devices \<open>xs\<close>.\<close>

definition io_registered :: "io_state \<Rightarrow> nat list \<Rightarrow> bool" where
  "io_registered s xs \<longleftrightarrow> linked (io_next s) (io_prev s) (g_device_registry s) xs \<and>
     (\<forall>a \<in> set xs. get_dev a s \<noteq> None)"

text \<open>A device without its links.\<close>

definition dev_id :: "nova_device \<Rightarrow> nova_device" where
  "dev_id d = d\<lparr>dv_next := None, dv_prev := None\<rparr>"

definition same_devices :: "io_state \<Rightarrow> io_state \<Rightarrow> bool" where
  "same_devices s t \<longleftrightarrow> (\<forall>a. map_option dev_id (get_dev a t) = map_option dev_id (get_dev a s))"

lemma dev_id_sel [simp]:
  "dv_path (dev_id d) = dv_path d" "dv_name (dev_id d) = dv_name d" "dv_type (dev_id d) = dv_type d"
  "dv_major (dev_id d) = dv_major d" "dv_minor (dev_id d) = dv_minor d" "dv_ops (dev_id d) = dv_ops d"
  by (simp_all add: dev_id_def)

lemma path_of_id: "map_option dev_id m = Some (dev_id d) \<Longrightarrow> map_option dv_path m = Some (dv_path d)"
  by (cases m) (auto dest: arg_cong [of _ _ dv_path])

lemma get_dev_upd [simp]:
  "get_dev a (s\<lparr>g_registry_lock := b\<rparr>) = get_dev a s" "get_dev a (s\<lparr>g_device_registry := p\<rparr>) = get_dev a s"
  "get_dev a (s\<lparr>g_next_major := m\<rparr>) = get_dev a s" "get_dev a (s\<lparr>g_io_initialized := i\<rparr>) = get_dev a s"
  "get_dev a (put_dev c d s) = (if a = c then Some d else get_dev a s)"
  "get_dev a (unlock_registry s) = get_dev a s"
  by (simp_all add: get_dev_def put_dev_def unlock_registry_def)

lemma put_dev_sel [simp]:
  "g_device_registry (put_dev a d s) = g_device_registry s" "g_registry_lock (put_dev a d s) = g_registry_lock s"
  "g_next_major (put_dev a d s) = g_next_major s" "g_io_initialized (put_dev a d s) = g_io_initialized s"
  by (simp_all add: put_dev_def)

lemma unlock_sel [simp]:
  "g_device_registry (unlock_registry s) = g_device_registry s" "g_registry_lock (unlock_registry s) = False"
  "g_next_major (unlock_registry s) = g_next_major s" "g_io_initialized (unlock_registry s) = g_io_initialized s"
  by (simp_all add: unlock_registry_def)

lemma unlock_lock [simp]: "\<not> g_registry_lock s \<Longrightarrow> unlock_registry (s\<lparr>g_registry_lock := True\<rparr>) = s"
  by (simp add: unlock_registry_def)

lemma links_upd [simp]:
  "io_next (s\<lparr>g_registry_lock := b\<rparr>) = io_next s" "io_prev (s\<lparr>g_registry_lock := b\<rparr>) = io_prev s"
  "io_next (s\<lparr>g_device_registry := p\<rparr>) = io_next s" "io_prev (s\<lparr>g_device_registry := p\<rparr>) = io_prev s"
  "io_next (s\<lparr>g_next_major := m\<rparr>) = io_next s" "io_prev (s\<lparr>g_next_major := m\<rparr>) = io_prev s"
  "io_next (unlock_registry s) = io_next s" "io_prev (unlock_registry s) = io_prev s"
  "io_next (put_dev a d s) = (io_next s)(a := dv_next d)" "io_prev (put_dev a d s) = (io_prev s)(a := dv_prev d)"
  by (simp_all add: io_next_def io_prev_def fun_eq_iff)

lemma links_of: "get_dev a s = Some d \<Longrightarrow> io_next s a = dv_next d \<and> io_prev s a = dv_prev d"
  by (simp add: io_next_def io_prev_def)

text \<open>A lookup is the first match in the list.\<close>

lemma device_walk_plist:
  "plist (io_next s) p xs \<Longrightarrow> \<forall>a \<in> set xs. get_dev a s \<noteq> None \<Longrightarrow>
     device_walk test s p = Some (find (\<lambda>a. test (the (get_dev a s))) xs)"
proof (induction xs arbitrary: p)
  case (Cons x xs)
  then obtain d where d: "get_dev x s = Some d" by auto
  then have "io_next s x = dv_next d" by (simp add: io_next_def)
  with Cons d show ?case by (subst device_walk.simps) simp
qed (simp add: device_walk.simps)

text \<open>A walk that stays among live devices that fail the test does not end.\<close>

lemma device_walk_diverges:
  assumes closed: "\<And>a. a \<in> C \<Longrightarrow> \<exists>d b. get_dev a s = Some d \<and> \<not> test d \<and> dv_next d = Some b \<and> b \<in> C"
    and a: "a \<in> C"
  shows "device_walk test s (Some a) = None"
proof -
  have never: "test' = test \<longrightarrow> s' = s \<longrightarrow> p \<in> Some ` C \<longrightarrow> False"
    if "device_walk test' s' p = Some r" for test' s' p r
    using _ that
  proof (rule device_walk.raw_induct)
    fix walk test' s' p r
    assume IH: "\<And>test' s' p r. walk test' s' p = Some r \<Longrightarrow>
        test' = test \<longrightarrow> s' = s \<longrightarrow> p \<in> Some ` C \<longrightarrow> False"
      and body: "(case p of None \<Rightarrow> Some None
        | Some a \<Rightarrow> get_dev a s' \<bind> (\<lambda>d. if test' d then Some (Some a) else walk test' s' (dv_next d))) = Some r"
    show "test' = test \<longrightarrow> s' = s \<longrightarrow> p \<in> Some ` C \<longrightarrow> False"
    proof (intro impI)
      assume eq: "test' = test" "s' = s" "p \<in> Some ` C"
      then obtain a where "p = Some a" "a \<in> C" by blast
      moreover obtain d b where "get_dev a s = Some d" "\<not> test d" "dv_next d = Some b" "b \<in> C"
        using closed [OF \<open>a \<in> C\<close>] by blast
      ultimately have "walk test s (Some b) = Some r" using body eq by simp
      with IH [of test s "Some b" r] \<open>b \<in> C\<close> show False by simp
    qed
  qed
  show ?thesis
  proof (cases "device_walk test s (Some a)")
    case (Some r)
    from never [OF this] a show ?thesis by blast
  qed
qed

text \<open>What a successful registration does, whether or not the device is registered already.\<close>

lemma register_effect:
  assumes dev: "get_dev a s = Some d" "dv_name d ! 0 \<noteq> NUL" and unlocked: "\<not> g_registry_lock s"
    and head: "\<And>b. g_device_registry s = Some b \<Longrightarrow> get_dev b s \<noteq> None"
  obtains t where "nova_device_register (Some a) s = Some (0, t)" "g_device_registry t = Some a"
    "\<not> g_registry_lock t" "io_next t = (io_next s)(a := g_device_registry s)"
    "io_prev t = (case g_device_registry s of None \<Rightarrow> io_prev s | Some b \<Rightarrow> (io_prev s)(b := Some a))"
    "map_option dev_id (get_dev a t) =
       Some (dev_id (d\<lparr>dv_major := if dv_major d = 0 then g_next_major s else dv_major d\<rparr>))"
    "\<forall>x. x \<noteq> a \<longrightarrow> map_option dev_id (get_dev x t) = map_option dev_id (get_dev x s)"
    "g_next_major t = (if dv_major d = 0 then g_next_major s + 1 else g_next_major s)"
proof -
  let ?d1 = "d\<lparr>dv_major := if dv_major d = 0 then g_next_major s else dv_major d\<rparr>"
  let ?m = "if dv_major d = 0 then g_next_major s + 1 else g_next_major s"
  let ?d2 = "?d1\<lparr>dv_next := g_device_registry s\<rparr>"
  let ?s3 = "put_dev a ?d2 (s\<lparr>g_next_major := ?m\<rparr>)"
  let ?s4 = "case g_device_registry s of None \<Rightarrow> ?s3
    | Some b \<Rightarrow> put_dev b ((the (get_dev b ?s3))\<lparr>dv_prev := Some a\<rparr>) ?s3"
  let ?t = "?s4\<lparr>g_device_registry := Some a\<rparr>"
  have twice: "put_dev a x (put_dev a y u) = put_dev a x u" for x y u
    by (simp add: put_dev_def store_def)
  have reg: "nova_device_register (Some a) s = Some (0, ?t)"
  proof (cases "g_device_registry s")
    case None
    then show ?thesis
      using dev unlocked twice
      by (auto simp: nova_device_register_def lock_registry_def unlock_registry_def put_dev_def store_def
          get_dev_def)
  next
    case (Some b)
    with head obtain e where "get_dev b s = Some e" by fastforce
    then show ?thesis
      using dev unlocked Some
      by (auto simp: nova_device_register_def lock_registry_def unlock_registry_def put_dev_def store_def
          get_dev_def)
  qed
  have link_a: "io_prev s a = dv_prev d" using dev(1) by (simp add: io_prev_def)
  have n: "io_next ?t = (io_next s)(a := g_device_registry s)"
  proof (cases "g_device_registry s")
    case (Some b)
    with head obtain e where "get_dev b s = Some e" by fastforce
    with Some show ?thesis by (auto simp: fun_eq_iff io_next_def)
  qed simp
  have p: "io_prev ?t = (case g_device_registry s of None \<Rightarrow> io_prev s | Some b \<Rightarrow> (io_prev s)(b := Some a))"
    using link_a by (auto simp: fun_eq_iff split: option.split)
  have ids: "map_option dev_id (get_dev a ?t) = Some (dev_id ?d1)"
    "\<forall>x. x \<noteq> a \<longrightarrow> map_option dev_id (get_dev x ?t) = map_option dev_id (get_dev x s)"
    using dev head by (auto simp: dev_id_def split: option.split)
  show ?thesis
    by (rule that [OF reg _ _ n p ids]) (use unlocked in \<open>auto split: option.split\<close>)
qed

lemma registered_head:
  "io_registered s xs \<Longrightarrow> g_device_registry s = Some b \<Longrightarrow> get_dev b s \<noteq> None"
  by (cases xs) (auto simp: io_registered_def linked_def)

text \<open>Registering a device that is not registered puts it at the head of the list.\<close>

lemma register_registered:
  assumes reg: "io_registered s xs" and unlocked: "\<not> g_registry_lock s"
    and dev: "get_dev a s = Some d" "a \<notin> set xs" and name: "dv_name d ! 0 \<noteq> NUL"
  obtains t where "nova_device_register (Some a) s = Some (0, t)" "io_registered t (a # xs)" "\<not> g_registry_lock t"
    "map_option dev_id (get_dev a t) =
       Some (dev_id (d\<lparr>dv_major := if dv_major d = 0 then g_next_major s else dv_major d\<rparr>))"
    "\<forall>x. x \<noteq> a \<longrightarrow> map_option dev_id (get_dev x t) = map_option dev_id (get_dev x s)"
    "g_next_major t = (if dv_major d = 0 then g_next_major s + 1 else g_next_major s)"
proof -
  obtain t where t: "nova_device_register (Some a) s = Some (0, t)" "g_device_registry t = Some a"
    "\<not> g_registry_lock t" "io_next t = (io_next s)(a := g_device_registry s)"
    "io_prev t = (case g_device_registry s of None \<Rightarrow> io_prev s | Some b \<Rightarrow> (io_prev s)(b := Some a))"
    "map_option dev_id (get_dev a t) =
       Some (dev_id (d\<lparr>dv_major := if dv_major d = 0 then g_next_major s else dv_major d\<rparr>))"
    "\<forall>x. x \<noteq> a \<longrightarrow> map_option dev_id (get_dev x t) = map_option dev_id (get_dev x s)"
    "g_next_major t = (if dv_major d = 0 then g_next_major s + 1 else g_next_major s)"
    by (rule register_effect [OF dev(1) name unlocked registered_head [OF reg]])
  have live: "get_dev x t \<noteq> None" if "x \<in> set (a # xs)" for x
  proof -
    have "map_option dev_id (get_dev x t) \<noteq> None"
      using that t(6,7) reg by (cases "x = a") (auto simp: io_registered_def)
    then show ?thesis by auto
  qed
  have "linked (io_next t) (io_prev t) (g_device_registry t) (a # xs)"
    using linked_insert [of "io_next s" "io_prev s" "g_device_registry s" xs a] reg dev(2)
    unfolding t(2,4,5) io_registered_def by simp
  with live have "io_registered t (a # xs)" unfolding io_registered_def by blast
  then show ?thesis using that t(1,3,6-8) by blast
qed
text \<open>
  \<open>nova_device_register\<close> for a live device that is not registered yet: an empty name gives -1
  and changes nothing; otherwise the call returns 0, the device heads the registry, the links are
  consistent in both directions, a major number of 0 is replaced by the next free one, no device
  changes but for its links, and the lock is released.
\<close>
lemma io_register_spec:
  assumes reg: "io_registered s xs" and unlocked: "\<not> g_registry_lock s"
    and dev: "get_dev a s = Some d" "a \<notin> set xs"
  shows "if dv_name d ! 0 = NUL then nova_device_register (Some a) s = Some (-1, s)
    else \<exists>t. nova_device_register (Some a) s = Some (0, t) \<and> io_registered t (a # xs) \<and> \<not> g_registry_lock t \<and>
      map_option dev_id (get_dev a t) =
        Some (dev_id (d\<lparr>dv_major := if dv_major d = 0 then g_next_major s else dv_major d\<rparr>)) \<and>
      (\<forall>x. x \<noteq> a \<longrightarrow> map_option dev_id (get_dev x t) = map_option dev_id (get_dev x s)) \<and>
      g_next_major t = (if dv_major d = 0 then g_next_major s + 1 else g_next_major s)"
proof (cases "dv_name d ! 0 = NUL")
  case True
  with dev show ?thesis by (simp add: nova_device_register_def)
next
  case False
  show ?thesis
    by (rule register_registered [OF reg unlocked dev False]) (use False in simp)
qed

text \<open>The elements before \<open>y\<close> on a list point each to the next one.\<close>

lemma plist_nth:
  "plist nxt p (xs @ y # ys) \<Longrightarrow> p = Some ((xs @ [y]) ! 0) \<and> (\<forall>i < length xs. nxt (xs ! i) = Some ((xs @ [y]) ! Suc i))"
proof (induction xs arbitrary: p)
  case (Cons x xs)
  then have "p = Some x" and IH: "nxt x = Some ((xs @ [y]) ! 0)" "\<forall>i < length xs. nxt (xs ! i) = Some ((xs @ [y]) ! Suc i)"
    by auto
  moreover have "nxt ((x # xs) ! i) = Some (((x # xs) @ [y]) ! Suc i)" if "i < length (x # xs)" for i
    using that IH by (cases i) auto
  ultimately show ?case by simp
qed simp

text \<open>The pointer \<open>curr\<close> of a lookup after \<open>k\<close> rounds that did not find what they look for.\<close>

definition curr_at :: "io_state \<Rightarrow> nat \<Rightarrow> nat option" where
  "curr_at s k = ((\<lambda>p. Option.bind p (io_next s)) ^^ k) (g_device_registry s)"

lemma curr_at_cycle:
  assumes head: "g_device_registry s = Some (cyc ! 0)" and ne: "cyc \<noteq> []"
    and next_node: "\<forall>i < length cyc. io_next s (cyc ! i) = Some (cyc ! (Suc i mod length cyc))"
  shows "curr_at s k = Some (cyc ! (k mod length cyc))"
proof (induction k)
  case (Suc k)
  have "k mod length cyc < length cyc" using ne by simp
  with next_node Suc show ?case by (simp add: curr_at_def mod_Suc_eq)
qed (simp add: curr_at_def head)

text \<open>
  Claim C40. Registering a device \<open>a\<close> that is registered already succeeds, with the lock released, and
  turns the list into a cycle: the registry leads from \<open>a\<close> through the devices \<open>xs\<close> that stood
  before it and back to \<open>a\<close>, all of them live, and never reaches the devices \<open>ys\<close> that stood behind
  it.  From then on the lookup of a path that no device of the cycle has, such as that of a device of
  \<open>ys\<close>, does not end: it takes the free lock, and however many rounds its loop has made, it is at a
  live device that is not the one it looks for.
\<close>
theorem io_register_twice:
  assumes reg: "io_registered s (xs @ a # ys)" and unlocked: "\<not> g_registry_lock s"
    and dev: "get_dev a s = Some d" "dv_name d ! 0 \<noteq> NUL"
  shows "\<exists>t. nova_device_register (Some a) s = Some (0, t) \<and> \<not> g_registry_lock t \<and>
    g_device_registry t = Some a \<and>
    (\<forall>i < length (a # xs). io_next t ((a # xs) ! i) = Some ((a # xs) ! (Suc i mod length (a # xs)))) \<and>
    (\<forall>y \<in> set ys. \<forall>k. curr_at t k \<noteq> Some y) \<and>
    (\<forall>n. (\<forall>x \<in> set (a # xs). \<forall>e. get_dev x s = Some e \<longrightarrow> cstr (dv_path e) \<noteq> n) \<longrightarrow>
       (\<forall>k. \<exists>x e. curr_at t k = Some x \<and> get_dev x t = Some e \<and> cstr (dv_path e) \<noteq> n) \<and>
       nova_device_find (Some n) t = None)"
proof -
  obtain t where t: "nova_device_register (Some a) s = Some (0, t)" "g_device_registry t = Some a"
    "\<not> g_registry_lock t" "io_next t = (io_next s)(a := g_device_registry s)"
    "map_option dev_id (get_dev a t) =
       Some (dev_id (d\<lparr>dv_major := if dv_major d = 0 then g_next_major s else dv_major d\<rparr>))"
    "\<forall>x. x \<noteq> a \<longrightarrow> map_option dev_id (get_dev x t) = map_option dev_id (get_dev x s)"
    by (rule register_effect [OF dev unlocked registered_head [OF reg]])
  have lk: "plist (io_next s) (g_device_registry s) (xs @ a # ys)"
    and live: "\<And>x. x \<in> set (xs @ a # ys) \<Longrightarrow> get_dev x s \<noteq> None"
    using reg by (auto simp: io_registered_def linked_def)
  have dist: "distinct (xs @ a # ys)" by (rule plist_distinct [OF lk])
  note nodes = plist_nth [OF lk]
  let ?c = "a # xs"
  have turn: "?c ! (Suc i mod length ?c) = (xs @ [a]) ! i" if "i < length ?c" for i
    using that by (cases "i = length xs") (simp_all add: nth_append)
  have cycle: "\<forall>i < length ?c. io_next t (?c ! i) = Some (?c ! (Suc i mod length ?c))"
  proof (intro allI impI)
    fix i assume i: "i < length ?c"
    have "io_next t (?c ! i) = Some ((xs @ [a]) ! i)"
    proof (cases i)
      case 0
      with nodes t(4) show ?thesis by simp
    next
      case (Suc j)
      then have "j < length xs" "xs ! j \<noteq> a" using i dist by auto
      with Suc nodes t(4) show ?thesis by simp
    qed
    with turn [OF i] show "io_next t (?c ! i) = Some (?c ! (Suc i mod length ?c))" by simp
  qed
  have curr: "curr_at t k = Some (?c ! (k mod length ?c))" for k
    by (rule curr_at_cycle [OF _ _ cycle]) (simp_all add: t(2))
  have on_cycle: "?c ! (k mod length ?c) \<in> set ?c" for k by (rule nth_mem) simp
  have lost: "curr_at t k \<noteq> Some y" if "y \<in> set ys" for y k
    using that dist on_cycle [of k] unfolding curr by auto
  have node: "\<exists>e. get_dev x t = Some e \<and> cstr (dv_path e) \<noteq> n"
    if x: "x \<in> set ?c" and n: "\<forall>x \<in> set ?c. \<forall>e. get_dev x s = Some e \<longrightarrow> cstr (dv_path e) \<noteq> n" for x n
  proof -
    obtain e where e: "get_dev x s = Some e" "cstr (dv_path e) \<noteq> n" using live [of x] x n by fastforce
    have "map_option dv_path (get_dev x t) = Some (dv_path e)"
    proof (cases "x = a")
      case True
      with path_of_id [OF t(5)] e(1) dev(1) show ?thesis by simp
    next
      case False
      with path_of_id [of "get_dev x t" e] t(6) e(1) show ?thesis by simp
    qed
    with e(2) show ?thesis by auto
  qed
  have diverges: "nova_device_find (Some n) t = None"
    if n: "\<forall>x \<in> set ?c. \<forall>e. get_dev x s = Some e \<longrightarrow> cstr (dv_path e) \<noteq> n" for n
  proof -
    have "\<exists>e b. get_dev x t = Some e \<and> cstr (dv_path e) \<noteq> n \<and> dv_next e = Some b \<and> b \<in> set ?c" if x: "x \<in> set ?c" for x
    proof -
      obtain i where i: "i < length ?c" "x = ?c ! i" using x by (metis in_set_conv_nth)
      then have "io_next t x = Some (?c ! (Suc i mod length ?c))" using cycle by blast
      then show ?thesis using node [OF x n] on_cycle [of "Suc i"] by (auto simp: io_next_def)
    qed
    then have "device_walk (\<lambda>d. cstr (dv_path d) = n) (t\<lparr>g_registry_lock := True\<rparr>) (Some a) = None"
      by (intro device_walk_diverges [of "set ?c"]) simp_all
    with t(2,3) show ?thesis by (simp add: nova_device_find_def lock_registry_def)
  qed
  have "\<exists>x e. curr_at t k = Some x \<and> get_dev x t = Some e \<and> cstr (dv_path e) \<noteq> n"
    if "\<forall>x \<in> set ?c. \<forall>e. get_dev x s = Some e \<longrightarrow> cstr (dv_path e) \<noteq> n" for n k
    using node [OF on_cycle [of k] that] curr by blast
  with t(1-3) cycle lost diverges show ?thesis by (intro exI [of _ t]) simp
qed

text \<open>Writing one link of a live device.\<close>

lemma put_next:
  fixes v :: "nat option"
  assumes "get_dev p s = Some e"
  defines "t \<equiv> put_dev p (e\<lparr>dv_next := v\<rparr>) s"
  shows "io_next t = (io_next s)(p := v)" "io_prev t = io_prev s" "same_devices s t"
    "g_device_registry t = g_device_registry s"
  using assms links_of [OF assms(1)]
  by (auto simp: t_def same_devices_def dev_id_def fun_upd_idem)

lemma put_prev:
  fixes v :: "nat option"
  assumes "get_dev p s = Some e"
  defines "t \<equiv> put_dev p (e\<lparr>dv_prev := v\<rparr>) s"
  shows "io_next t = io_next s" "io_prev t = (io_prev s)(p := v)" "same_devices s t"
    "g_device_registry t = g_device_registry s"
  using assms links_of [OF assms(1)]
  by (auto simp: t_def same_devices_def dev_id_def fun_upd_idem)

lemma same_devices_live: "same_devices s t \<Longrightarrow> get_dev a s \<noteq> None \<Longrightarrow> get_dev a t \<noteq> None"
  unfolding same_devices_def by (metis option.map_disc_iff)

lemma same_devices_trans: "same_devices s t \<Longrightarrow> same_devices t u \<Longrightarrow> same_devices s u"
  by (simp add: same_devices_def)

lemma io_unregister_found:
  assumes reg: "io_registered s (ds @ a # zs)"
  defines "before \<equiv> (if ds = [] then None else Some (last ds))"
  shows "\<exists>t. io_unregister_loop a before (Some a) s = Some (0, unlock_registry t) \<and>
    io_registered t (ds @ zs) \<and> same_devices s t"
proof -
  have lk: "linked (io_next s) (io_prev s) (g_device_registry s) (ds @ a # zs)"
    and live: "\<And>x. x \<in> set (ds @ a # zs) \<Longrightarrow> get_dev x s \<noteq> None"
    using reg by (auto simp: io_registered_def)
  obtain d where d: "get_dev a s = Some d" using live by fastforce
  then have nx: "io_next s a = dv_next d" by (simp add: io_next_def)
  obtain s1 where s1: "(case before of
        Some p \<Rightarrow> do { e \<leftarrow> get_dev p s; Some (put_dev p (e\<lparr>dv_next := dv_next d\<rparr>) s) }
      | None \<Rightarrow> Some (s\<lparr>g_device_registry := dv_next d\<rparr>)) = Some s1"
    "io_next s1 = (case before of None \<Rightarrow> io_next s | Some q \<Rightarrow> (io_next s)(q := dv_next d))"
    "io_prev s1 = io_prev s" "same_devices s s1"
    "g_device_registry s1 = (case before of None \<Rightarrow> dv_next d | Some q \<Rightarrow> g_device_registry s)"
  proof (cases before)
    case None
    then show ?thesis using that [of "s\<lparr>g_device_registry := dv_next d\<rparr>"] by (simp add: same_devices_def)
  next
    case (Some p)
    then have "p \<in> set ds" unfolding before_def by (auto split: if_splits)
    then obtain e where e: "get_dev p s = Some e" using live [of p] by auto
    from that [of "put_dev p (e\<lparr>dv_next := dv_next d\<rparr>) s"] put_next [OF e] e Some show ?thesis by simp
  qed
  obtain s2 where s2: "(case dv_next d of None \<Rightarrow> Some s1
      | Some n \<Rightarrow> do { e \<leftarrow> get_dev n s1; Some (put_dev n (e\<lparr>dv_prev := before\<rparr>) s1) }) = Some s2"
    "io_next s2 = io_next s1"
    "io_prev s2 = (case dv_next d of None \<Rightarrow> io_prev s1 | Some n \<Rightarrow> (io_prev s1)(n := before))"
    "same_devices s1 s2" "g_device_registry s2 = g_device_registry s1"
  proof (cases "dv_next d")
    case None
    then show ?thesis using that [of s1] by (simp add: same_devices_def)
  next
    case (Some n)
    have "plist (io_next s) (dv_next d) zs"
      using lk plist_suffix [of "io_next s" "g_device_registry s" ds a zs] nx by (simp add: linked_def)
    with Some have "n \<in> set zs" by (cases zs) auto
    then have "get_dev n s1 \<noteq> None" by (intro same_devices_live [OF s1(4)] live) simp
    then obtain e where e: "get_dev n s1 = Some e" by auto
    from that [of "put_dev n (e\<lparr>dv_prev := before\<rparr>) s1"] put_prev [OF e] e Some show ?thesis by simp
  qed
  have same: "same_devices s s2" using s1(4) s2(4) by (rule same_devices_trans)
  have "linked (io_next s2) (io_prev s2) (g_device_registry s2) (ds @ zs)"
    using linked_remove [OF lk, folded before_def] unfolding s2(2,3,5) s1(2,3,5) nx .
  moreover have "get_dev x s2 \<noteq> None" if "x \<in> set (ds @ zs)" for x
    using that live by (intro same_devices_live [OF same]) auto
  ultimately have "io_registered s2 (ds @ zs)" by (simp add: io_registered_def)
  moreover have "io_unregister_loop a before (Some a) s = Some (0, unlock_registry s2)"
    using d s1(1) s2(1) by (subst io_unregister_loop.simps) simp
  ultimately show ?thesis using same by blast
qed

lemma io_unregister_loop_spec:
  "io_registered s (ds @ zs) \<Longrightarrow> a \<notin> set ds \<Longrightarrow> plist (io_next s) cur zs \<Longrightarrow>
     (if a \<in> set zs then
        \<exists>t. io_unregister_loop a (if ds = [] then None else Some (last ds)) cur s = Some (0, unlock_registry t) \<and>
          io_registered t (ds @ filter (\<lambda>x. x \<noteq> a) zs) \<and> same_devices s t
      else io_unregister_loop a (if ds = [] then None else Some (last ds)) cur s = Some (-1, unlock_registry s))"
proof (induction zs arbitrary: ds cur)
  case Nil
  then show ?case by (simp add: io_unregister_loop.simps)
next
  case (Cons z zs)
  have cur: "cur = Some z" "plist (io_next s) (io_next s z) zs" using Cons.prems(3) by auto
  obtain d where d: "get_dev z s = Some d" using Cons.prems(1) by (auto simp: io_registered_def)
  show ?case
  proof (cases "z = a")
    case True
    have "a \<notin> set zs" using plist_distinct [OF Cons.prems(3)] True by simp
    then have "filter (\<lambda>x. x \<noteq> a) zs = zs" by (auto simp: filter_id_conv)
    with io_unregister_found [of s ds a zs] Cons.prems(1) True cur show ?thesis by simp
  next
    case False
    have step: "io_unregister_loop a prev cur s = io_unregister_loop a (Some z) (io_next s z) s" for prev
      using cur False d by (subst io_unregister_loop.simps) (simp add: io_next_def)
    have "io_registered s ((ds @ [z]) @ zs)" "a \<notin> set (ds @ [z])" using Cons.prems False by simp_all
    from Cons.IH [OF this cur(2)] False show ?thesis
      unfolding step by (cases "a \<in> set zs") simp_all
  qed
qed

lemma registered_lock [simp]:
  "io_registered (s\<lparr>g_registry_lock := b\<rparr>) xs = io_registered s xs"
  "io_registered (unlock_registry s) xs = io_registered s xs"
  "same_devices (s\<lparr>g_registry_lock := b\<rparr>) t = same_devices s t"
  "same_devices s (unlock_registry t) = same_devices s t"
  by (simp_all add: io_registered_def same_devices_def)

lemma unregister_registered:
  assumes reg: "io_registered s xs" and unlocked: "\<not> g_registry_lock s"
  shows "if a \<in> set xs
    then \<exists>t. nova_device_unregister (Some a) s = Some (0, t) \<and> io_registered t (filter (\<lambda>x. x \<noteq> a) xs) \<and>
      same_devices s t \<and> \<not> g_registry_lock t
    else nova_device_unregister (Some a) s = Some (-1, s)"
proof -
  let ?s = "s\<lparr>g_registry_lock := True\<rparr>"
  have "io_registered ?s ([] @ xs)" "plist (io_next ?s) (g_device_registry s) xs"
    using reg by (simp_all add: io_registered_def linked_def)
  from io_unregister_loop_spec [OF this(1) _ this(2), of a] unlocked show ?thesis
    by (cases "a \<in> set xs") (auto simp: nova_device_unregister_def lock_registry_def)
qed

text \<open>
  \<open>nova_device_unregister\<close>: a registered device leaves the list, wherever it stands, the
  order of the others and the consistency of the links in both directions are kept, and no device
  changes but for its links; a device that is not registered gives -1 and changes nothing.  The lock
  is released on both paths.
\<close>
lemma io_unregister_spec:
  assumes reg: "io_registered s xs" and unlocked: "\<not> g_registry_lock s"
  shows "if a \<in> set xs
    then \<exists>t. nova_device_unregister (Some a) s = Some (0, t) \<and> io_registered t (filter (\<lambda>x. x \<noteq> a) xs) \<and>
      same_devices s t \<and> \<not> g_registry_lock t
    else nova_device_unregister (Some a) s = Some (-1, s)"
  by (rule unregister_registered [OF reg unlocked])

text \<open>
  Lookups by path and by device number return the first registered device that matches,
  \<open>NULL\<close> when there is none, and leave the state as it was, with the lock released.
\<close>
lemma io_find_spec:
  assumes reg: "io_registered s xs" and unlocked: "\<not> g_registry_lock s"
  shows "nova_device_find (Some n) s = Some (find (\<lambda>a. cstr (dv_path (the (get_dev a s))) = n) xs, s) \<and>
    nova_device_get_by_major_minor maj mnr s =
      Some (find (\<lambda>a. dv_major (the (get_dev a s)) = maj \<and> dv_minor (the (get_dev a s)) = mnr) xs, s)"
proof -
  have "device_walk test (s\<lparr>g_registry_lock := True\<rparr>) (g_device_registry s) =
      Some (find (\<lambda>a. test (the (get_dev a s))) xs)" for test
    using device_walk_plist [of "s\<lparr>g_registry_lock := True\<rparr>" "g_device_registry s" xs test] reg
    by (simp add: io_registered_def linked_def)
  then show ?thesis
    using unlocked
    by (simp add: nova_device_find_def nova_device_get_by_major_minor_def lock_registry_def)
qed

subsection \<open>Shut-down\<close>

lemma get_dev_cells: "get_dev a s = Some d \<longleftrightarrow> cells (io_heap s) a = Some (Dev d)"
  by (auto simp: get_dev_def split: option.splits io_obj.splits)

lemma get_req_cells: "get_req a s = Some r \<longleftrightarrow> cells (io_heap s) a = Some (Req r)"
  by (auto simp: get_req_def split: option.splits io_obj.splits)

lemma io_free_live:
  "cells (io_heap s) a \<noteq> None \<Longrightarrow> \<not> static_mem s a \<Longrightarrow>
     io_free a s = Some (s\<lparr>io_heap := (io_heap s)\<lparr>cells := (cells (io_heap s))(a := None)\<rparr>\<rparr>)"
  by (auto simp: io_free_def free_live)

lemma io_free_loop_spec:
  "plist (io_next s) p xs \<Longrightarrow> \<forall>a \<in> set xs. get_dev a s \<noteq> None \<Longrightarrow>
     io_free_loop p s =
       (if \<exists>x \<in> set xs. static_mem s x then None
        else Some (s\<lparr>io_heap := (io_heap s)\<lparr>cells := \<lambda>a. if a \<in> set xs then None else cells (io_heap s) a\<rparr>\<rparr>))"
proof (induction xs arbitrary: p s)
  case Nil
  then show ?case by (simp add: io_free_loop.simps)
next
  case (Cons x xs)
  obtain d where d: "get_dev x s = Some d" using Cons.prems(2) by auto
  have p: "p = Some x" "plist (io_next s) (dv_next d) xs" using Cons.prems(1) links_of [OF d] by auto
  have x: "x \<notin> set xs" using plist_distinct [OF Cons.prems(1)] by simp
  show ?case
  proof (cases "static_mem s x")
    case True
    then show ?thesis using p d by (simp add: io_free_loop.simps io_free_def)
  next
    case False
    let ?s = "s\<lparr>io_heap := (io_heap s)\<lparr>cells := (cells (io_heap s))(x := None)\<rparr>\<rparr>"
    have same: "get_dev a ?s = get_dev a s" if "a \<noteq> x" for a using that by (simp add: get_dev_def)
    have "plist (io_next ?s) (dv_next d) xs"
    proof (subst plist_cong [of _ _ "io_next s"])
      fix a assume "a \<in> set xs"
      with x have "get_dev a ?s = get_dev a s" by (intro same) auto
      then show "io_next ?s a = io_next s a" by (simp add: io_next_def)
    qed (rule p(2))
    moreover have "\<forall>a \<in> set xs. get_dev a ?s \<noteq> None"
    proof
      fix a assume a: "a \<in> set xs"
      with x have "get_dev a ?s = get_dev a s" by (intro same) auto
      with a Cons.prems(2) show "get_dev a ?s \<noteq> None" by simp
    qed
    ultimately have rest: "io_free_loop (dv_next d) ?s =
       (if \<exists>a \<in> set xs. static_mem s a then None
        else Some (?s\<lparr>io_heap := (io_heap ?s)\<lparr>cells := \<lambda>a. if a \<in> set xs then None else cells (io_heap ?s) a\<rparr>\<rparr>))"
      using Cons.IH [of ?s "dv_next d"] by simp
    have "cells (io_heap s) x \<noteq> None" using d by (simp add: get_dev_cells)
    from io_free_live [OF this False] have "io_free_loop p s = io_free_loop (dv_next d) ?s"
      using p(1) d by (subst io_free_loop.simps) simp
    moreover have "(\<lambda>a. if a \<in> set xs then None else cells (io_heap ?s) a) =
        (\<lambda>a. if a \<in> set (x # xs) then None else cells (io_heap s) a)" by (simp add: fun_eq_iff)
    ultimately show ?thesis unfolding rest using False by simp
  qed
qed


subsection \<open>Transfers\<close>

text \<open>The request that a sector transfer submits.\<close>

definition sector_req :: "nova_io_type \<Rightarrow> nat \<Rightarrow> u64 \<Rightarrow> nat \<Rightarrow> u32 \<Rightarrow> nova_io_request" where
  "sector_req ty d sector b count = zero_req\<lparr>rq_type := Some ty, rq_device := Some d, rq_offset := sector,
     rq_buffer := Some b, rq_length := ucast (count * 512), rq_timeout_ms := 5000\<rparr>"

text \<open>The state in which the driver gets it.\<close>

definition submit_state :: "nova_io_type \<Rightarrow> nat \<Rightarrow> u64 \<Rightarrow> nat \<Rightarrow> u32 \<Rightarrow> io_state \<Rightarrow> io_state" where
  "submit_state ty d sector b count s =
     put_req (next_addr (io_heap s)) (sector_req ty d sector b count)
       (s\<lparr>io_heap := snd (calloc (Req zero_req) (io_heap s))\<rparr>)"

lemma sector_length: "unat (rq_length (sector_req ty d sector b count)) = unat count * 512 mod 2 ^ 32"
proof -
  have "unat (count * 512) < 2 ^ 64" 
    using unsigned_less [of "count * 512", where ?'a = nat] by simp
  then have "unat (ucast (count * 512) :: u64) = unat (count * 512)"
    by (simp add: unsigned_ucast_eq take_bit_nat_eq_self)
  then show ?thesis by (simp add: sector_req_def unat_word_ariths)
qed

lemma get_put_req [simp]: "get_req a (put_req a r s) = Some r"
  by (simp add: get_req_def put_req_def)

lemma put_put_req: "put_req a r (put_req a r' s) = put_req a r s"
  by (simp add: put_req_def store_def)

lemma transfer_submits:
  assumes d: "get_dev d s = Some dd" "submit_entry dd = Some f" and wf: "heap_wf (io_heap s)"
    and mem: "\<not> calloc_fails (io_heap s) (calloc_calls (io_heap s))" and count: "count \<noteq> 0"
    and op: "ty = NOVA_IO_READ \<and> transfer = nova_block_read_sectors \<or>
      ty = NOVA_IO_WRITE \<and> transfer = nova_block_write_sectors"
  shows "transfer drv (Some d) sector (Some b) count s =
      finish_transfer drv (next_addr (io_heap s)) (submit_state ty d sector b count s)"
    and "nova_io_submit drv (Some (next_addr (io_heap s))) (submit_state ty d sector b count s) =
      drv f d (next_addr (io_heap s)) (submit_state ty d sector b count s)"
proof -
  let ?a = "next_addr (io_heap s)"
  let ?s0 = "s\<lparr>io_heap := snd (calloc (Req zero_req) (io_heap s))\<rparr>"
  have alloc: "nova_io_request_alloc s = (Some ?a, put_req ?a (zero_req\<lparr>rq_timeout_ms := 5000\<rparr>) ?s0)"
    using mem by (simp add: nova_io_request_alloc_def calloc_ok zero_req_def)
  have ne: "d \<noteq> ?a" using d(1) heap_wf_live [OF wf] by (auto simp: get_dev_cells)
  have dev: "get_dev d (put_req ?a r ?s0) = Some dd" for r
    using d(1) ne mem by (simp add: get_dev_def put_req_def calloc_ok)
  have ops: "\<exists>ops. dv_ops dd = Some ops" using d(2) by (auto simp: submit_entry_def split: nova_device_type.splits option.splits)
  have req: "(zero_req\<lparr>rq_timeout_ms := 5000\<rparr>)\<lparr>rq_type := Some ty, rq_device := Some d, rq_offset := sector,
      rq_buffer := Some b, rq_length := ucast (count * 512)\<rparr> = sector_req ty d sector b count"
    by (simp add: sector_req_def)
  from op show "transfer drv (Some d) sector (Some b) count s =
      finish_transfer drv ?a (submit_state ty d sector b count s)"
    using alloc dev ops req count put_put_req
    by (auto simp: nova_block_read_sectors_def nova_block_write_sectors_def submit_state_def)
  show "nova_io_submit drv (Some ?a) (submit_state ty d sector b count s) =
      drv f d ?a (submit_state ty d sector b count s)"
    using dev d(2) by (simp add: nova_io_submit_def submit_state_def) (simp add: sector_req_def)
qed

lemma finish_transfer_spec:
  assumes "nova_io_submit drv (Some a) t = Some (r, u)" "get_req a u = Some q" "\<not> static_mem u a"
  shows "finish_transfer drv a t =
    Some (if r \<noteq> 0 then r else if rq_status q = NOVA_IO_SUCCESS then 0 else rq_error_code q,
      u\<lparr>io_heap := (io_heap u)\<lparr>cells := (cells (io_heap u))(a := None)\<rparr>\<rparr>)"
proof -
  have "cells (io_heap u) a \<noteq> None" using assms(2) by (simp add: get_req_cells)
  from io_free_live [OF this assms(3)] show ?thesis
    using assms(1,2) by (simp add: finish_transfer_def nova_io_wait_def nova_io_request_free_def)
qed

text \<open>
  Claim C24. Sector transfers, for any driver: the driver gets a pending request that names the device,
  the first sector, the caller's buffer and a length of \<open>count * 512\<close> bytes reduced to 32 bits; the
  caller gets the driver's code when it is not 0, else 0 when the request succeeded, else the
  request's error code; and the request is freed, whatever the driver left in it.
\<close>
theorem block_transfer_spec:
  assumes d: "get_dev d s = Some dd" "submit_entry dd = Some f" and wf: "heap_wf (io_heap s)"
    and mem: "\<not> calloc_fails (io_heap s) (calloc_calls (io_heap s))" and count: "count \<noteq> 0"
    and op: "ty = NOVA_IO_READ \<and> transfer = nova_block_read_sectors \<or>
      ty = NOVA_IO_WRITE \<and> transfer = nova_block_write_sectors"
    and drv: "drv f d (next_addr (io_heap s)) (submit_state ty d sector b count s) = Some (r, u)"
      "get_req (next_addr (io_heap s)) u = Some q" "\<not> static_mem u (next_addr (io_heap s))"
  shows "transfer drv (Some d) sector (Some b) count s =
      Some (if r \<noteq> 0 then r else if rq_status q = NOVA_IO_SUCCESS then 0 else rq_error_code q,
        u\<lparr>io_heap := (io_heap u)\<lparr>cells := (cells (io_heap u))(next_addr (io_heap s) := None)\<rparr>\<rparr>) \<and>
    get_req (next_addr (io_heap s)) (submit_state ty d sector b count s) = Some (sector_req ty d sector b count) \<and>
    unat (rq_length (sector_req ty d sector b count)) = unat count * 512 mod 2 ^ 32"
proof -
  note sub = transfer_submits [OF d wf mem count op, of drv sector b]
  have "nova_io_submit drv (Some (next_addr (io_heap s))) (submit_state ty d sector b count s) = Some (r, u)"
    unfolding sub(2) by (rule drv(1))
  from finish_transfer_spec [OF this drv(2,3)] show ?thesis
    unfolding sub(1) sector_length by (simp add: submit_state_def)
qed

text \<open>
  A driver that queues the request and completes it later, as an asynchronous driver does,
  returns 0 and leaves the request pending: the transfer then reports success (0) before any data
  moved, and frees the request that the driver still holds.
\<close>
lemma block_pending_reported_done:
  assumes d: "get_dev d s = Some dd" "submit_entry dd = Some f" and wf: "heap_wf (io_heap s)"
    and mem: "\<not> calloc_fails (io_heap s) (calloc_calls (io_heap s))" and count: "count \<noteq> 0"
    and static: "\<not> static_mem s (next_addr (io_heap s))"
    and op: "ty = NOVA_IO_READ \<and> transfer = nova_block_read_sectors \<or>
      ty = NOVA_IO_WRITE \<and> transfer = nova_block_write_sectors"
  shows "\<exists>t. transfer (\<lambda>f dev req u. Some (0, u)) (Some d) sector (Some b) count s = Some (0, t) \<and>
    get_req (next_addr (io_heap s)) t = None"
proof -
  let ?a = "next_addr (io_heap s)" and ?t = "submit_state ty d sector b count s"
  let ?drv = "\<lambda>f dev req u. Some (0 :: int, u)"
  note sub = transfer_submits [OF d wf mem count op, of ?drv sector b]
  have "get_req ?a ?t = Some (sector_req ty d sector b count)" by (simp add: submit_state_def)
  moreover have "\<not> static_mem ?t ?a" using static by (simp add: submit_state_def put_req_def)
  ultimately have "finish_transfer ?drv ?a ?t = Some (0, ?t\<lparr>io_heap := (io_heap ?t)\<lparr>cells := (cells (io_heap ?t))(?a := None)\<rparr>\<rparr>)"
    using finish_transfer_spec [OF sub(2)] by (simp add: sector_req_def zero_req_def)
  then show ?thesis unfolding sub(1) by (simp add: get_req_def)
qed

text \<open>
  A request on a device that is not a block device, or whose driver has no \<open>submit_io\<close>, is
  refused with -1 and marked failed, after which it cannot be cancelled; a request without device or
  buffer is refused and stays pending, and a pending request can be cancelled exactly once.
\<close>
lemma io_request_outcomes:
  assumes req: "get_req a s = Some r"
  shows "(rq_device r = Some d \<and> rq_buffer r \<noteq> None \<and> get_dev d s = Some dd \<and> submit_entry dd = None \<longrightarrow>
      (\<exists>t. nova_io_submit drv (Some a) s = Some (-1, t) \<and>
        get_req a t = Some (r\<lparr>rq_status := NOVA_IO_ERROR, rq_error_code := -1\<rparr>) \<and>
        nova_io_cancel (Some a) t = Some (-1, t))) \<and>
    (rq_device r = None \<or> rq_buffer r = None \<longrightarrow> nova_io_submit drv (Some a) s = Some (-1, s)) \<and>
    (if rq_status r = NOVA_IO_PENDING then
      \<exists>t. nova_io_cancel (Some a) s = Some (0, t) \<and> get_req a t = Some (r\<lparr>rq_status := NOVA_IO_CANCELLED\<rparr>) \<and>
        nova_io_cancel (Some a) t = Some (-1, t)
     else nova_io_cancel (Some a) s = Some (-1, s))"
  using req by (auto simp: nova_io_submit_def nova_io_cancel_def split: option.splits)

subsection \<open>Witnesses\<close>

definition demo_device :: "string \<Rightarrow> nova_device_type \<Rightarrow> nova_device" where
  "demo_device n ty = \<lparr>dv_name = n @ [NUL], dv_path = n @ [NUL], dv_type = ty, dv_major = 0, dv_minor = 0,
     dv_ref_count = 0, dv_flags = 0, dv_private_data = None,
     dv_ops = Some (Block_ops \<lparr>bo_open = None, bo_close = None, bo_submit_io = Some 7, bo_flush = None,
       bo_get_geometry = None\<rparr>), dv_next = None, dv_prev = None, dv_parent = None\<rparr>"

text \<open>A disk and a terminal in memory, not registered; and both registered.\<close>

definition bare_io :: io_state where
  "bare_io = \<lparr>io_heap = \<lparr>cells = [0 \<mapsto> Dev (demo_device ''sda'' NOVA_DEVICE_BLOCK),
       1 \<mapsto> Dev (demo_device ''tty'' NOVA_DEVICE_CHAR)], next_addr = 2,
       calloc_fails = (\<lambda>_. False), calloc_calls = 0\<rparr>,
     static_mem = (\<lambda>_. False), g_device_registry = None, g_next_major = 1, g_io_initialized = True,
     g_registry_lock = False\<rparr>"

definition demo_io :: io_state where
  "demo_io = snd (the (nova_device_register (Some 0) (snd (the (nova_device_register (Some 1) bare_io)))))"

lemma demo_io_facts:
  "io_registered demo_io [0, 1]" "\<not> g_registry_lock demo_io" "g_io_initialized demo_io"
  "map_option dv_path (get_dev 0 demo_io) = Some (''sda'' @ [NUL])"
  "map_option dv_path (get_dev 1 demo_io) = Some (''tty'' @ [NUL])"
  "map_option dv_name (get_dev 0 demo_io) = Some (''sda'' @ [NUL])"
  "map_option submit_entry (get_dev 0 demo_io) = Some (Some 7)"
  "next_addr (io_heap demo_io) = 2" "\<not> calloc_fails (io_heap demo_io) (calloc_calls (io_heap demo_io))"
  "\<not> static_mem demo_io 0" "\<not> static_mem demo_io 1" "\<not> static_mem demo_io 2"
  by code_simp+

lemma demo_io_wf: "heap_wf (io_heap demo_io)"
proof -
  have "cells (io_heap demo_io) a = None" if "2 \<le> a" for a
    using that by (simp add: demo_io_def bare_io_def nova_device_register_def lock_registry_def
        unlock_registry_def get_dev_def put_dev_def store_def demo_device_def Let_def)
  then show ?thesis using demo_io_facts(8) by (simp add: heap_wf_def)
qed

theorem io_register_twice_witness:
  "\<exists>t. nova_device_register (Some 1) demo_io = Some (0, t) \<and> \<not> g_registry_lock t \<and>
     io_next t 1 = Some 0 \<and> io_next t 0 = Some 1 \<and> nova_device_find (Some ''none'') t = None"
proof -
  obtain d where d: "get_dev 1 demo_io = Some d" using demo_io_facts(5) by auto
  have reg: "io_registered demo_io ([0] @ 1 # [])" using demo_io_facts(1) by simp
  have "map_option dv_name (get_dev 1 demo_io) = Some (''tty'' @ [NUL])" by code_simp
  then have name: "dv_name d ! 0 \<noteq> NUL" using d by simp
  from io_register_twice [OF reg demo_io_facts(2) d name] obtain t where
    t: "nova_device_register (Some 1) demo_io = Some (0, t)" "\<not> g_registry_lock t"
    and cycle: "\<forall>i < length [1, 0 :: nat]. io_next t ([1, 0] ! i) = Some ([1, 0] ! (Suc i mod length [1, 0 :: nat]))"
    and walk: "\<forall>n. (\<forall>x \<in> set [1, 0]. \<forall>e. get_dev x demo_io = Some e \<longrightarrow> cstr (dv_path e) \<noteq> n) \<longrightarrow>
       (\<forall>k. \<exists>x e. curr_at t k = Some x \<and> get_dev x t = Some e \<and> cstr (dv_path e) \<noteq> n) \<and>
       nova_device_find (Some n) t = None"
    by (elim exE conjE) (rule that)
  have "\<forall>x \<in> set [1, 0]. \<forall>e. get_dev x demo_io = Some e \<longrightarrow> cstr (dv_path e) \<noteq> ''none''"
    using demo_io_facts(4,5) by (auto simp: cstr_def)
  with walk have find: "nova_device_find (Some ''none'') t = None" by blast
  have "io_next t 1 = Some 0" "io_next t 0 = Some 1" using cycle by (simp_all add: less_Suc_eq all_conj_distrib)
  with t find show ?thesis by blast
qed


text \<open>A driver that completes the request before it returns.\<close>

definition demo_driver :: driver where
  "demo_driver f dev req s =
     (case get_req req s of None \<Rightarrow> None | Some r \<Rightarrow> Some (0, put_req req (r\<lparr>rq_status := NOVA_IO_SUCCESS\<rparr>) s))"

theorem block_transfer_spec_witness:
  "\<exists>t. nova_block_read_sectors demo_driver (Some 0) 5 (Some 99) 2 demo_io = Some (0, t) \<and>
     unat (rq_length (sector_req NOVA_IO_READ 0 5 99 (2 ^ 23))) = 0"
proof -
  obtain dd where dd: "get_dev 0 demo_io = Some dd" "submit_entry dd = Some 7" using demo_io_facts(7) by auto
  let ?t = "submit_state NOVA_IO_READ 0 5 99 2 demo_io"
  let ?u = "put_req 2 ((sector_req NOVA_IO_READ 0 5 99 2)\<lparr>rq_status := NOVA_IO_SUCCESS\<rparr>) ?t"
  have req: "get_req 2 ?t = Some (sector_req NOVA_IO_READ 0 5 99 2)" "\<not> static_mem ?u 2"
    using demo_io_facts(8,12) by (simp_all add: submit_state_def put_req_def get_req_def)
  have drv: "demo_driver 7 0 (next_addr (io_heap demo_io)) ?t = Some (0, ?u)"
    "get_req (next_addr (io_heap demo_io)) ?u = Some ((sector_req NOVA_IO_READ 0 5 99 2)\<lparr>rq_status := NOVA_IO_SUCCESS\<rparr>)"
    "\<not> static_mem ?u (next_addr (io_heap demo_io))"
    using req demo_io_facts(8) by (simp_all add: demo_driver_def)
  have op: "NOVA_IO_READ = NOVA_IO_READ \<and> nova_block_read_sectors = nova_block_read_sectors \<or>
      NOVA_IO_READ = NOVA_IO_WRITE \<and> nova_block_read_sectors = nova_block_write_sectors" by simp
  have two: "(2 :: u32) \<noteq> 0" by simp
  have "unat (rq_length (sector_req NOVA_IO_READ 0 5 99 (2 ^ 23))) = 0" unfolding sector_length by simp
  with block_transfer_spec [where drv = demo_driver, OF dd demo_io_wf demo_io_facts(9) two op drv] show ?thesis by simp
qed

end
