(* ===== verification/Nova_Io_Machine.thy ===== *)
theory Nova_Io_Machine
  imports Nova_Io Nova_Interfaces
begin

text \<open>
  The I/O stack of \<open>kernel/io/io_stack.c\<close> as a machine: its calls with their arguments as a datatype,
  what a client must respect when it makes one, what a block driver must respect when it is handed
  a request, and an invariant of the registry, its lock and memory.  The theory shows that under
  these two contracts every call of every sequence returns and releases the lock.
\<close>

datatype io_op =
  Io_init | Io_shutdown
| Device_register "nat option" | Device_unregister "nat option"
| Device_find "string option" | Device_get u32 u32
| Request_alloc | Request_fill nat nova_io_request | Request_free "nat option"
| Submit "nat option" | Wait "nat option" u32 | Cancel "nat option"
| Read_sectors "nat option" u64 "nat option" u32 | Write_sectors "nat option" u64 "nat option" u32
| Port_create u32 u32 | Port_destroy "nat option"
| Port_associate "nat option" "nat option" nat | Port_get_event "nat option" "nat option" u32

text \<open>\<open>Request_fill\<close> is the client's own assignment to the fields of its request.  A call without an
  integer result counts as returning 0.\<close>

fun io_exec :: "driver \<Rightarrow> io_op \<Rightarrow> io_state \<Rightarrow> (int \<times> io_state) option" where
  "io_exec drv Io_init s = Some (nova_io_init s)"
| "io_exec drv Io_shutdown s = nova_io_shutdown s"
| "io_exec drv (Device_register d) s = nova_device_register d s"
| "io_exec drv (Device_unregister d) s = nova_device_unregister d s"
| "io_exec drv (Device_find n) s = do { (r, t) \<leftarrow> nova_device_find n s; Some (0, t) }"
| "io_exec drv (Device_get maj mnr) s = do { (r, t) \<leftarrow> nova_device_get_by_major_minor maj mnr s; Some (0, t) }"
| "io_exec drv Request_alloc s = Some (0, snd (nova_io_request_alloc s))"
| "io_exec drv (Request_fill a r) s = Some (0, put_req a r s)"
| "io_exec drv (Request_free a) s = do { t \<leftarrow> nova_io_request_free a s; Some (0, t) }"
| "io_exec drv (Submit a) s = nova_io_submit drv a s"
| "io_exec drv (Wait a ms) s = Some (nova_io_wait a ms s)"
| "io_exec drv (Cancel a) s = nova_io_cancel a s"
| "io_exec drv (Read_sectors d sector b n) s = nova_block_read_sectors drv d sector b n s"
| "io_exec drv (Write_sectors d sector b n) s = nova_block_write_sectors drv d sector b n s"
| "io_exec drv (Port_create forever n) s = Some (0, snd (nova_io_completion_port_create forever n s))"
| "io_exec drv (Port_destroy p) s = nova_io_completion_port_destroy p s"
| "io_exec drv (Port_associate p d k) s = Some (nova_io_completion_port_associate p d k s)"
| "io_exec drv (Port_get_event p r ms) s = Some (nova_io_completion_port_get_event p r ms s)"

subsection \<open>Contracts\<close>

definition get_port :: "nat \<Rightarrow> io_state \<Rightarrow> nova_io_completion_port option" where
  "get_port a s = (case cells (io_heap s) a of Some (Port p) \<Rightarrow> Some p | _ \<Rightarrow> None)"

definition io_inv :: "io_state \<Rightarrow> bool" where
  "io_inv s \<longleftrightarrow> heap_wf (io_heap s) \<and> \<not> g_registry_lock s \<and> (\<exists>xs. io_registered s xs)"

text \<open>A device that has been registered and neither unregistered nor dropped since.\<close>

definition is_registered :: "nat \<Rightarrow> io_state \<Rightarrow> bool" where
  "is_registered a s \<longleftrightarrow> (\<exists>xs. io_registered s xs \<and> a \<in> set xs)"

text \<open>
  The client's obligations: it registers live devices only, and none twice; it shuts the stack down
  only when every registered device may be freed; it passes live requests and ports, a request to
  submit names a live device, and so does a transfer; a device to read from has an operation table.
\<close>

fun io_ok :: "io_op \<Rightarrow> io_state \<Rightarrow> bool" where
  "io_ok Io_shutdown s \<longleftrightarrow> (\<forall>a. is_registered a s \<longrightarrow> \<not> static_mem s a)"
| "io_ok (Device_register (Some a)) s \<longleftrightarrow> get_dev a s \<noteq> None \<and> \<not> is_registered a s"
| "io_ok (Request_fill a r) s \<longleftrightarrow> get_req a s \<noteq> None"
| "io_ok (Request_free (Some a)) s \<longleftrightarrow> get_req a s \<noteq> None \<and> \<not> static_mem s a"
| "io_ok (Submit (Some a)) s \<longleftrightarrow>
     (case get_req a s of None \<Rightarrow> False
      | Some r \<Rightarrow> (case rq_device r of None \<Rightarrow> True | Some d \<Rightarrow> get_dev d s \<noteq> None))"
| "io_ok (Cancel (Some a)) s \<longleftrightarrow> get_req a s \<noteq> None"
| "io_ok (Read_sectors (Some d) sector b n) s \<longleftrightarrow>
     (case get_dev d s of None \<Rightarrow> False | Some e \<Rightarrow> dv_ops e \<noteq> None) \<and> \<not> static_mem s (next_addr (io_heap s))"
| "io_ok (Write_sectors (Some d) sector b n) s \<longleftrightarrow> get_dev d s \<noteq> None \<and> \<not> static_mem s (next_addr (io_heap s))"
| "io_ok (Port_destroy (Some p)) s \<longleftrightarrow> get_port p s \<noteq> None \<and> \<not> static_mem s p"
| "io_ok _ s \<longleftrightarrow> True"

text \<open>
  The driver's obligations: it returns, and it may change what requests and devices hold, but not the
  links of the registry, the lock or which blocks are live.
\<close>

definition driver_frame :: "io_state \<Rightarrow> io_state \<Rightarrow> bool" where
  "driver_frame s t \<longleftrightarrow> heap_wf (io_heap t) \<and> io_next t = io_next s \<and> io_prev t = io_prev s \<and>
     (\<forall>x. (get_dev x t = None) = (get_dev x s = None)) \<and> (\<forall>x. (get_req x t = None) = (get_req x s = None)) \<and>
     static_mem t = static_mem s \<and> g_device_registry t = g_device_registry s \<and>
     g_registry_lock t = g_registry_lock s \<and> g_io_initialized t = g_io_initialized s"

definition driver_ok :: "driver \<Rightarrow> bool" where
  "driver_ok drv \<longleftrightarrow> (\<forall>f d a s. io_inv s \<longrightarrow> get_dev d s \<noteq> None \<longrightarrow> get_req a s \<noteq> None \<longrightarrow>
     (\<exists>r t. drv f d a s = Some (r, t) \<and> driver_frame s t))"

text \<open>Program start: nothing registered, the lock free, memory arbitrary.\<close>

definition io_start :: "io_state \<Rightarrow> bool" where
  "io_start s \<longleftrightarrow> heap_wf (io_heap s) \<and> g_device_registry s = None \<and> \<not> g_registry_lock s \<and> \<not> g_io_initialized s"

inductive io_step :: "io_state \<Rightarrow> io_state \<Rightarrow> bool" where
  call: "driver_ok drv \<Longrightarrow> io_ok op s \<Longrightarrow> io_exec drv op s = Some (r, t) \<Longrightarrow> io_step s t"

inductive_cases io_stepE: "io_step s t"

subsection \<open>What keeps the invariant\<close>

lemma io_registered_cong:
  assumes "\<And>x. get_dev x t = get_dev x s" "g_device_registry t = g_device_registry s"
  shows "io_registered t xs = io_registered s xs"
  using assms by (simp add: io_registered_def io_next_def [abs_def] io_prev_def [abs_def])

lemma io_registered_unique: "io_registered s xs \<Longrightarrow> io_registered s ys \<Longrightarrow> xs = ys"
  using plist_unique unfolding io_registered_def linked_def by blast

lemma is_registered_iff: "io_registered s xs \<Longrightarrow> is_registered a s \<longleftrightarrow> a \<in> set xs"
  using io_registered_unique unfolding is_registered_def by blast

text \<open>A change of memory outside the devices.\<close>

lemma io_inv_heap:
  assumes "io_inv s" "heap_wf h" "\<And>x d. (cells h x = Some (Dev d)) = (cells (io_heap s) x = Some (Dev d))"
  shows "io_inv (s\<lparr>io_heap := h\<rparr>)"
proof -
  have dev: "get_dev x (s\<lparr>io_heap := h\<rparr>) = get_dev x s" for x
  proof -
    have "get_dev x (s\<lparr>io_heap := h\<rparr>) = Some d \<longleftrightarrow> get_dev x s = Some d" for d
      by (simp add: get_dev_cells assms(3))
    then show ?thesis by (metis not_Some_eq)
  qed
  obtain xs where "io_registered s xs" using assms(1) by (auto simp: io_inv_def)
  then have "io_registered (s\<lparr>io_heap := h\<rparr>) xs" using io_registered_cong [OF dev, of xs] by simp
  with assms show ?thesis by (auto simp: io_inv_def)
qed

lemma io_inv_put_req:
  assumes "io_inv s" "get_req a s \<noteq> None"
  shows "io_inv (put_req a r s)"
  unfolding put_req_def
proof (rule io_inv_heap [OF assms(1)])
  obtain q where q: "cells (io_heap s) a = Some (Req q)" using assms(2) by (auto simp: get_req_cells)
  then show "heap_wf (store a (Req r) (io_heap s))"
    using assms(1) by (auto simp: io_inv_def intro: heap_wf_store)
  show "(cells (store a (Req r) (io_heap s)) x = Some (Dev d)) = (cells (io_heap s) x = Some (Dev d))" for x d
    using q by simp
qed

text \<open>A new block that is not a device.\<close>

lemma io_inv_calloc:
  assumes "io_inv s" "calloc obj (io_heap s) = (p, h)" "\<And>d. obj \<noteq> Dev d"
  shows "io_inv (s\<lparr>io_heap := h\<rparr>)"
proof (rule io_inv_heap [OF assms(1)])
  have wf: "heap_wf (io_heap s)" using assms(1) by (simp add: io_inv_def)
  show "heap_wf h" using heap_wf_calloc [OF wf, of obj] assms(2) by simp
  show "(cells h x = Some (Dev d)) = (cells (io_heap s) x = Some (Dev d))" for x d
    using assms(2,3) heap_wf_fresh [OF wf, of "next_addr (io_heap s)"]
    by (auto simp: calloc_def split: if_splits)
qed

lemma request_alloc_cases [consumes 1, case_names failed fresh]:
  assumes inv: "io_inv s"
  obtains (failed) t where "nova_io_request_alloc s = (None, t)" "io_inv t"
  | (fresh) t where "nova_io_request_alloc s = (Some (next_addr (io_heap s)), t)" "io_inv t"
      "get_req (next_addr (io_heap s)) t \<noteq> None" "static_mem t = static_mem s" "\<And>x. get_dev x t = get_dev x s"
proof (cases rule: calloc_cases [of "Req zero_req" "io_heap s"])
  case failed
  then show ?thesis using that(1) io_inv_calloc [OF inv failed] by (simp add: nova_io_request_alloc_def)
next
  case fresh
  let ?a = "next_addr (io_heap s)" let ?h = "snd (calloc (Req zero_req) (io_heap s))"
  let ?t = "put_req ?a (zero_req\<lparr>rq_status := NOVA_IO_PENDING, rq_flags := 0, rq_timeout_ms := 5000\<rparr>) (s\<lparr>io_heap := ?h\<rparr>)"
  have "io_inv (s\<lparr>io_heap := ?h\<rparr>)" by (rule io_inv_calloc [OF inv surjective_pairing]) simp
  moreover have "get_req ?a (s\<lparr>io_heap := ?h\<rparr>) \<noteq> None" using fresh by (simp add: get_req_def)
  ultimately have "io_inv ?t" by (rule io_inv_put_req)
  moreover have "get_dev x ?t = get_dev x s" for x
  proof -
    have "cells (io_heap s) ?a = None" using inv heap_wf_fresh by (auto simp: io_inv_def)
    then show ?thesis using fresh by (auto simp: get_dev_def put_req_def)
  qed
  ultimately show ?thesis
    using that(2) [of ?t] fresh by (simp add: nova_io_request_alloc_def) (simp add: put_req_def)
qed

text \<open>Freeing a request or a port.\<close>

lemma io_inv_free:
  assumes inv: "io_inv s" and live: "cells (io_heap s) a \<noteq> None" "\<not> static_mem s a" and dev: "get_dev a s = None"
  shows "\<exists>t. io_free a s = Some t \<and> io_inv t"
proof -
  let ?h = "(io_heap s)\<lparr>cells := (cells (io_heap s))(a := None)\<rparr>"
  have "io_inv (s\<lparr>io_heap := ?h\<rparr>)"
  proof (rule io_inv_heap [OF inv])
    show "heap_wf ?h" using inv by (simp add: io_inv_def heap_wf_def)
    show "(cells ?h x = Some (Dev d)) = (cells (io_heap s) x = Some (Dev d))" for x d
      using dev by (auto simp: get_dev_def)
  qed
  with io_free_live [OF live] show ?thesis by simp
qed

lemma req_not_dev: "get_req a s \<noteq> None \<Longrightarrow> get_dev a s = None \<and> cells (io_heap s) a \<noteq> None"
  by (auto simp: get_req_def get_dev_def split: option.splits io_obj.splits)

lemma port_not_dev: "get_port a s \<noteq> None \<Longrightarrow> get_dev a s = None \<and> cells (io_heap s) a \<noteq> None"
  by (auto simp: get_port_def get_dev_def split: option.splits io_obj.splits)

lemma driver_frame_inv: "driver_frame s t \<Longrightarrow> io_inv s \<Longrightarrow> io_inv t"
  by (auto simp: driver_frame_def io_inv_def io_registered_def)

subsection \<open>The device calls\<close>

lemma heap_wf_put_dev:
  "heap_wf (io_heap s) \<Longrightarrow> get_dev a s = Some e \<Longrightarrow> heap_wf (io_heap (put_dev a d s))"
  by (auto simp: put_dev_def get_dev_cells intro: heap_wf_store)

lemma unlock_heap [simp]: "io_heap (unlock_registry s) = io_heap s"
  by (simp add: unlock_registry_def)

lemma register_heap_wf:
  assumes "nova_device_register dev s = Some (r, t)" "heap_wf (io_heap s)"
  shows "heap_wf (io_heap t)"
  using assms
  by (auto simp: nova_device_register_def lock_registry_def Let_def intro!: heap_wf_put_dev
      split: option.splits bind_splits if_splits)

lemma io_unregister_loop_heap_wf:
  "io_unregister_loop dev prev cur s = Some x \<Longrightarrow> heap_wf (io_heap s) \<longrightarrow> heap_wf (io_heap (snd x))"
proof (erule io_unregister_loop.raw_induct [rotated], intro impI)
  fix loop dev prev cur s x
  assume IH: "\<And>dev prev cur s x. loop dev prev cur s = Some x \<Longrightarrow>
      heap_wf (io_heap s) \<longrightarrow> heap_wf (io_heap (snd x))"
    and body: "(case cur of None \<Rightarrow> Some (-1, unlock_registry s)
      | Some c \<Rightarrow> get_dev c s \<bind> (\<lambda>d. if c = dev then
            (case prev of
               Some p \<Rightarrow> get_dev p s \<bind> (\<lambda>e. Some (put_dev p (e\<lparr>dv_next := dv_next d\<rparr>) s))
             | None \<Rightarrow> Some (s\<lparr>g_device_registry := dv_next d\<rparr>)) \<bind> (\<lambda>s1.
            (case dv_next d of None \<Rightarrow> Some s1
             | Some n \<Rightarrow> get_dev n s1 \<bind> (\<lambda>e. Some (put_dev n (e\<lparr>dv_prev := prev\<rparr>) s1))) \<bind> (\<lambda>s2.
            Some (0, unlock_registry s2)))
          else loop dev (Some c) (dv_next d) s)) = Some x"
    and wf: "heap_wf (io_heap s)"
  show "heap_wf (io_heap (snd x))"
    using body wf IH by (auto split: option.splits bind_splits if_splits intro!: heap_wf_put_dev)
qed

lemma registered_inv: "io_registered t xs \<Longrightarrow> heap_wf (io_heap t) \<Longrightarrow> \<not> g_registry_lock t \<Longrightarrow> io_inv t"
  by (auto simp: io_inv_def)

lemma device_register_safe:
  assumes inv: "io_inv s" and ok: "io_ok (Device_register dev) s"
  shows "\<exists>r t. nova_device_register dev s = Some (r, t) \<and> io_inv t"
proof (cases dev)
  case None
  with inv show ?thesis by (simp add: nova_device_register_def)
next
  case (Some a)
  obtain xs where xs: "io_registered s xs" using inv by (auto simp: io_inv_def)
  obtain d where d: "get_dev a s = Some d" "a \<notin> set xs" using ok Some is_registered_iff [OF xs] by auto
  have unlocked: "\<not> g_registry_lock s" and wf: "heap_wf (io_heap s)" using inv by (simp_all add: io_inv_def)
  show ?thesis
  proof (cases "dv_name d ! 0 = NUL")
    case True
    with d inv Some show ?thesis by (simp add: nova_device_register_def)
  next
    case False
    obtain t where t: "nova_device_register (Some a) s = Some (0, t)" "io_registered t (a # xs)" "\<not> g_registry_lock t"
      using register_registered [OF xs unlocked d False] by blast
    then show ?thesis using registered_inv register_heap_wf [OF t(1) wf] Some by blast
  qed
qed

lemma device_unregister_safe:
  assumes inv: "io_inv s"
  shows "\<exists>r t. nova_device_unregister dev s = Some (r, t) \<and> io_inv t"
proof (cases dev)
  case None
  with inv show ?thesis by (simp add: nova_device_unregister_def)
next
  case (Some a)
  obtain xs where xs: "io_registered s xs" using inv by (auto simp: io_inv_def)
  let ?s = "s\<lparr>g_registry_lock := True\<rparr>"
  have reg: "io_registered ?s ([] @ xs)" "plist (io_next ?s) (g_device_registry s) xs"
    using xs by (simp_all add: io_registered_def linked_def)
  have call: "nova_device_unregister dev s = io_unregister_loop a None (g_device_registry s) ?s"
    using inv Some by (simp add: nova_device_unregister_def lock_registry_def io_inv_def)
  have wf: "heap_wf (io_heap ?s)" using inv by (simp add: io_inv_def)
  obtain r t ys where t: "io_unregister_loop a None (g_device_registry s) ?s = Some (r, unlock_registry t)" "io_registered t ys"
    using io_unregister_loop_spec [OF reg(1) _ reg(2), of a] xs by (cases "a \<in> set xs") auto
  have "heap_wf (io_heap (unlock_registry t))" using io_unregister_loop_heap_wf [OF t(1)] wf by simp
  then have "io_inv (unlock_registry t)" by (intro registered_inv [of _ ys]) (simp_all add: t(2))
  with call t(1) show ?thesis by simp
qed

lemma device_lookup_safe:
  assumes inv: "io_inv s"
  shows "\<exists>r. nova_device_find n s = Some (r, s)" "\<exists>r. nova_device_get_by_major_minor maj mnr s = Some (r, s)"
proof -
  obtain xs where xs: "io_registered s xs" using inv by (auto simp: io_inv_def)
  have unlocked: "\<not> g_registry_lock s" using inv by (simp add: io_inv_def)
  from io_find_spec [OF xs this] show "\<exists>r. nova_device_get_by_major_minor maj mnr s = Some (r, s)" by blast
  from io_find_spec [OF xs unlocked] show "\<exists>r. nova_device_find n s = Some (r, s)"
    by (cases n) (simp add: nova_device_find_def, blast)
qed

lemma io_init_safe: "io_inv s \<Longrightarrow> \<exists>r t. nova_io_init s = (r, t) \<and> io_inv t"
  by (auto simp: nova_io_init_def io_inv_def io_registered_def linked_def intro!: exI [of _ "[]"])

lemma io_shutdown_safe:
  assumes inv: "io_inv s" and ok: "io_ok Io_shutdown s"
  shows "\<exists>r t. nova_io_shutdown s = Some (r, t) \<and> io_inv t"
proof (cases "g_io_initialized s")
  case False
  with inv show ?thesis by (simp add: nova_io_shutdown_def)
next
  case True
  obtain xs where xs: "io_registered s xs" using inv by (auto simp: io_inv_def)
  let ?s = "s\<lparr>g_registry_lock := True\<rparr>"
  have "plist (io_next ?s) (g_device_registry s) xs" "\<forall>a \<in> set xs. get_dev a ?s \<noteq> None"
    using xs by (simp_all add: io_registered_def linked_def)
  note loop = io_free_loop_spec [OF this]
  have heap: "\<not> (\<exists>x \<in> set xs. static_mem s x)" using ok is_registered_iff [OF xs] by auto
  let ?t = "s\<lparr>io_heap := (io_heap s)\<lparr>cells := \<lambda>a. if a \<in> set xs then None else cells (io_heap s) a\<rparr>,
    g_device_registry := None, g_io_initialized := False\<rparr>"
  have "nova_io_shutdown s = Some (0, ?t)"
    using loop heap True inv by (simp add: nova_io_shutdown_def lock_registry_def unlock_registry_def io_inv_def cong: if_cong)
  moreover have "io_registered ?t []" by (simp add: io_registered_def linked_def)
  then have "io_inv ?t" using inv by (intro registered_inv) (auto simp: io_inv_def heap_wf_def)
  ultimately show ?thesis by blast
qed

subsection \<open>Requests, transfers and ports\<close>

lemma submit_safe:
  assumes inv: "io_inv s" and drv: "driver_ok drv" and req: "get_req a s = Some r"
    and dev: "\<And>d. rq_device r = Some d \<Longrightarrow> get_dev d s \<noteq> None"
  shows "\<exists>c t. nova_io_submit drv (Some a) s = Some (c, t) \<and> io_inv t \<and> get_req a t \<noteq> None \<and>
    static_mem t = static_mem s"
proof (cases "rq_device r = None \<or> rq_buffer r = None")
  case True
  with inv req show ?thesis by (auto simp: nova_io_submit_def split: option.splits)
next
  case False
  then obtain d b where db: "rq_device r = Some d" "rq_buffer r = Some b" by auto
  obtain e where e: "get_dev d s = Some e" using dev [OF db(1)] by auto
  show ?thesis
  proof (cases "submit_entry e")
    case None
    let ?t = "put_req a (r\<lparr>rq_status := NOVA_IO_ERROR, rq_error_code := -1\<rparr>) s"
    have "io_inv ?t" using io_inv_put_req [OF inv] req by simp
    then show ?thesis using db e req None by (simp add: nova_io_submit_def) (simp add: put_req_def)
  next
    case (Some f)
    obtain c t where t: "drv f d a s = Some (c, t)" "driver_frame s t"
      using drv inv e req unfolding driver_ok_def by (metis option.distinct(1))
    then have "get_req a t \<noteq> None" "static_mem t = static_mem s" using req by (auto simp: driver_frame_def)
    with db e req Some t driver_frame_inv [OF t(2) inv] show ?thesis by (simp add: nova_io_submit_def)
  qed
qed

lemma finish_transfer_safe:
  assumes inv: "io_inv s" and drv: "driver_ok drv" and req: "get_req a s = Some r" "\<not> static_mem s a"
    and dev: "\<And>d. rq_device r = Some d \<Longrightarrow> get_dev d s \<noteq> None"
  shows "\<exists>c t. finish_transfer drv a s = Some (c, t) \<and> io_inv t"
proof -
  obtain c t where t: "nova_io_submit drv (Some a) s = Some (c, t)" "io_inv t" "get_req a t \<noteq> None"
    "static_mem t = static_mem s" using submit_safe [OF inv drv req(1) dev] by blast
  obtain q where q: "get_req a t = Some q" using t(3) by auto
  have st: "\<not> static_mem t a" using req(2) t(4) by simp
  obtain u where u: "io_free a t = Some u" "io_inv u"
    using io_inv_free [OF t(2) conjunct2 [OF req_not_dev [OF t(3)]] st conjunct1 [OF req_not_dev [OF t(3)]]] by blast
  have "cells (io_heap t) a \<noteq> None" using req_not_dev [OF t(3)] by simp
  from u(1) io_free_live [OF this st] have
    "u = t\<lparr>io_heap := (io_heap t)\<lparr>cells := (cells (io_heap t))(a := None)\<rparr>\<rparr>" by simp
  with finish_transfer_spec [OF t(1) q st] u(2) show ?thesis by simp
qed

lemma transfer_safe:
  assumes inv: "io_inv s" and drv: "driver_ok drv"
  shows "io_ok (Read_sectors dev sector buf count) s \<Longrightarrow>
      \<exists>c t. nova_block_read_sectors drv dev sector buf count s = Some (c, t) \<and> io_inv t"
    and "io_ok (Write_sectors dev sector buf count) s \<Longrightarrow>
      \<exists>c t. nova_block_write_sectors drv dev sector buf count s = Some (c, t) \<and> io_inv t"
proof -
  let ?a = "next_addr (io_heap s)"
  have finish: "\<exists>c u. finish_transfer drv ?a (put_req ?a q t) = Some (c, u) \<and> io_inv u"
    if "io_inv t" "get_req ?a t \<noteq> None" "static_mem t = static_mem s" "\<And>x. get_dev x t = get_dev x s"
      "get_dev d s \<noteq> None" "\<not> static_mem s ?a" "rq_device q = Some d" for t q d
  proof (rule finish_transfer_safe [OF io_inv_put_req [OF that(1,2)] drv, of _ q])
    have "cells (io_heap t) ?a \<noteq> None" "get_dev ?a t = None" using req_not_dev [OF that(2)] by auto
    then show "get_dev e (put_req ?a q t) \<noteq> None" if "rq_device q = Some e" for e
      using that \<open>rq_device q = Some d\<close> \<open>get_dev d s \<noteq> None\<close> \<open>\<And>x. get_dev x t = get_dev x s\<close>
      by (auto simp: get_dev_def put_req_def split: if_splits)
    show "\<not> static_mem (put_req ?a q t) ?a" using that(3,6) by (simp add: put_req_def)
  qed simp
  show "\<exists>c t. nova_block_read_sectors drv dev sector buf count s = Some (c, t) \<and> io_inv t"
    if ok: "io_ok (Read_sectors dev sector buf count) s"
  proof (cases "dev = None \<or> buf = None \<or> count = 0")
    case True
    with inv show ?thesis by (auto simp: nova_block_read_sectors_def split: option.splits)
  next
    case False
    then obtain d b where db: "dev = Some d" "buf = Some b" "count \<noteq> 0" by auto
    obtain e ops where e: "get_dev d s = Some e" "dv_ops e = Some ops" "\<not> static_mem s ?a"
      using ok db by (auto split: option.splits)
    from inv show ?thesis
    proof (cases rule: request_alloc_cases)
      case (failed t)
      with db show ?thesis by (simp add: nova_block_read_sectors_def)
    next
      case (fresh t)
      then obtain q where "get_req ?a t = Some q" by auto
      with finish [where d = d, OF fresh(2,3,4,5) _ e(3)] fresh(1,5) db e(1,2) show ?thesis
        by (simp add: nova_block_read_sectors_def)
    qed
  qed
  show "\<exists>c t. nova_block_write_sectors drv dev sector buf count s = Some (c, t) \<and> io_inv t"
    if ok: "io_ok (Write_sectors dev sector buf count) s"
  proof (cases "dev = None \<or> buf = None \<or> count = 0")
    case True
    with inv show ?thesis by (auto simp: nova_block_write_sectors_def split: option.splits)
  next
    case False
    then obtain d b where db: "dev = Some d" "buf = Some b" "count \<noteq> 0" by auto
    have e: "get_dev d s \<noteq> None" "\<not> static_mem s ?a" using ok db by auto
    from inv show ?thesis
    proof (cases rule: request_alloc_cases)
      case (failed t)
      with db show ?thesis by (simp add: nova_block_write_sectors_def)
    next
      case (fresh t)
      then obtain q where "get_req ?a t = Some q" by auto
      with finish [where d = d, OF fresh(2,3,4,5) e] fresh(1) db show ?thesis
        by (simp add: nova_block_write_sectors_def)
    qed
  qed
qed

lemma port_create_safe: "io_inv s \<Longrightarrow> io_inv (snd (nova_io_completion_port_create forever n s))"
proof -
  assume inv: "io_inv s"
  show ?thesis
  proof (cases rule: calloc_cases [of "Port zero_port" "io_heap s"])
    case failed
    then show ?thesis using io_inv_calloc [OF inv failed] by (simp add: nova_io_completion_port_create_def)
  next
    case fresh
    let ?p = "Port (zero_port\<lparr>cp_max_events := n, cp_timeout_ms := forever\<rparr>)"
    have nf: "\<not> calloc_fails (io_heap s) (calloc_calls (io_heap s))" using fresh by (auto simp: calloc_def split: if_splits)
    have "io_inv (s\<lparr>io_heap := snd (calloc ?p (io_heap s))\<rparr>)" by (rule io_inv_calloc [OF inv surjective_pairing]) simp
    moreover have "snd (nova_io_completion_port_create forever n s) = s\<lparr>io_heap := snd (calloc ?p (io_heap s))\<rparr>"
      using nf by (cases "io_heap s") (simp add: nova_io_completion_port_create_def calloc_ok store_def)
    ultimately show ?thesis by simp
  qed
qed

lemma port_destroy_safe:
  assumes "io_inv s" "io_ok (Port_destroy p) s"
  shows "\<exists>r t. nova_io_completion_port_destroy p s = Some (r, t) \<and> io_inv t"
  using assms io_inv_free port_not_dev
  by (cases p) (fastforce simp: nova_io_completion_port_destroy_def)+

lemma request_free_safe:
  assumes "io_inv s" "io_ok (Request_free p) s"
  shows "\<exists>t. nova_io_request_free p s = Some t \<and> io_inv t"
  using assms io_inv_free req_not_dev by (cases p) (fastforce simp: nova_io_request_free_def)+

lemma cancel_safe:
  assumes "io_inv s" "io_ok (Cancel p) s"
  shows "\<exists>r t. nova_io_cancel p s = Some (r, t) \<and> io_inv t"
  using assms io_inv_put_req by (cases p) (fastforce simp: nova_io_cancel_def)+

subsection \<open>Safety of every sequence of calls\<close>

lemma io_exec_safe:
  assumes inv: "io_inv s" and drv: "driver_ok drv" and ok: "io_ok op s"
  shows "\<exists>r t. io_exec drv op s = Some (r, t) \<and> io_inv t"
proof (cases op)
  case (Device_register d)
  with device_register_safe [OF inv, of d] ok show ?thesis by simp
next
  case (Request_alloc)
  from inv show ?thesis by (cases rule: request_alloc_cases) (simp_all add: Request_alloc)
next
  case (Request_fill a r)
  with io_inv_put_req [OF inv] ok show ?thesis by simp
next
  case (Submit p)
  show ?thesis
  proof (cases p)
    case None
    with inv Submit show ?thesis by (simp add: nova_io_submit_def)
  next
    case (Some a)
    then obtain r where r: "get_req a s = Some r" "case rq_device r of None \<Rightarrow> True | Some d \<Rightarrow> get_dev d s \<noteq> None"
      using ok Submit by (auto split: option.splits)
    have "\<And>d. rq_device r = Some d \<Longrightarrow> get_dev d s \<noteq> None" using r(2) by (auto split: option.splits)
    from submit_safe [OF inv drv r(1) this] Submit Some show ?thesis by auto
  qed
next
  case (Device_find n)
  with device_lookup_safe(1) [OF inv, of n] inv show ?thesis by auto
next
  case (Device_get maj mnr)
  with device_lookup_safe(2) [OF inv, of maj mnr] inv show ?thesis by auto
next
  case (Request_free p)
  with request_free_safe [OF inv, of p] ok show ?thesis by auto
qed (use inv ok in \<open>simp_all add: io_shutdown_safe device_unregister_safe transfer_safe [OF inv drv] port_create_safe
    port_destroy_safe cancel_safe io_init_safe nova_io_wait_def nova_io_completion_port_associate_def
    nova_io_completion_port_get_event_def\<close>)

lemma io_start_inv: "io_start s \<Longrightarrow> io_inv s"
  by (auto simp: io_start_def io_inv_def io_registered_def linked_def intro!: exI [of _ "[]"])

interpretation io_machine: invariant_machine io_start io_step io_inv
proof unfold_locales
  show "io_start s \<Longrightarrow> io_inv s" for s by (rule io_start_inv)
  show "io_inv t" if "io_inv s" "io_step s t" for s t
    using that(2)
  proof (rule io_stepE)
    fix drv op r assume "driver_ok drv" "io_ok op s" "io_exec drv op s = Some (r, t)"
    with io_exec_safe [OF that(1)] show "io_inv t" by fastforce
  qed
qed

text \<open>
  Claim C10. Safety of the I/O stack: after any sequence of calls from program start in which the client
  and the drivers keep their contracts, under any pattern of allocation failures, every further such
  call returns and leaves the lock free.  None follows a dead pointer, frees a block twice, walks the
  registry for ever, or spins on a lock that nobody will release.
\<close>
theorem io_stack_safe:
  assumes "reach io_start io_step s" "driver_ok drv" "io_ok op s"
  shows "\<exists>r t. io_exec drv op s = Some (r, t) \<and> \<not> g_registry_lock t"
proof -
  obtain r t where "io_exec drv op s = Some (r, t)" "io_inv t"
    using io_exec_safe [OF io_machine.reach_inv [OF assms(1)] assms(2,3)] by blast
  then show ?thesis by (auto simp: io_inv_def)
qed

subsection \<open>Witnesses\<close>

text \<open>The driver that completes every request at once keeps its contract.\<close>

lemma demo_driver_ok: "driver_ok demo_driver"
proof -
  have "driver_frame s (put_req a q s)" if "io_inv s" "get_req a s \<noteq> None" for a q s
  proof -
    have wf: "heap_wf (io_heap (put_req a q s))" using io_inv_put_req [OF that] by (simp add: io_inv_def)
    have dev: "get_dev x (put_req a q s) = get_dev x s" for x
      using req_not_dev [OF that(2)] by (auto simp: get_dev_def put_req_def)
    have req: "(get_req x (put_req a q s) = None) = (get_req x s = None)" for x
      using that(2) by (auto simp: get_req_def put_req_def)
    show ?thesis using wf dev req
      by (simp add: driver_frame_def io_next_def [abs_def] io_prev_def [abs_def]) (simp add: put_req_def)
  qed
  then show ?thesis by (auto simp: driver_ok_def demo_driver_def)
qed

theorem io_stack_safe_witness:
  "\<exists>r t. io_exec demo_driver (Device_register (Some 0)) (bare_io\<lparr>g_io_initialized := False\<rparr>) = Some (r, t) \<and>
     \<not> g_registry_lock t"
proof -
  let ?s = "bare_io\<lparr>g_io_initialized := False\<rparr>"
  have start: "io_start ?s" by (simp add: io_start_def bare_io_def heap_wf_def)
  then have "io_registered ?s []" by (simp add: io_start_def io_registered_def linked_def)
  then have "io_ok (Device_register (Some 0)) ?s"
    by (simp add: is_registered_iff) (simp add: bare_io_def get_dev_def)
  moreover have "reach io_start io_step ?s" using start by (rule reach_start)
  ultimately show ?thesis using io_stack_safe demo_driver_ok by blast
qed

end
