(* ===== verification/Nova_Io_Registry.thy ===== *)
theory Nova_Io_Registry
  imports Nova_Io_Machine
begin

text \<open>
  The contract of the device registry of \<open>kernel/io/io_stack.c\<close>: a list of devices, most recently
  registered first, what is known of each device, and the next major number.  The linked list of
  \<open>Nova_Io\<close>, walked with the registry lock taken, implements it call by call.
\<close>

subsection \<open>The specification\<close>

datatype registry_op =
  Register "nat option" | Unregister "nat option" | Find_path "string option" | Find_numbers u32 u32

text \<open>A call returns a code or a pointer.\<close>

fun registry_exec :: "registry_op \<Rightarrow> io_state \<Rightarrow> ((int + nat option) \<times> io_state) option" where
  "registry_exec (Register d) s = map_option (\<lambda>(r, t). (Inl r, t)) (nova_device_register d s)"
| "registry_exec (Unregister d) s = map_option (\<lambda>(r, t). (Inl r, t)) (nova_device_unregister d s)"
| "registry_exec (Find_path n) s = map_option (\<lambda>(p, t). (Inr p, t)) (nova_device_find n s)"
| "registry_exec (Find_numbers maj mnr) s =
     map_option (\<lambda>(p, t). (Inr p, t)) (nova_device_get_by_major_minor maj mnr s)"

record registry =
  reg_list :: "nat list"
  reg_info :: "nat \<Rightarrow> nova_device option"
  reg_major :: u32

definition numbered :: "u32 \<Rightarrow> nova_device \<Rightarrow> nova_device" where
  "numbered next d = (if dv_major d = 0 then d\<lparr>dv_major := next\<rparr> else d)"

definition first_device :: "(nova_device \<Rightarrow> bool) \<Rightarrow> registry \<Rightarrow> nat option" where
  "first_device test a = find (\<lambda>x. test (the (reg_info a x))) (reg_list a)"

fun registry_spec :: "registry_op \<Rightarrow> registry \<Rightarrow> int + nat option \<Rightarrow> registry \<Rightarrow> bool" where
  "registry_spec (Register None) a r b \<longleftrightarrow> r = Inl (-1) \<and> b = a"
| "registry_spec (Register (Some x)) a r b \<longleftrightarrow>
     (case reg_info a x of
        None \<Rightarrow> False
      | Some d \<Rightarrow>
          if dv_name d ! 0 = NUL then r = Inl (-1) \<and> b = a
          else r = Inl 0 \<and> b = \<lparr>reg_list = x # reg_list a, reg_info = (reg_info a)(x \<mapsto> numbered (reg_major a) d),
            reg_major = (if dv_major d = 0 then reg_major a + 1 else reg_major a)\<rparr>)"
| "registry_spec (Unregister None) a r b \<longleftrightarrow> r = Inl (-1) \<and> b = a"
| "registry_spec (Unregister (Some x)) a r b \<longleftrightarrow>
     r = Inl (if x \<in> set (reg_list a) then 0 else -1) \<and>
     b = a\<lparr>reg_list := filter (\<lambda>y. y \<noteq> x) (reg_list a)\<rparr>"
| "registry_spec (Find_path None) a r b \<longleftrightarrow> r = Inr None \<and> b = a"
| "registry_spec (Find_path (Some n)) a r b \<longleftrightarrow>
     r = Inr (first_device (\<lambda>d. cstr (dv_path d) = n) a) \<and> b = a"
| "registry_spec (Find_numbers maj mnr) a r b \<longleftrightarrow>
     r = Inr (first_device (\<lambda>d. dv_major d = maj \<and> dv_minor d = mnr) a) \<and> b = a"

text \<open>The client registers live devices, none of them twice.\<close>

fun registry_allowed :: "registry_op \<Rightarrow> registry \<Rightarrow> bool" where
  "registry_allowed (Register (Some x)) a \<longleftrightarrow> reg_info a x \<noteq> None \<and> x \<notin> set (reg_list a)"
| "registry_allowed _ a \<longleftrightarrow> True"

text \<open>The abstraction: what the list links together, and the devices without their links.\<close>

definition info_of :: "io_state \<Rightarrow> nat \<Rightarrow> nova_device option" where
  "info_of s x = map_option dev_id (get_dev x s)"

definition registry_sim :: "io_state \<Rightarrow> registry \<Rightarrow> bool" where
  "registry_sim s a \<longleftrightarrow> io_registered s (reg_list a) \<and> \<not> g_registry_lock s \<and>
     reg_info a = info_of s \<and> reg_major a = g_next_major s"

subsection \<open>The simulation\<close>

lemma numbered_id: "dev_id (d\<lparr>dv_major := if dv_major d = 0 then m else dv_major d\<rparr>) = numbered m (dev_id d)"
  by (simp add: numbered_def dev_id_def)

lemma find_info:
  assumes "io_registered s xs"
  shows "find (\<lambda>x. test (the (info_of s x))) xs = find (\<lambda>x. test (dev_id (the (get_dev x s)))) xs"
  using assms by (intro find_cong) (auto simp: io_registered_def info_of_def)

lemma register_sim:
  assumes sim: "registry_sim s a" and ok: "registry_allowed (Register (Some x)) a"
  shows "\<exists>r t b. registry_exec (Register (Some x)) s = Some (r, t) \<and> registry_spec (Register (Some x)) a r b \<and> registry_sim t b"
proof -
  have reg: "io_registered s (reg_list a)" "\<not> g_registry_lock s" "x \<notin> set (reg_list a)"
    and abs: "reg_info a = info_of s" "reg_major a = g_next_major s" using sim ok by (auto simp: registry_sim_def)
  obtain d where d: "get_dev x s = Some d" using ok abs by (auto simp: info_of_def)
  show ?thesis
  proof (cases "dv_name d ! 0 = NUL")
    case True
    with d sim abs show ?thesis by (auto simp: nova_device_register_def info_of_def)
  next
    case False
    then obtain t where t: "nova_device_register (Some x) s = Some (0, t)" "io_registered t (x # reg_list a)"
      "\<not> g_registry_lock t" "map_option dev_id (get_dev x t) = Some (numbered (g_next_major s) (dev_id d))"
      "\<forall>y. y \<noteq> x \<longrightarrow> map_option dev_id (get_dev y t) = map_option dev_id (get_dev y s)"
      "g_next_major t = (if dv_major d = 0 then g_next_major s + 1 else g_next_major s)"
      using register_registered [OF reg(1,2) d reg(3)] unfolding numbered_id by metis
    then have "info_of t = (info_of s)(x \<mapsto> numbered (g_next_major s) (dev_id d))"
      by (auto simp: info_of_def fun_eq_iff)
    with t d abs False show ?thesis by (auto simp: registry_sim_def info_of_def)
  qed
qed

lemma unregister_loop_major:
  "io_unregister_loop dev prev cur s = Some x \<Longrightarrow> g_next_major (snd x) = g_next_major s"
proof (erule io_unregister_loop.raw_induct [rotated])
  fix loop dev prev cur s x
  assume IH: "\<And>dev prev cur s x. loop dev prev cur s = Some x \<Longrightarrow> g_next_major (snd x) = g_next_major s"
    and body: "(case cur of None \<Rightarrow> Some (-1, unlock_registry s)
      | Some c \<Rightarrow> get_dev c s \<bind> (\<lambda>d. if c = dev then
            (case prev of
               Some p \<Rightarrow> get_dev p s \<bind> (\<lambda>e. Some (put_dev p (e\<lparr>dv_next := dv_next d\<rparr>) s))
             | None \<Rightarrow> Some (s\<lparr>g_device_registry := dv_next d\<rparr>)) \<bind> (\<lambda>s1.
            (case dv_next d of None \<Rightarrow> Some s1
             | Some n \<Rightarrow> get_dev n s1 \<bind> (\<lambda>e. Some (put_dev n (e\<lparr>dv_prev := prev\<rparr>) s1))) \<bind> (\<lambda>s2.
            Some (0, unlock_registry s2)))
          else loop dev (Some c) (dv_next d) s)) = Some x"
  show "g_next_major (snd x) = g_next_major s"
    using body IH by (auto split: option.splits bind_splits if_splits)
qed

lemma unregister_major:
  "nova_device_unregister dev s = Some (r, t) \<Longrightarrow> g_next_major t = g_next_major s"
  by (auto simp: nova_device_unregister_def lock_registry_def split: option.splits if_splits dest: unregister_loop_major)

lemma unregister_sim:
  assumes sim: "registry_sim s a"
  shows "\<exists>r t b. registry_exec (Unregister (Some x)) s = Some (r, t) \<and> registry_spec (Unregister (Some x)) a r b \<and> registry_sim t b"
proof -
  have reg: "io_registered s (reg_list a)" "\<not> g_registry_lock s" using sim by (simp_all add: registry_sim_def)
  show ?thesis
  proof (cases "x \<in> set (reg_list a)")
    case True
    then obtain t where t: "nova_device_unregister (Some x) s = Some (0, t)"
      "io_registered t (filter (\<lambda>y. y \<noteq> x) (reg_list a))" "same_devices s t" "\<not> g_registry_lock t"
      using unregister_registered [OF reg, of x] by auto
    moreover from t(1) have "g_next_major t = g_next_major s" by (rule unregister_major)
    moreover from t(3) have "info_of t = info_of s" by (simp add: info_of_def same_devices_def fun_eq_iff)
    ultimately show ?thesis using True sim by (auto simp: registry_sim_def)
  next
    case False
    then have "nova_device_unregister (Some x) s = Some (-1, s)" "filter (\<lambda>y. y \<noteq> x) (reg_list a) = reg_list a"
      using unregister_registered [OF reg, of x] by (auto intro: filter_True)
    with False sim show ?thesis by simp
  qed
qed

lemma lookup_sim:
  assumes sim: "registry_sim s a"
  shows "registry_exec (Find_path (Some n)) s = Some (Inr (first_device (\<lambda>d. cstr (dv_path d) = n) a), s)"
    "registry_exec (Find_numbers maj mnr) s =
       Some (Inr (first_device (\<lambda>d. dv_major d = maj \<and> dv_minor d = mnr) a), s)"
proof -
  have reg: "io_registered s (reg_list a)" "\<not> g_registry_lock s" and info: "reg_info a = info_of s"
    using sim by (simp_all add: registry_sim_def)
  note find = find_info [OF reg(1)]
  show "registry_exec (Find_path (Some n)) s = Some (Inr (first_device (\<lambda>d. cstr (dv_path d) = n) a), s)"
    "registry_exec (Find_numbers maj mnr) s =
       Some (Inr (first_device (\<lambda>d. dv_major d = maj \<and> dv_minor d = mnr) a), s)"
    using io_find_spec [OF reg]
    by (simp_all add: first_device_def info find [of "\<lambda>d. cstr (dv_path d) = n"]
        find [of "\<lambda>d. dv_major d = maj \<and> dv_minor d = mnr"])
qed

interpretation device_registry: call_refinement registry_sim registry_exec registry_allowed registry_spec
proof unfold_locales
  fix s a op
  assume sim: "registry_sim s a" and ok: "registry_allowed op a"
  show "\<exists>r t b. registry_exec op s = Some (r, t) \<and> registry_spec op a r b \<and> registry_sim t b"
  proof (cases op)
    case (Register d)
    with sim ok register_sim show ?thesis by (cases d) (auto simp: nova_device_register_def)
  next
    case (Unregister d)
    with sim unregister_sim show ?thesis by (cases d) (auto simp: nova_device_unregister_def)
  next
    case (Find_path n)
    with sim lookup_sim(1) [OF sim] show ?thesis by (cases n) (auto simp: nova_device_find_def)
  next
    case (Find_numbers maj mnr)
    with sim lookup_sim(2) [OF sim] show ?thesis by auto
  qed
qed

subsection \<open>The property\<close>

text \<open>
  Claim C11. The device registry implements its contract: from any state whose registry is the
  well-linked list \<open>xs\<close> and whose lock is free, for any sequence of calls that registers live
  devices only and none twice, every call returns, results are those of the abstract list (the
  device registered last comes first in lookups by path and by number, a device without a major
  number gets the next one, unregistering reports whether the device was there), and the linked list
  at the end is well linked in both directions, with the lock free.
\<close>
theorem io_registry_refines:
  assumes "io_registered s xs" "\<not> g_registry_lock s"
    and "keeps_contract registry_allowed registry_spec ops \<lparr>reg_list = xs, reg_info = info_of s, reg_major = g_next_major s\<rparr>"
  shows "\<exists>rs t b. call_run registry_exec ops s = Some (rs, t) \<and>
    spec_run registry_spec ops \<lparr>reg_list = xs, reg_info = info_of s, reg_major = g_next_major s\<rparr> rs b \<and>
    io_registered t (reg_list b) \<and> info_of t = reg_info b \<and> \<not> g_registry_lock t"
proof -
  have "registry_sim s \<lparr>reg_list = xs, reg_info = info_of s, reg_major = g_next_major s\<rparr>"
    using assms(1,2) by (simp add: registry_sim_def)
  from device_registry.run_sim [OF this assms(3)] show ?thesis unfolding registry_sim_def by metis
qed

subsection \<open>Witness\<close>

text \<open>A device leaves the registry of \<open>Nova_Io\<close>, returns to its head and is found there.\<close>

theorem io_registry_refines_witness:
  "\<exists>t b. call_run registry_exec [Unregister (Some 1), Register (Some 1), Find_path (Some ''tty'')] demo_io =
       Some ([Inl 0, Inl 0, Inr (Some 1)], t) \<and> io_registered t [1, 0] \<and> \<not> g_registry_lock t"
proof -
  let ?ops = "[Unregister (Some 1), Register (Some 1), Find_path (Some ''tty'')]"
  obtain d where d: "info_of demo_io 1 = Some d" "dv_name d ! 0 \<noteq> NUL" "cstr (dv_path d) = ''tty''"
  proof -
    have "map_option (\<lambda>d. dv_name d ! 0 \<noteq> NUL \<and> cstr (dv_path d) = ''tty'') (info_of demo_io 1) = Some True" by code_simp
    then show ?thesis using that by auto
  qed
  then have "cstr (dv_path (numbered m d)) = ''tty''" for m by (simp add: numbered_def)
  moreover from d have "keeps_contract registry_allowed registry_spec ?ops
      \<lparr>reg_list = [0, 1], reg_info = info_of demo_io, reg_major = g_next_major demo_io\<rparr>" by simp
  note io_registry_refines [OF demo_io_facts(1,2) this]
  ultimately show ?thesis using d by (auto simp: first_device_def)
qed

end
