(* ===== verification/Nova_Io_Requests.thy ===== *)
theory Nova_Io_Requests
  imports Nova_Io Nova_Interfaces
begin

text \<open>
  The contract of I/O requests and sector transfers of \<open>kernel/io/io_stack.c\<close>: an abstract table of the
  requests that a client owns.  A call names a request by its handle; the specification says what
  it returns and what becomes of that one entry.  Two choices are left open: whether an allocation
  fails, and what a driver makes of a request, which is an arbitrary relation.  The stack, with its
  heap and its drivers, implements the table for every sequence of calls.
\<close>

datatype rq_op =
  Rq_alloc | Rq_fill nat nova_io_request | Rq_free "nat option"
| Rq_submit "nat option" | Rq_wait "nat option" u32 | Rq_cancel "nat option"
| Rq_read "nat option" u64 "nat option" u32 | Rq_write "nat option" u64 "nat option" u32

datatype rq_result = Done | Code int | Handle "nat option"

text \<open>\<open>Rq_fill\<close> is the client's assignment to the fields of a request of its own.\<close>

fun rq_exec :: "driver \<Rightarrow> rq_op \<Rightarrow> io_state \<Rightarrow> (rq_result \<times> io_state) option" where
  "rq_exec drv Rq_alloc s = (case nova_io_request_alloc s of (p, t) \<Rightarrow> Some (Handle p, t))"
| "rq_exec drv (Rq_fill a q) s = Some (Done, put_req a q s)"
| "rq_exec drv (Rq_free p) s = do { t \<leftarrow> nova_io_request_free p s; Some (Done, t) }"
| "rq_exec drv (Rq_submit p) s = do { (c, t) \<leftarrow> nova_io_submit drv p s; Some (Code c, t) }"
| "rq_exec drv (Rq_wait p ms) s = (case nova_io_wait p ms s of (c, t) \<Rightarrow> Some (Code c, t))"
| "rq_exec drv (Rq_cancel p) s = do { (c, t) \<leftarrow> nova_io_cancel p s; Some (Code c, t) }"
| "rq_exec drv (Rq_read d sector b n) s = do { (c, t) \<leftarrow> nova_block_read_sectors drv d sector b n s; Some (Code c, t) }"
| "rq_exec drv (Rq_write d sector b n) s = do { (c, t) \<leftarrow> nova_block_write_sectors drv d sector b n s; Some (Code c, t) }"

subsection \<open>The specification\<close>

type_synonym rq_table = "nat \<Rightarrow> nova_io_request option"
type_synonym dev_table = "nat \<Rightarrow> nova_device option"

text \<open>What a driver may do: for an entry point, a device and a request, the code it returns and the
  request it leaves.\<close>

type_synonym driver_rel = "nat \<Rightarrow> nat \<Rightarrow> nova_io_request \<Rightarrow> int \<Rightarrow> nova_io_request \<Rightarrow> bool"

definition new_request :: nova_io_request where
  "new_request = zero_req\<lparr>rq_timeout_ms := 5000\<rparr>"

text \<open>Submitting a request: refused unless it names a device and a buffer, marked failed unless the
  device has an entry point, else up to the driver.\<close>

definition submits :: "driver_rel \<Rightarrow> dev_table \<Rightarrow> nova_io_request \<Rightarrow> int \<Rightarrow> nova_io_request \<Rightarrow> bool" where
  "submits R devs q c q' \<longleftrightarrow>
     (case (rq_device q, rq_buffer q) of
        (Some d, Some _) \<Rightarrow>
          (case devs d of None \<Rightarrow> False
           | Some e \<Rightarrow>
               (case submit_entry e of
                  None \<Rightarrow> c = -1 \<and> q' = q\<lparr>rq_status := NOVA_IO_ERROR, rq_error_code := -1\<rparr>
                | Some f \<Rightarrow> R f d q c q'))
      | _ \<Rightarrow> c = -1 \<and> q' = q)"

text \<open>The code that a transfer reports for a submitted request.\<close>

definition transfer_code :: "int \<Rightarrow> nova_io_request \<Rightarrow> int" where
  "transfer_code c q = (if c \<noteq> 0 then c else if rq_status q = NOVA_IO_SUCCESS then 0 else rq_error_code q)"

text \<open>A transfer: refused arguments or no memory, else a request of its own, submitted and dropped.\<close>

definition transfers ::
  "driver_rel \<Rightarrow> dev_table \<Rightarrow> nova_io_type \<Rightarrow> nat option \<Rightarrow> u64 \<Rightarrow> nat option \<Rightarrow> u32 \<Rightarrow> rq_result \<Rightarrow> bool" where
  "transfers R devs ty dev sector buf count r \<longleftrightarrow>
     r = Code (-1) \<or>
     (\<exists>d b c q. dev = Some d \<and> buf = Some b \<and> count \<noteq> 0 \<and> submits R devs (sector_req ty d sector b count) c q \<and>
        r = Code (transfer_code c q))"

fun rq_spec :: "driver_rel \<Rightarrow> dev_table \<Rightarrow> rq_op \<Rightarrow> rq_table \<Rightarrow> rq_result \<Rightarrow> rq_table \<Rightarrow> bool" where
  "rq_spec R devs Rq_alloc a r b \<longleftrightarrow> r = Handle None \<and> b = a \<or>
     (\<exists>p. r = Handle (Some p) \<and> a p = None \<and> devs p = None \<and> b = a(p \<mapsto> new_request))"
| "rq_spec R devs (Rq_fill p q) a r b \<longleftrightarrow> r = Done \<and> b = a(p \<mapsto> q)"
| "rq_spec R devs (Rq_free p) a r b \<longleftrightarrow> r = Done \<and> b = (case p of None \<Rightarrow> a | Some h \<Rightarrow> a(h := None))"
| "rq_spec R devs (Rq_submit p) a r b \<longleftrightarrow>
     (case p of None \<Rightarrow> r = Code (-1) \<and> b = a
      | Some h \<Rightarrow> \<exists>c q'. submits R devs (the (a h)) c q' \<and> r = Code c \<and> b = a(h \<mapsto> q'))"
| "rq_spec R devs (Rq_wait p ms) a r b \<longleftrightarrow> r = Code 0 \<and> b = a"
| "rq_spec R devs (Rq_cancel p) a r b \<longleftrightarrow>
     (case p of None \<Rightarrow> r = Code (-1) \<and> b = a
      | Some h \<Rightarrow>
          if rq_status (the (a h)) = NOVA_IO_PENDING
          then r = Code 0 \<and> b = a(h \<mapsto> (the (a h))\<lparr>rq_status := NOVA_IO_CANCELLED\<rparr>)
          else r = Code (-1) \<and> b = a)"
| "rq_spec R devs (Rq_read d sector buf n) a r b \<longleftrightarrow> b = a \<and> transfers R devs NOVA_IO_READ d sector buf n r"
| "rq_spec R devs (Rq_write d sector buf n) a r b \<longleftrightarrow> b = a \<and> transfers R devs NOVA_IO_WRITE d sector buf n r"

text \<open>The client's side: handles of its own requests, and devices that exist; a device to read from
  has an operation table.\<close>

fun rq_allowed :: "dev_table \<Rightarrow> rq_op \<Rightarrow> rq_table \<Rightarrow> bool" where
  "rq_allowed devs (Rq_fill p q) a \<longleftrightarrow> p \<in> dom a"
| "rq_allowed devs (Rq_free (Some p)) a \<longleftrightarrow> p \<in> dom a"
| "rq_allowed devs (Rq_submit (Some p)) a \<longleftrightarrow>
     (case a p of None \<Rightarrow> False
      | Some q \<Rightarrow> (case rq_device q of None \<Rightarrow> True | Some d \<Rightarrow> d \<in> dom devs))"
| "rq_allowed devs (Rq_cancel (Some p)) a \<longleftrightarrow> p \<in> dom a"
| "rq_allowed devs (Rq_read (Some d) sector b n) a \<longleftrightarrow> (case devs d of None \<Rightarrow> False | Some e \<Rightarrow> dv_ops e \<noteq> None)"
| "rq_allowed devs (Rq_write (Some d) sector b n) a \<longleftrightarrow> d \<in> dom devs"
| "rq_allowed devs op a \<longleftrightarrow> True"

text \<open>The driver's side: it returns, does to the request what the relation says, and leaves the other
  requests, the devices and the allocator's bookkeeping as they are.\<close>

definition driver_meets :: "driver_rel \<Rightarrow> driver \<Rightarrow> bool" where
  "driver_meets R drv \<longleftrightarrow> (\<forall>f d a s q. heap_wf (io_heap s) \<longrightarrow> get_dev d s \<noteq> None \<longrightarrow> get_req a s = Some q \<longrightarrow>
     (\<exists>c t q'. drv f d a s = Some (c, t) \<and> R f d q c q' \<and> heap_wf (io_heap t) \<and> static_mem t = static_mem s \<and>
        (\<forall>x. get_dev x t = get_dev x s) \<and> (\<forall>x. get_req x t = (if x = a then Some q' else get_req x s))))"

subsection \<open>The simulation\<close>

text \<open>Memory holds exactly these devices and requests; static storage holds devices only.\<close>

definition holds :: "dev_table \<Rightarrow> io_state \<Rightarrow> rq_table \<Rightarrow> bool" where
  "holds devs s a \<longleftrightarrow> heap_wf (io_heap s) \<and> (\<forall>x. get_dev x s = devs x) \<and> (\<forall>x. get_req x s = a x) \<and>
     (\<forall>x. static_mem s x \<longrightarrow> devs x \<noteq> None)"

lemma holds_disjoint: "holds devs s a \<Longrightarrow> a x \<noteq> None \<Longrightarrow> devs x = None \<and> \<not> static_mem s x \<and> cells (io_heap s) x \<noteq> None"
proof -
  assume h: "holds devs s a" and x: "a x \<noteq> None"
  then have "get_req x s = a x" "get_dev x s = devs x" by (simp_all add: holds_def)
  with x have "devs x = None" "cells (io_heap s) x \<noteq> None"
    by (auto simp: get_req_def get_dev_def split: option.splits io_obj.splits)
  with h show ?thesis by (auto simp: holds_def)
qed

lemma holds_put:
  assumes "holds devs s a" "a p \<noteq> None"
  shows "holds devs (put_req p q s) (a(p \<mapsto> q))"
proof -
  have p: "devs p = None" "cells (io_heap s) p \<noteq> None" using holds_disjoint [OF assms] by simp_all
  then have "heap_wf (io_heap (put_req p q s))" using assms(1) by (auto simp: holds_def put_req_def intro: heap_wf_store)
  with p assms(1) show ?thesis by (auto simp: holds_def put_req_def get_req_def get_dev_def)
qed

lemma holds_free:
  assumes "holds devs s a" "a p \<noteq> None"
  shows "\<exists>t. io_free p s = Some t \<and> holds devs t (a(p := None))"
proof -
  have p: "devs p = None" "\<not> static_mem s p" "cells (io_heap s) p \<noteq> None" using holds_disjoint [OF assms] by simp_all
  from io_free_live [OF p(3,2)] show ?thesis
    using assms(1) p(1) by (auto simp: holds_def get_req_def get_dev_def heap_wf_def)
qed

lemma holds_alloc:
  assumes "holds devs s a"
  shows "\<exists>p t. nova_io_request_alloc s = (p, t) \<and>
    (case p of None \<Rightarrow> holds devs t a | Some h \<Rightarrow> a h = None \<and> devs h = None \<and> holds devs t (a(h \<mapsto> new_request)))"
proof (cases rule: calloc_cases [of "Req zero_req" "io_heap s"])
  case failed
  with assms show ?thesis
    by (auto simp: nova_io_request_alloc_def holds_def get_req_def get_dev_def heap_wf_def)
next
  case fresh
  let ?n = "next_addr (io_heap s)"
  have dead: "cells (io_heap s) ?n = None" using assms by (simp add: holds_def heap_wf_fresh)
  then have "get_req ?n s = None" "get_dev ?n s = None" by (simp_all add: get_req_def get_dev_def)
  then have n: "a ?n = None" "devs ?n = None" using assms by (simp_all add: holds_def)
  have "zero_req\<lparr>rq_status := NOVA_IO_PENDING, rq_flags := 0, rq_timeout_ms := 5000\<rparr> = new_request"
    by (simp add: new_request_def zero_req_def)
  then have "nova_io_request_alloc s = (Some ?n, put_req ?n new_request (s\<lparr>io_heap := snd (calloc (Req zero_req) (io_heap s))\<rparr>))"
    using fresh by (simp add: nova_io_request_alloc_def)
  moreover have "holds devs (put_req ?n new_request (s\<lparr>io_heap := snd (calloc (Req zero_req) (io_heap s))\<rparr>)) (a(?n \<mapsto> new_request))"
    using assms fresh n by (auto simp: holds_def put_req_def get_req_def get_dev_def heap_wf_def)
  ultimately show ?thesis using n by simp
qed

lemma holds_submit:
  assumes h: "holds devs s a" and drv: "driver_meets R drv" and q: "a p = Some q"
    and dev: "\<And>d. rq_device q = Some d \<Longrightarrow> devs d \<noteq> None"
  shows "\<exists>c t q'. nova_io_submit drv (Some p) s = Some (c, t) \<and> submits R devs q c q' \<and> holds devs t (a(p \<mapsto> q'))"
proof -
  have req: "get_req p s = Some q" using h q by (simp add: holds_def)
  show ?thesis
  proof (cases "rq_device q = None \<or> rq_buffer q = None")
    case True
    then have "nova_io_submit drv (Some p) s = Some (-1, s)" "submits R devs q (-1) q"
      using req by (auto simp: nova_io_submit_def submits_def split: option.splits)
    moreover have "a(p \<mapsto> q) = a" using q by (simp add: fun_upd_idem)
    ultimately show ?thesis using h by auto
  next
    case False
    then obtain d b where db: "rq_device q = Some d" "rq_buffer q = Some b" by auto
    obtain e where e: "devs d = Some e" "get_dev d s = Some e" using dev [OF db(1)] h by (auto simp: holds_def)
    show ?thesis
    proof (cases "submit_entry e")
      case None
      with req db e holds_put [OF h] q show ?thesis by (auto simp: nova_io_submit_def submits_def)
    next
      case (Some f)
      have "heap_wf (io_heap s)" using h by (simp add: holds_def)
      then obtain c t q' where t: "drv f d p s = Some (c, t)" "R f d q c q'" "heap_wf (io_heap t)" "static_mem t = static_mem s"
        "\<forall>x. get_dev x t = get_dev x s" "\<forall>x. get_req x t = (if x = p then Some q' else get_req x s)"
        using drv req e(2) unfolding driver_meets_def by (metis option.distinct(1))
      then have "holds devs t (a(p \<mapsto> q'))" using h by (simp add: holds_def)
      with t(1,2) req db e Some show ?thesis by (auto simp: nova_io_submit_def submits_def)
    qed
  qed
qed

text \<open>A transfer leaves the client's table as it was: its request is allocated and freed within.\<close>

lemma holds_finish:
  assumes h: "holds devs s a" and drv: "driver_meets R drv" and q: "a p = Some q"
    and dev: "\<And>d. rq_device q = Some d \<Longrightarrow> devs d \<noteq> None"
  shows "\<exists>t c q'. finish_transfer drv p s = Some (transfer_code c q', t) \<and> submits R devs q c q' \<and> holds devs t (a(p := None))"
proof -
  obtain c t q' where t: "nova_io_submit drv (Some p) s = Some (c, t)" "submits R devs q c q'" "holds devs t (a(p \<mapsto> q'))"
    using holds_submit [OF assms] by blast
  then have live: "get_req p t = Some q'" "\<not> static_mem t p" "cells (io_heap t) p \<noteq> None"
    using holds_disjoint [OF t(3), of p] by (simp_all add: holds_def)
  obtain u where u: "io_free p t = Some u" "holds devs u (a(p := None))" using holds_free [OF t(3), of p] by auto
  have "u = t\<lparr>io_heap := (io_heap t)\<lparr>cells := (cells (io_heap t))(p := None)\<rparr>\<rparr>"
    using u(1) io_free_live [OF live(3,2)] by simp
  then have "finish_transfer drv p s = Some (transfer_code c q', u)"
    unfolding finish_transfer_spec [OF t(1) live(1,2)] by (simp add: transfer_code_def)
  with t(2) u(2) show ?thesis by blast
qed

lemma new_request_sector:
  "new_request\<lparr>rq_type := Some ty, rq_device := Some d, rq_offset := sector, rq_buffer := Some b,
     rq_length := ucast (count * 512)\<rparr> = sector_req ty d sector b count"
  by (simp add: new_request_def sector_req_def)

lemma holds_own_request:
  assumes h: "holds devs t (a(p \<mapsto> new_request))" and p: "a p = None" and d: "devs d \<noteq> None" and drv: "driver_meets R drv"
  shows "\<exists>u c q. finish_transfer drv p (put_req p (sector_req ty d sector b count) t) = Some (transfer_code c q, u) \<and>
    submits R devs (sector_req ty d sector b count) c q \<and> holds devs u a"
proof -
  let ?q = "sector_req ty d sector b count"
  have "holds devs (put_req p ?q t) (a(p \<mapsto> ?q))" using holds_put [OF h, of p ?q] by simp
  moreover have "\<And>e. rq_device ?q = Some e \<Longrightarrow> devs e \<noteq> None" using d by (simp add: sector_req_def)
  moreover have "(a(p \<mapsto> ?q))(p := None) = a" using p by (simp add: fun_upd_idem)
  ultimately show ?thesis
    using holds_finish [OF _ drv, of devs "put_req p ?q t" "a(p \<mapsto> ?q)" p ?q] by simp
qed

lemma holds_transfer:
  assumes h: "holds devs s a" and drv: "driver_meets R drv"
  shows "rq_allowed devs (Rq_read dev sector buf count) a \<Longrightarrow>
      \<exists>c t. nova_block_read_sectors drv dev sector buf count s = Some (c, t) \<and>
        transfers R devs NOVA_IO_READ dev sector buf count (Code c) \<and> holds devs t a"
    and "rq_allowed devs (Rq_write dev sector buf count) a \<Longrightarrow>
      \<exists>c t. nova_block_write_sectors drv dev sector buf count s = Some (c, t) \<and>
        transfers R devs NOVA_IO_WRITE dev sector buf count (Code c) \<and> holds devs t a"
proof -
  obtain p t where alloc: "nova_io_request_alloc s = (p, t)"
    "case p of None \<Rightarrow> holds devs t a | Some h \<Rightarrow> a h = None \<and> devs h = None \<and> holds devs t (a(h \<mapsto> new_request))"
    using holds_alloc [OF h] by blast
  show "\<exists>c t. nova_block_read_sectors drv dev sector buf count s = Some (c, t) \<and>
      transfers R devs NOVA_IO_READ dev sector buf count (Code c) \<and> holds devs t a"
    if ok: "rq_allowed devs (Rq_read dev sector buf count) a"
  proof (cases "dev = None \<or> buf = None \<or> count = 0 \<or> p = None")
    case True
    with h alloc show ?thesis by (auto simp: nova_block_read_sectors_def transfers_def split: option.splits)
  next
    case False
    then obtain d b n where db: "dev = Some d" "buf = Some b" "count \<noteq> 0" "p = Some n" by auto
    then obtain e ops where e: "devs d = Some e" "dv_ops e = Some ops" using ok by (auto split: option.splits)
    have n: "a n = None" "holds devs t (a(n \<mapsto> new_request))" using alloc(2) db(4) by simp_all
    then have "get_req n t = Some new_request" "get_dev d t = Some e" using e(1) by (simp_all add: holds_def)
    then have "nova_block_read_sectors drv dev sector buf count s =
        finish_transfer drv n (put_req n (sector_req NOVA_IO_READ d sector b count) t)"
      using db e(2) alloc(1) by (simp add: nova_block_read_sectors_def new_request_sector)
    moreover from e(1) have "devs d \<noteq> None" by simp
    note holds_own_request [OF n(2,1) this drv, of NOVA_IO_READ sector b count]
    ultimately show ?thesis using db unfolding transfers_def by fastforce
  qed
  show "\<exists>c t. nova_block_write_sectors drv dev sector buf count s = Some (c, t) \<and>
      transfers R devs NOVA_IO_WRITE dev sector buf count (Code c) \<and> holds devs t a"
    if ok: "rq_allowed devs (Rq_write dev sector buf count) a"
  proof (cases "dev = None \<or> buf = None \<or> count = 0 \<or> p = None")
    case True
    with h alloc show ?thesis by (auto simp: nova_block_write_sectors_def transfers_def split: option.splits)
  next
    case False
    then obtain d b n where db: "dev = Some d" "buf = Some b" "count \<noteq> 0" "p = Some n" by auto
    then have d: "devs d \<noteq> None" using ok by auto
    have n: "a n = None" "holds devs t (a(n \<mapsto> new_request))" using alloc(2) db(4) by simp_all
    then have "get_req n t = Some new_request" by (simp add: holds_def)
    then have "nova_block_write_sectors drv dev sector buf count s =
        finish_transfer drv n (put_req n (sector_req NOVA_IO_WRITE d sector b count) t)"
      using db alloc(1) by (simp add: nova_block_write_sectors_def new_request_sector)
    moreover note holds_own_request [OF n(2,1) d drv, of NOVA_IO_WRITE sector b count]
    ultimately show ?thesis using db unfolding transfers_def by fastforce
  qed
qed

lemma holds_cancel:
  assumes h: "holds devs s a" and ok: "rq_allowed devs (Rq_cancel p) a"
  shows "\<exists>c t b. nova_io_cancel p s = Some (c, t) \<and> rq_spec R devs (Rq_cancel p) a (Code c) b \<and> holds devs t b"
proof (cases p)
  case None
  with h show ?thesis by (auto simp: nova_io_cancel_def)
next
  case (Some n)
  then obtain q where q: "a n = Some q" "get_req n s = Some q" using ok h by (auto simp: holds_def)
  have "holds devs (put_req n (q\<lparr>rq_status := NOVA_IO_CANCELLED\<rparr>) s) (a(n \<mapsto> q\<lparr>rq_status := NOVA_IO_CANCELLED\<rparr>))"
    using q(1) by (intro holds_put [OF h]) simp
  with Some q h show ?thesis by (auto simp: nova_io_cancel_def)
qed

lemma rq_exec_meets:
  assumes h: "holds devs s a" and drv: "driver_meets R drv" and ok: "rq_allowed devs op a"
  shows "\<exists>r t b. rq_exec drv op s = Some (r, t) \<and> rq_spec R devs op a r b \<and> holds devs t b"
proof (cases op)
  case Rq_alloc
  with holds_alloc [OF h] show ?thesis by (fastforce split: option.splits)
next
  case (Rq_fill p q)
  with holds_put [OF h, of p q] ok show ?thesis by auto
next
  case (Rq_free p)
  with holds_free [OF h] ok h show ?thesis by (cases p) (fastforce simp: nova_io_request_free_def)+
next
  case (Rq_submit p)
  show ?thesis
  proof (cases p)
    case None
    with h Rq_submit show ?thesis by (auto simp: nova_io_submit_def)
  next
    case (Some n)
    then obtain q where q: "a n = Some q" "\<And>d. rq_device q = Some d \<Longrightarrow> devs d \<noteq> None"
      using ok Rq_submit by (auto split: option.splits)
    obtain c t q' where t: "nova_io_submit drv (Some n) s = Some (c, t)" "submits R devs q c q'" "holds devs t (a(n \<mapsto> q'))"
      using holds_submit [OF h drv q] by blast
    then have "rq_exec drv op s = Some (Code c, t)" "rq_spec R devs op a (Code c) (a(n \<mapsto> q'))"
      using Rq_submit Some q(1) by auto
    with t(3) show ?thesis by blast
  qed
next
  case (Rq_wait p ms)
  with h show ?thesis by (simp add: nova_io_wait_def)
next
  case (Rq_cancel p)
  with holds_cancel [OF h, of p R] ok show ?thesis by fastforce
next
  case (Rq_read d sector b n)
  with holds_transfer(1) [OF h drv, of d sector b n] ok show ?thesis by fastforce
next
  case (Rq_write d sector b n)
  with holds_transfer(2) [OF h drv, of d sector b n] ok show ?thesis by fastforce
qed

interpretation io_requests: call_refinement "\<lambda>s a. driver_meets R drv \<and> holds devs s a" "rq_exec drv"
    "rq_allowed devs" "rq_spec R devs" for R drv devs
  by unfold_locales (use rq_exec_meets in blast)

subsection \<open>Properties\<close>

text \<open>
  Claim C12. I/O requests and sector transfers implement their contract: for any sequence of calls by a
  client that uses its own requests and existing devices, any behaviour of the drivers on requests
  and any pattern of allocation failures, every call returns and the results are a run of the
  abstract table of requests.  So a handle stands for its own request until it is freed, no call on
  one request touches another, a device without an entry point marks the request failed, a
  request can be cancelled while it is pending and not otherwise, waiting always returns 0 at once,
  and a transfer reports its driver's code or its request's outcome and leaves no request behind.
  The devices are untouched.
\<close>
theorem io_requests_refine:
  assumes "heap_wf (io_heap s)" "\<forall>x. static_mem s x \<longrightarrow> get_dev x s \<noteq> None" "driver_meets R drv"
    and "keeps_contract (rq_allowed (\<lambda>x. get_dev x s)) (rq_spec R (\<lambda>x. get_dev x s)) ops (\<lambda>x. get_req x s)"
  shows "\<exists>rs t. call_run (rq_exec drv) ops s = Some (rs, t) \<and>
    spec_run (rq_spec R (\<lambda>x. get_dev x s)) ops (\<lambda>x. get_req x s) rs (\<lambda>x. get_req x t) \<and>
    (\<forall>x. get_dev x t = get_dev x s)"
proof -
  let ?devs = "\<lambda>x. get_dev x s"
  have "driver_meets R drv \<and> holds ?devs s (\<lambda>x. get_req x s)" using assms(1-3) by (simp add: holds_def)
  from io_requests.run_sim [OF this assms(4)] obtain rs t b where
    run: "call_run (rq_exec drv) ops s = Some (rs, t)" "spec_run (rq_spec R ?devs) ops (\<lambda>x. get_req x s) rs b" "holds ?devs t b"
    by blast
  then have "b = (\<lambda>x. get_req x t)" "\<forall>x. get_dev x t = get_dev x s" by (simp_all add: holds_def fun_eq_iff)
  with run show ?thesis by blast
qed

subsection \<open>Witnesses\<close>

text \<open>The driver that completes every request at once.\<close>

definition completes :: driver_rel where
  "completes f d q c q' \<longleftrightarrow> c = 0 \<and> q' = q\<lparr>rq_status := NOVA_IO_SUCCESS\<rparr>"

lemma demo_driver_meets: "driver_meets completes demo_driver"
proof -
  have "\<exists>c t q'. demo_driver f d a s = Some (c, t) \<and> completes f d q c q' \<and> heap_wf (io_heap t) \<and> static_mem t = static_mem s \<and>
      (\<forall>x. get_dev x t = get_dev x s) \<and> (\<forall>x. get_req x t = (if x = a then Some q' else get_req x s))"
    if "heap_wf (io_heap s)" "get_req a s = Some q" for f d a s q
  proof -
    have "heap_wf (io_heap (put_req a (q\<lparr>rq_status := NOVA_IO_SUCCESS\<rparr>) s))"
      using that by (auto simp: put_req_def get_req_cells intro: heap_wf_store)
    then show ?thesis
      using that by (auto simp: demo_driver_def completes_def put_req_def get_req_def get_dev_def split: option.splits io_obj.splits)
  qed
  then show ?thesis unfolding driver_meets_def by blast
qed

theorem io_requests_refine_witness:
  "\<exists>rs t. call_run (rq_exec demo_driver) [Rq_alloc, Rq_read (Some 0) 5 (Some 99) 2, Rq_cancel None] demo_io = Some (rs, t) \<and>
    spec_run (rq_spec completes (\<lambda>x. get_dev x demo_io)) [Rq_alloc, Rq_read (Some 0) 5 (Some 99) 2, Rq_cancel None]
      (\<lambda>x. get_req x demo_io) rs (\<lambda>x. get_req x t)"
proof -
  have static: "\<forall>x. static_mem demo_io x \<longrightarrow> get_dev x demo_io \<noteq> None"
    by (simp add: demo_io_def bare_io_def nova_device_register_def lock_registry_def unlock_registry_def
        get_dev_def put_dev_def store_def demo_device_def Let_def)
  obtain e where e: "get_dev 0 demo_io = Some e" "submit_entry e = Some 7" using demo_io_facts(7) by auto
  then have "dv_ops e \<noteq> None" by (auto simp: submit_entry_def split: nova_device_type.splits option.splits)
  with e(1) have "keeps_contract (rq_allowed (\<lambda>x. get_dev x demo_io)) (rq_spec completes (\<lambda>x. get_dev x demo_io))
      [Rq_alloc, Rq_read (Some 0) 5 (Some 99) 2, Rq_cancel None] (\<lambda>x. get_req x demo_io)"
    by simp
  from io_requests_refine [OF demo_io_wf static demo_driver_meets this] show ?thesis by blast
qed

end
