(* ===== verification/Nova_Boot.thy ===== *)
theory Nova_Boot
  imports Nova_Interfaces "HOL-Library.Monad_Syntax"
begin

unbundle bit_operations_syntax

text \<open>
  The Multiboot kernel of \<open>boot/kernel.c\<close>: the serial driver, the system calls and the command line,
  on a 32-bit target (\<open>unsigned long\<close> is 32 bits wide).

  The UART is two streams of what successive reads of its ports return, and a log of what was
  written to which port.  A computation that waits for more input than the streams hold, or that
  leaves the bounds of an array, is \<open>None\<close>.  A \<open>char *\<close> argument is the memory it points to, so a
  string literal is its text followed by the zero character.
\<close>

subsection \<open>Port input and output\<close>

abbreviation (input) COM1 :: nat where "COM1 \<equiv> 0x3F8"
abbreviation (input) SERIAL_DATA :: nat where "SERIAL_DATA \<equiv> 0"
abbreviation (input) SERIAL_INTERRUPT :: nat where "SERIAL_INTERRUPT \<equiv> 1"
abbreviation (input) SERIAL_FIFO :: nat where "SERIAL_FIFO \<equiv> 2"
abbreviation (input) SERIAL_LINE_CONTROL :: nat where "SERIAL_LINE_CONTROL \<equiv> 3"
abbreviation (input) SERIAL_MODEM_CONTROL :: nat where "SERIAL_MODEM_CONTROL \<equiv> 4"

abbreviation (input) LF :: char where "LF \<equiv> CHR 0x0A"
abbreviation (input) CR :: char where "CR \<equiv> CHR 0x0D"
abbreviation (input) BS :: char where "BS \<equiv> CHR 0x08"
abbreviation (input) ESC :: char where "ESC \<equiv> CHR 0x1B"

definition byte :: "char \<Rightarrow> u8" where "byte c = of_char c"
definition chr :: "u8 \<Rightarrow> char" where "chr v = char_of (unat v)"
definition lit :: "string \<Rightarrow> string" where "lit text = text @ [NUL]"

record nova_task =
  task_pid :: nat
  task_name :: string
  task_state :: string

definition tasks :: "nova_task list" where
  "tasks =
    [\<lparr>task_pid = 0, task_name = ''kernel'', task_state = ''running''\<rparr>,
     \<lparr>task_pid = 1, task_name = ''init'', task_state = ''ready''\<rparr>,
     \<lparr>task_pid = 2, task_name = ''novakitd'', task_state = ''ready''\<rparr>,
     \<lparr>task_pid = 3, task_name = ''shell'', task_state = ''running''\<rparr>]"

record nova_utsname =
  uts_sysname :: string
  uts_nodename :: string
  uts_release :: string
  uts_version :: string
  uts_machine :: string

record boot_state =
  command :: "char list"
  command_length :: nat
  ticks :: u32
  lsr_reads :: "u8 list"
  data_reads :: "u8 list"
  port_log :: "(nat \<times> u8) list"

definition outb :: "nat \<Rightarrow> u8 \<Rightarrow> boot_state \<Rightarrow> boot_state" where
  "outb port value s = s\<lparr>port_log := port_log s @ [(port, value)]\<rparr>"

text \<open>\<open>inb\<close> on the line-status port and on the data port.\<close>

definition inb_lsr :: "boot_state \<Rightarrow> (u8 \<times> boot_state) option" where
  "inb_lsr s = (case lsr_reads s of [] \<Rightarrow> None | x # xs \<Rightarrow> Some (x, s\<lparr>lsr_reads := xs\<rparr>))"

definition inb_data :: "boot_state \<Rightarrow> (u8 \<times> boot_state) option" where
  "inb_data s = (case data_reads s of [] \<Rightarrow> None | x # xs \<Rightarrow> Some (x, s\<lparr>data_reads := xs\<rparr>))"

definition serial_init :: "boot_state \<Rightarrow> boot_state" where
  "serial_init s =
     (let s = outb (COM1 + SERIAL_INTERRUPT) 0x00 s;
          s = outb (COM1 + SERIAL_LINE_CONTROL) 0x80 s;
          s = outb (COM1 + SERIAL_DATA) 0x03 s;
          s = outb (COM1 + SERIAL_INTERRUPT) 0x00 s;
          s = outb (COM1 + SERIAL_LINE_CONTROL) 0x03 s;
          s = outb (COM1 + SERIAL_FIFO) 0xC7 s
      in outb (COM1 + SERIAL_MODEM_CONTROL) 0x0B s)"

text \<open>The busy wait for the transmitter.\<close>

function wait_transmit :: "boot_state \<Rightarrow> boot_state option" where
  "wait_transmit s =
     (case inb_lsr s of None \<Rightarrow> None
      | Some (x, s1) \<Rightarrow> if x AND 0x20 = 0 then wait_transmit s1 else Some s1)"
  by pat_completeness auto
termination
  by (relation "measure (\<lambda>s. length (lsr_reads s))") (auto simp: inb_lsr_def split: list.splits)

function serial_putc :: "char \<Rightarrow> boot_state \<Rightarrow> boot_state option" where
  "serial_putc value s =
     (case wait_transmit s of None \<Rightarrow> None
      | Some s1 \<Rightarrow>
          (let s2 = outb (COM1 + SERIAL_DATA) (byte value) s1
           in if value = LF then serial_putc CR s2 else Some s2))"
  by pat_completeness auto
termination
  by (relation "measure (\<lambda>(value, s). if value = LF then 1 else 0)") auto

declare wait_transmit.simps [simp del] serial_putc.simps [simp del]

subsection \<open>Strings and numbers\<close>

function strlen_loop :: "char list \<Rightarrow> nat \<Rightarrow> nat option" where
  "strlen_loop text len =
     (if length text \<le> len then None
      else if text ! len \<noteq> NUL then strlen_loop text (len + 1) else Some len)"
  by pat_completeness auto
termination
  by (relation "measure (\<lambda>(text, len). length text - len)") auto

definition nova_strlen :: "char list \<Rightarrow> nat option" where
  "nova_strlen text = strlen_loop text 0"

text \<open>The digits of \<open>value\<close>, least significant first, appended to those already stored.\<close>

function digits_loop :: "u32 \<Rightarrow> char list \<Rightarrow> char list" where
  "digits_loop value digits =
     (if value \<noteq> 0 \<and> length digits < 20
      then digits_loop (value div 10) (digits @ [char_of (48 + unat (value mod 10))])
      else digits)"
  by pat_completeness auto
termination
  by (relation "measure (\<lambda>(value, digits). 20 - length digits)") auto

fun putc_all :: "char list \<Rightarrow> boot_state \<Rightarrow> boot_state option" where
  "putc_all [] s = Some s"
| "putc_all (c # cs) s = do { s1 \<leftarrow> serial_putc c s; putc_all cs s1 }"

definition write_unsigned :: "u32 \<Rightarrow> boot_state \<Rightarrow> boot_state option" where
  "write_unsigned value s =
     (if value = 0 then serial_putc (CHR ''0'') s else putc_all (rev (digits_loop value [])) s)"

function starts_with_loop :: "char list \<Rightarrow> char list \<Rightarrow> nat \<Rightarrow> bool option" where
  "starts_with_loop text prefix i =
     (if length prefix \<le> i then None
      else if prefix ! i = NUL then Some True
      else if length text \<le> i then None
      else if text ! i \<noteq> prefix ! i then Some False
      else starts_with_loop text prefix (i + 1))"
  by pat_completeness auto
termination
  by (relation "measure (\<lambda>(text, prefix, i). length prefix - i)") auto

definition starts_with :: "char list \<Rightarrow> char list \<Rightarrow> bool option" where
  "starts_with text prefix = starts_with_loop text prefix 0"

function command_is_loop :: "char list \<Rightarrow> char list \<Rightarrow> nat \<Rightarrow> bool option" where
  "command_is_loop cmd expected i =
     (if length expected \<le> i \<or> length cmd \<le> i then None
      else if expected ! i \<noteq> NUL \<and> cmd ! i = expected ! i then command_is_loop cmd expected (i + 1)
      else Some (expected ! i = NUL \<and> cmd ! i = NUL))"
  by pat_completeness auto
termination
  by (relation "measure (\<lambda>(cmd, expected, i). length expected - i)") auto

definition command_is :: "string \<Rightarrow> boot_state \<Rightarrow> bool option" where
  "command_is expected s = command_is_loop (command s) (lit expected) 0"

declare strlen_loop.simps [simp del] digits_loop.simps [simp del] starts_with_loop.simps [simp del]
  command_is_loop.simps [simp del]

subsection \<open>System calls\<close>

text \<open>The calls of \<open>enum nova_syscall\<close> with the arguments they use.\<close>

datatype nova_syscall =
  NOVA_SYS_write "char list" nat | NOVA_SYS_read_console | NOVA_SYS_uname | NOVA_SYS_getpid | NOVA_SYS_uptime

function write_loop :: "char list \<Rightarrow> nat \<Rightarrow> nat \<Rightarrow> boot_state \<Rightarrow> boot_state option" where
  "write_loop buffer len i s =
     (if i < len then
        if length buffer \<le> i then None
        else (case serial_putc (buffer ! i) s of None \<Rightarrow> None | Some s1 \<Rightarrow> write_loop buffer len (i + 1) s1)
      else Some s)"
  by pat_completeness auto
termination
  by (relation "measure (\<lambda>(buffer, len, i, s). len - i)") auto

declare write_loop.simps [simp del]

definition nova_uts :: nova_utsname where
  "nova_uts = \<lparr>uts_sysname = ''NovaOS'', uts_nodename = ''qemu0'', uts_release = ''3.1.0-prototype'',
     uts_version = ''Rapid Kernel Phase 3.1'', uts_machine = ''i386-qemu''\<rparr>"

text \<open>The result, the structure that \<open>uname\<close> fills in, and the state.\<close>

definition nova_syscall_dispatch ::
  "nova_syscall \<Rightarrow> boot_state \<Rightarrow> (int \<times> nova_utsname option \<times> boot_state) option" where
  "nova_syscall_dispatch number s =
     (case number of
        NOVA_SYS_write buffer len \<Rightarrow> do {
          s1 \<leftarrow> write_loop buffer len 0 s;
          Some (sint (of_nat len :: u32), None, s1) }
      | NOVA_SYS_uname \<Rightarrow> Some (0, Some nova_uts, s)
      | NOVA_SYS_getpid \<Rightarrow> Some (3, None, s)
      | NOVA_SYS_uptime \<Rightarrow> Some (sint (ticks s), None, s)
      | NOVA_SYS_read_console \<Rightarrow> Some (-1, None, s))"

definition sys_write :: "char list \<Rightarrow> boot_state \<Rightarrow> boot_state option" where
  "sys_write text s = do {
     n \<leftarrow> nova_strlen text;
     (r, u, s1) \<leftarrow> nova_syscall_dispatch (NOVA_SYS_write text n) s;
     Some s1 }"

text \<open>Writing a string literal, and several of them.\<close>

definition say :: "string \<Rightarrow> boot_state \<Rightarrow> boot_state option" where
  "say text s = sys_write (lit text) s"

fun say_all :: "string list \<Rightarrow> boot_state \<Rightarrow> boot_state option" where
  "say_all [] s = Some s"
| "say_all (t # ts) s = do { s1 \<leftarrow> say t s; say_all ts s1 }"

subsection \<open>The command line\<close>

definition serial_prompt :: "boot_state \<Rightarrow> boot_state option" where
  "serial_prompt s = say ''nova> '' s"

definition print_uname :: "boot_state \<Rightarrow> boot_state option" where
  "print_uname s = do {
     (r, u, s1) \<leftarrow> nova_syscall_dispatch NOVA_SYS_uname s;
     uts \<leftarrow> u;
     say_all [uts_sysname uts, '' '', uts_nodename uts, '' '', uts_release uts, '' '', uts_version uts, '' '',
       uts_machine uts, [LF]] s1 }"

fun ps_loop :: "nova_task list \<Rightarrow> boot_state \<Rightarrow> boot_state option" where
  "ps_loop [] s = Some s"
| "ps_loop (t # ts) s = do {
     s1 \<leftarrow> write_unsigned (of_nat (task_pid t)) s;
     s2 \<leftarrow> say_all [''   '', task_state t, '' '', task_name t, [LF]] s1;
     ps_loop ts s2 }"

definition print_ps :: "boot_state \<Rightarrow> boot_state option" where
  "print_ps s = do { s1 \<leftarrow> say (''PID STATE   COMMAND'' @ [LF]) s; ps_loop tasks s1 }"

text \<open>The chain of comparisons in \<open>run_command\<close>.\<close>

definition execute :: "boot_state \<Rightarrow> boot_state option" where
  "execute s = do {
     b \<leftarrow> command_is ''help'' s;
     if b then say (''commands: help, info, uname, ps, echo, syscalls, devices, posix, clear, uptime'' @ [LF]) s
     else do {
     b \<leftarrow> command_is ''info'' s;
     if b then say_all
       [''NovaOS Phase 3.1 Rapid Kernel prototype'' @ [LF],
        ''hybrid layers: microkernel core, BSD/POSIX personality, NovaKit drivers'' @ [LF],
        ''boot: Multiboot kernel with serial command line in QEMU'' @ [LF]] s
     else do {
     b \<leftarrow> command_is ''uname'' s;
     if b then print_uname s
     else do {
     b \<leftarrow> command_is ''ps'' s;
     if b then print_ps s
     else do {
     b \<leftarrow> starts_with (command s) (lit ''echo '');
     if b then do { s1 \<leftarrow> sys_write (drop 5 (command s)) s; say [LF] s1 }
     else do {
     b \<leftarrow> command_is ''syscalls'' s;
     if b then say (''implemented syscall ABI: write, uname, getpid, uptime; planned: open/read/close/fork/exec/wait'' @ [LF]) s
     else do {
     b \<leftarrow> command_is ''devices'' s;
     if b then say (''novakit registry: console0(com1), cpu0(qemu), bus0(multiboot), blk0(virtio planned)'' @ [LF]) s
     else do {
     b \<leftarrow> command_is ''posix'' s;
     if b then say (''POSIX status: command names and uname/getpid/write semantics are present; full POSIX requires BSD VFS/process integration.'' @ [LF]) s
     else do {
     b \<leftarrow> command_is ''clear'' s;
     if b then say ([ESC] @ ''[2J'' @ [ESC] @ ''[H'') s
     else do {
     b \<leftarrow> command_is ''uptime'' s;
     if b then do {
       s1 \<leftarrow> say ''uptime ticks: '' s;
       (r, u, s2) \<leftarrow> nova_syscall_dispatch NOVA_SYS_uptime s1;
       s3 \<leftarrow> write_unsigned (word_of_int r) s2;
       say [LF] s3 }
     else if command_length s \<noteq> 0 then say (''unknown command; use help'' @ [LF]) s
     else Some s }}}}}}}}}}"

definition run_command :: "boot_state \<Rightarrow> boot_state option" where
  "run_command s =
     (if length (command s) \<le> command_length s then None
      else do {
        s1 \<leftarrow> serial_putc LF (s\<lparr>command := (command s)[command_length s := NUL]\<rparr>);
        s2 \<leftarrow> execute s1;
        serial_prompt (s2\<lparr>command_length := 0\<rparr>) })"

definition serial_backspace :: "boot_state \<Rightarrow> boot_state option" where
  "serial_backspace s =
     (if command_length s = 0 then Some s
      else say ([BS] @ '' '' @ [BS]) (s\<lparr>command_length := command_length s - 1\<rparr>))"

definition serial_poll :: "boot_state \<Rightarrow> boot_state option" where
  "serial_poll s = do {
     (status, s1) \<leftarrow> inb_lsr s;
     if status AND 0x01 = 0 then Some s1
     else do {
       (value, s2) \<leftarrow> inb_data s1;
       if value = byte CR \<or> value = byte LF then run_command s2
       else if value = byte BS \<or> value = 0x7F then serial_backspace s2
       else if 0x20 \<le> value \<and> value \<le> 0x7E \<and> command_length s2 < length (command s2) - 1 then
         serial_putc (chr value)
           (s2\<lparr>command := (command s2)[command_length s2 := chr value],
               command_length := command_length s2 + 1\<rparr>)
       else Some s2 } }"

text \<open>\<open>kmain\<close> up to its loop, and one round of the loop, which never ends.\<close>

definition kmain_start :: "boot_state \<Rightarrow> boot_state option" where
  "kmain_start s = do {
     s1 \<leftarrow> say ([LF] @ ''NovaOS Phase 3.1 Rapid Kernel booted.'' @ [LF]) (serial_init s);
     s2 \<leftarrow> say (''QEMU command line online; type help for POSIX and NovaKit commands.'' @ [LF]) s1;
     serial_prompt s2 }"

definition kmain_round :: "boot_state \<Rightarrow> boot_state option" where
  "kmain_round s = serial_poll (s\<lparr>ticks := ticks s + 1\<rparr>)"

subsection \<open>What the serial port transmits\<close>

text \<open>The characters that go out for a text: every line feed is followed by a carriage return.\<close>

definition crlf :: "string \<Rightarrow> string" where
  "crlf text = concat (map (\<lambda>c. if c = LF then [LF, CR] else [c]) text)"

text \<open>What is left of the status reads after \<open>n\<close> that said the transmitter is free.\<close>

fun skip_ready :: "nat \<Rightarrow> u8 list \<Rightarrow> u8 list option" where
  "skip_ready 0 xs = Some xs"
| "skip_ready (Suc n) [] = None"
| "skip_ready (Suc n) (x # xs) = (if x AND 0x20 = 0 then skip_ready (Suc n) xs else skip_ready n xs)"

text \<open>Sending the bytes of \<open>cs\<close>, which takes one ready status each and changes nothing else.\<close>

definition send :: "string \<Rightarrow> boot_state \<Rightarrow> boot_state option" where
  "send cs s = map_option (\<lambda>l. s\<lparr>lsr_reads := l, port_log := port_log s @ map (\<lambda>c. (COM1 + SERIAL_DATA, byte c)) cs\<rparr>)
     (skip_ready (length cs) (lsr_reads s))"

lemma skip_ready_add: "skip_ready (m + n) xs = (case skip_ready m xs of None \<Rightarrow> None | Some ys \<Rightarrow> skip_ready n ys)"
  by (induction m xs rule: skip_ready.induct) auto

lemma send_Nil [simp]: "send [] s = Some s"
  by (simp add: send_def)

lemma send_append: "send (as @ bs) s = send as s \<bind> send bs"
  by (cases "skip_ready (length as) (lsr_reads s)") (auto simp: send_def skip_ready_add option.map_comp comp_def
      intro!: option.map_cong)

lemma send_append_fun: "send (as @ bs) = (\<lambda>s. send as s \<bind> send bs)"
  by (rule ext) (rule send_append)

lemma wait_transmit_skip: "wait_transmit s = map_option (\<lambda>l. s\<lparr>lsr_reads := l\<rparr>) (skip_ready 1 (lsr_reads s))"
proof (induction s rule: wait_transmit.induct)
  case (1 s)
  show ?case
  proof (cases "lsr_reads s")
    case (Cons x xs)
    then show ?thesis
      using 1 [of "(x, s\<lparr>lsr_reads := xs\<rparr>)"] by (subst wait_transmit.simps) (simp add: inb_lsr_def)
  qed (subst wait_transmit.simps, simp add: inb_lsr_def)
qed

lemma putc_plain: "c \<noteq> LF \<Longrightarrow> serial_putc c s = send [c] s"
  by (subst serial_putc.simps) (auto simp: wait_transmit_skip send_def outb_def split: option.split)

lemma putc_send: "serial_putc c s = send (crlf [c]) s"
proof (cases "c = LF")
  case True
  have "serial_putc LF s = send [LF] s \<bind> serial_putc CR"
    by (subst serial_putc.simps) (auto simp: wait_transmit_skip send_def outb_def split: option.split)
  also have "serial_putc CR = send [CR]" by (rule ext) (simp add: putc_plain)
  also have "send [LF] s \<bind> send [CR] = send ([LF] @ [CR]) s" by (simp only: send_append)
  finally show ?thesis using True by (simp add: crlf_def)
qed (simp add: putc_plain crlf_def)

lemma crlf_append: "crlf (as @ bs) = crlf as @ crlf bs" and crlf_Nil [simp]: "crlf [] = []"
  by (simp_all add: crlf_def)

lemma putc_all_send: "putc_all cs s = send (crlf cs) s"
proof (induction cs arbitrary: s)
  case (Cons c cs)
  have "send (crlf (c # cs)) s = send (crlf [c]) s \<bind> send (crlf cs)"
    unfolding send_append [symmetric] crlf_append [symmetric] by simp
  moreover have "putc_all cs = send (crlf cs)" by (rule ext) (rule Cons)
  ultimately show ?case by (simp add: putc_send)
qed simp

lemma write_loop_send:
  "len \<le> length buffer \<Longrightarrow> i \<le> len \<Longrightarrow> write_loop buffer len i s = send (crlf (take (len - i) (drop i buffer))) s"
proof (induction "len - i" arbitrary: i s)
  case 0
  then show ?case by (simp add: write_loop.simps)
next
  case (Suc n)
  then have i: "i < len" "i < length buffer" by auto
  then have "take (len - i) (drop i buffer) = [buffer ! i] @ take (len - (i + 1)) (drop (i + 1) buffer)"
    by (simp add: Cons_nth_drop_Suc [symmetric] Suc_diff_Suc [symmetric])
  moreover have "write_loop buffer len i s = serial_putc (buffer ! i) s \<bind> write_loop buffer len (i + 1)"
    using i by (subst write_loop.simps) (simp split: option.split)
  moreover have "write_loop buffer len (i + 1) = send (crlf (take (len - (i + 1)) (drop (i + 1) buffer)))"
    using Suc by (intro ext Suc.hyps(1)) auto
  ultimately show ?case by (simp only: putc_send crlf_append send_append)
qed

subsection \<open>Strings\<close>

lemma strlen_loop_cstr:
  "NUL \<in> set buf \<Longrightarrow> i \<le> length (cstr buf) \<Longrightarrow> strlen_loop buf i = Some (length (cstr buf))"
proof (induction "length (cstr buf) - i" arbitrary: i)
  case 0
  have "length (cstr buf) < length buf"
    using 0(2) takeWhile_eq_all_conv [of "\<lambda>c. c \<noteq> NUL" buf] length_takeWhile_le [of "\<lambda>c. c \<noteq> NUL" buf]
      takeWhile_eq_take [of "\<lambda>c. c \<noteq> NUL" buf]
    by (fastforce simp: cstr_def order_less_le)
  moreover from this have "buf ! length (cstr buf) = NUL"
    using nth_length_takeWhile [of "\<lambda>c. c \<noteq> NUL" buf] by (simp add: cstr_def)
  ultimately show ?case using 0 by (subst strlen_loop.simps) simp
next
  case (Suc n)
  then have "i < length (cstr buf)" by simp
  then have "buf ! i \<noteq> NUL" "i < length buf"
    using nth_mem [of i "cstr buf"] length_takeWhile_le [of "\<lambda>c. c \<noteq> NUL" buf]
    by (auto simp: cstr_def takeWhile_nth dest: set_takeWhileD)
  with Suc show ?case by (subst strlen_loop.simps) simp
qed

lemma cstr_lit [simp]: "NUL \<notin> set buf \<Longrightarrow> cstr (lit buf) = buf"
proof -
  assume "NUL \<notin> set buf"
  then have "takeWhile (\<lambda>c. c \<noteq> NUL) (buf @ [NUL]) = buf" by (subst takeWhile_append2) auto
  then show ?thesis by (simp add: cstr_def lit_def)
qed

lemma take_cstr: "take (length (cstr buf)) buf = cstr buf"
  by (metis cstr_def takeWhile_eq_take)

lemma sys_write_send: "NUL \<in> set buf \<Longrightarrow> sys_write buf s = send (crlf (cstr buf)) s"
proof -
  assume "NUL \<in> set buf"
  then have "nova_strlen buf = Some (length (cstr buf))" by (simp add: nova_strlen_def strlen_loop_cstr)
  moreover have "length (cstr buf) \<le> length buf" by (simp add: cstr_def length_takeWhile_le)
  ultimately show ?thesis
    by (cases "send (crlf (cstr buf)) s") (simp_all add: sys_write_def nova_syscall_dispatch_def write_loop_send take_cstr)
qed

lemma say_send: "NUL \<notin> set buf \<Longrightarrow> say buf = send (crlf buf)"
proof
  fix s assume "NUL \<notin> set buf"
  moreover have "NUL \<in> set (lit buf)" by (simp add: lit_def)
  ultimately show "say buf s = send (crlf buf) s" by (simp add: say_def sys_write_send)
qed

lemma say_all_send: "NUL \<notin> \<Union> (set ` set ts) \<Longrightarrow> say_all ts = send (crlf (concat ts))"
proof (induction ts)
  case (Cons t ts)
  then have "say t = send (crlf t)" "say_all ts = send (crlf (concat ts))" by (simp_all add: say_send)
  then show ?case by (intro ext) (simp add: crlf_append send_append)
qed (simp add: fun_eq_iff)

lemma command_is_loop_eq:
  "NUL \<in> set cmd \<Longrightarrow> NUL \<notin> set e \<Longrightarrow> length p = length q \<Longrightarrow>
     command_is_loop (p @ cmd) (q @ lit e) (length p) = Some (cstr cmd = e)"
proof (induction e arbitrary: p q cmd)
  case Nil
  then show ?case
    by (subst command_is_loop.simps) (cases cmd; simp add: lit_def cstr_def nth_append)
next
  case (Cons x e)
  obtain c cs where cmd: "cmd = c # cs" using Cons.prems(1) by (cases cmd) auto
  show ?case
  proof (cases "c = x")
    case True
    with Cons.prems cmd have "NUL \<in> set cs" by auto
    with Cons.IH [of cs "p @ [c]" "q @ [x]"] Cons.prems
    have "command_is_loop (p @ cmd) (q @ lit (x # e)) (Suc (length p)) = Some (cstr cs = e)"
      by (simp add: cmd lit_def)
    moreover have "command_is_loop (p @ cmd) (q @ lit (x # e)) (length p) =
        command_is_loop (p @ cmd) (q @ lit (x # e)) (Suc (length p))"
      using Cons.prems True cmd by (subst command_is_loop.simps) (auto simp: lit_def nth_append)
    ultimately show ?thesis using Cons.prems True cmd by (auto simp: cstr_def)
  next
    case False
    with Cons.prems cmd show ?thesis
      by (subst command_is_loop.simps) (auto simp: lit_def nth_append cstr_def)
  qed
qed

lemma command_is_eq:
  "NUL \<in> set (command s) \<Longrightarrow> NUL \<notin> set e \<Longrightarrow> command_is e s = Some (cstr (command s) = e)"
  using command_is_loop_eq [of "command s" e "[]" "[]"] by (simp add: command_is_def)

lemma starts_with_loop_eq:
  "NUL \<in> set buf \<Longrightarrow> NUL \<notin> set e \<Longrightarrow> length p = length q \<Longrightarrow>
     starts_with_loop (p @ buf) (q @ lit e) (length p) = Some (take (length e) (cstr buf) = e)"
proof (induction e arbitrary: p q buf)
  case Nil
  then show ?case by (subst starts_with_loop.simps) (simp add: lit_def nth_append)
next
  case (Cons x e)
  obtain c cs where buf: "buf = c # cs" using Cons.prems(1) by (cases buf) auto
  show ?case
  proof (cases "c = x")
    case True
    with Cons.prems buf have "NUL \<in> set cs" by auto
    with Cons.IH [of cs "p @ [c]" "q @ [x]"] Cons.prems
    have "starts_with_loop (p @ buf) (q @ lit (x # e)) (Suc (length p)) = Some (take (length e) (cstr cs) = e)"
      by (simp add: buf lit_def)
    moreover have "starts_with_loop (p @ buf) (q @ lit (x # e)) (length p) =
        starts_with_loop (p @ buf) (q @ lit (x # e)) (Suc (length p))"
      using Cons.prems True buf by (subst starts_with_loop.simps) (auto simp: lit_def nth_append)
    ultimately show ?thesis using Cons.prems True buf by (auto simp: cstr_def)
  next
    case False
    with Cons.prems buf show ?thesis
      by (subst starts_with_loop.simps) (auto simp: lit_def nth_append cstr_def)
  qed
qed

lemma starts_with_eq:
  "NUL \<in> set buf \<Longrightarrow> NUL \<notin> set e \<Longrightarrow> starts_with buf (lit e) = Some (take (length e) (cstr buf) = e)"
  using starts_with_loop_eq [of buf e "[]" "[]"] by (simp add: starts_with_def)

subsection \<open>Decimal numbers\<close>

text \<open>The decimal numeral of a number, and the value of a numeral.\<close>

fun dec :: "nat \<Rightarrow> string" where
  "dec n = (if n < 10 then [char_of (48 + n)] else dec (n div 10) @ [char_of (48 + n mod 10)])"

declare dec.simps [simp del]

definition dec_value :: "string \<Rightarrow> nat" where
  "dec_value cs = foldl (\<lambda>v c. 10 * v + (of_char c - 48)) 0 cs"

lemma digit_char: "d < 10 \<Longrightarrow> (of_char (char_of (48 + d)) :: nat) = 48 + d"
  by (simp add: of_char_of take_bit_nat_eq_self)

lemma dec_value_dec: "dec_value (dec n) = n"
proof (induction n rule: dec.induct)
  case (1 n)
  show ?case
  proof (cases "n < 10")
    case True
    then show ?thesis by (subst dec.simps) (simp add: dec_value_def digit_char)
  next
    case False
    with 1 have "dec_value (dec (n div 10)) = n div 10" by simp
    with False show ?thesis by (subst dec.simps) (simp add: dec_value_def digit_char)
  qed
qed

lemma dec_no_ctrl: "c \<in> set (dec n) \<Longrightarrow> (of_char c :: nat) \<ge> 48"
proof (induction n rule: dec.induct)
  case (1 n)
  then show ?case by (subst (asm) dec.simps) (auto simp: digit_char split: if_splits)
qed

lemma digits_loop_dec:
  "unat v < 10 ^ k \<Longrightarrow> length ds + k \<le> 20 \<Longrightarrow>
     rev (digits_loop v ds) = (if v = 0 then [] else dec (unat v)) @ rev ds"
proof (induction k arbitrary: v ds)
  case 0
  then have "v = 0" by (simp add: unat_eq_zero)
  then show ?case by (simp add: digits_loop.simps)
next
  case (Suc k)
  show ?case
  proof (cases "v = 0")
    case True
    then show ?thesis by (simp add: digits_loop.simps)
  next
    case False
    let ?ds = "ds @ [char_of (48 + unat (v mod 10))]"
    have q: "unat (v div 10) = unat v div 10" "unat (v mod 10) = unat v mod 10"
      by (simp_all add: unat_div unat_mod)
    have "rev (digits_loop (v div 10) ?ds) = (if v div 10 = 0 then [] else dec (unat (v div 10))) @ rev ?ds"
      using Suc.prems q by (intro Suc.IH) auto
    moreover have "digits_loop v ds = digits_loop (v div 10) ?ds"
      using False Suc.prems(2) by (subst digits_loop.simps) simp
    moreover have "v div 10 = 0 \<longleftrightarrow> unat v < 10" using q(1) by (simp add: unat_eq_0 [symmetric] div_eq_0_iff)
    ultimately show ?thesis using False q dec.simps [of "unat v"] by auto
  qed
qed

lemma dec_not_LF: "LF \<notin> set (dec n)"
  using dec_no_ctrl [of LF n] by auto

lemma crlf_dec: "crlf (dec n) = dec n"
proof -
  have "LF \<notin> set cs \<Longrightarrow> crlf cs = cs" for cs by (induction cs) (auto simp: crlf_def)
  then show ?thesis using dec_not_LF by blast
qed

lemma write_unsigned_send: "write_unsigned v s = send (dec (unat v)) s"
proof (cases "v = 0")
  case True
  have "dec 0 = ''0''" by code_simp
  with True show ?thesis by (simp add: write_unsigned_def putc_send crlf_def)
next
  case False
  have "unat v < 2 ^ 32" using unsigned_less [of v, where ?'a = nat] by simp
  then have "unat v < 10 ^ 20" by (rule order_less_trans) simp
  from digits_loop_dec [OF this, of "[]"] False show ?thesis
    by (simp add: write_unsigned_def putc_all_send crlf_dec)
qed

subsection \<open>What a command prints\<close>

definition ps_text :: string where
  "ps_text = ''PID STATE   COMMAND'' @ [LF] @
     concat (map (\<lambda>t. dec (task_pid t) @ ''   '' @ task_state t @ '' '' @ task_name t @ [LF]) tasks)"

definition uname_text :: string where
  "uname_text = ''NovaOS qemu0 3.1.0-prototype Rapid Kernel Phase 3.1 i386-qemu'' @ [LF]"

definition response :: "string \<Rightarrow> u32 \<Rightarrow> string" where
  "response line t =
     (if line = ''help'' then ''commands: help, info, uname, ps, echo, syscalls, devices, posix, clear, uptime'' @ [LF]
      else if line = ''info'' then
        ''NovaOS Phase 3.1 Rapid Kernel prototype'' @ [LF] @
        ''hybrid layers: microkernel core, BSD/POSIX personality, NovaKit drivers'' @ [LF] @
        ''boot: Multiboot kernel with serial command line in QEMU'' @ [LF]
      else if line = ''uname'' then uname_text
      else if line = ''ps'' then ps_text
      else if take 5 line = ''echo '' then drop 5 line @ [LF]
      else if line = ''syscalls'' then
        ''implemented syscall ABI: write, uname, getpid, uptime; planned: open/read/close/fork/exec/wait'' @ [LF]
      else if line = ''devices'' then
        ''novakit registry: console0(com1), cpu0(qemu), bus0(multiboot), blk0(virtio planned)'' @ [LF]
      else if line = ''posix'' then
        ''POSIX status: command names and uname/getpid/write semantics are present; full POSIX requires BSD VFS/process integration.'' @ [LF]
      else if line = ''clear'' then [ESC] @ ''[2J'' @ [ESC] @ ''[H''
      else if line = ''uptime'' then ''uptime ticks: '' @ dec (unat t) @ [LF]
      else if line \<noteq> [] then ''unknown command; use help'' @ [LF]
      else [])"

lemma send_keeps:
  "send cs s = Some t \<Longrightarrow> command t = command s \<and> command_length t = command_length s \<and> ticks t = ticks s \<and>
     data_reads t = data_reads s"
  by (auto simp: send_def)

lemma send_upd:
  "send cs (s\<lparr>command := c, command_length := n\<rparr>) =
     map_option (\<lambda>t. t\<lparr>command := c, command_length := n\<rparr>) (send cs s)"
  by (cases "skip_ready (length cs) (lsr_reads s)") (simp_all add: send_def)

lemma print_uname_send: "print_uname s = send (crlf uname_text) s"
  by (simp add: print_uname_def nova_syscall_dispatch_def nova_uts_def say_all_send uname_text_def del: say_all.simps)

lemma task_words: "t \<in> set tasks \<Longrightarrow> NUL \<notin> set (task_state t) \<and> NUL \<notin> set (task_name t) \<and> task_pid t < 2 ^ 32"
  by (auto simp: tasks_def)

lemma ps_loop_send:
  "set ts \<subseteq> set tasks \<Longrightarrow>
     ps_loop ts = send (crlf (concat (map (\<lambda>t. dec (task_pid t) @ ''   '' @ task_state t @ '' '' @ task_name t @ [LF]) ts)))"
proof (induction ts)
  case (Cons t ts)
  let ?text = "\<lambda>t. dec (task_pid t) @ ''   '' @ task_state t @ '' '' @ task_name t @ [LF]"
  have t: "NUL \<notin> set (task_state t)" "NUL \<notin> set (task_name t)" "task_pid t < 2 ^ 32"
    using Cons.prems task_words [of t] by simp_all
  have "write_unsigned (of_nat (task_pid t)) s = send (crlf (dec (task_pid t))) s" for s
    using t(3) by (simp add: write_unsigned_send crlf_dec unat_of_nat take_bit_nat_eq_self)
  moreover have "say_all [''   '', task_state t, '' '', task_name t, [LF]] =
      send (crlf (''   '' @ task_state t @ '' '' @ task_name t @ [LF]))"
    using t(1,2) by (subst say_all_send) simp_all
  moreover have "ps_loop ts = send (crlf (concat (map ?text ts)))" using Cons by simp
  ultimately have "ps_loop (t # ts) s = send (crlf (dec (task_pid t))) s \<bind>
      (\<lambda>u. send (crlf (''   '' @ task_state t @ '' '' @ task_name t @ [LF])) u \<bind> send (crlf (concat (map ?text ts))))" for s
    by simp
  also have "\<dots> s = send (crlf (?text t @ concat (map ?text ts))) s" for s
    by (simp only: crlf_append send_append_fun bind_assoc append_assoc)
  finally show ?case by (intro ext) simp
qed (simp add: fun_eq_iff)

lemma print_ps_send: "print_ps s = send (crlf ps_text) s"
proof -
  have "say (''PID STATE   COMMAND'' @ [LF]) = send (crlf (''PID STATE   COMMAND'' @ [LF]))"
    by (rule say_send) simp
  then show ?thesis
    using ps_loop_send [of tasks] by (simp only: print_ps_def ps_text_def crlf_append append_assoc send_append_fun
        bind_assoc order_refl)
qed

lemma echo_send:
  assumes "NUL \<in> set (command s)" "5 \<le> length (cstr (command s))"
  shows "sys_write (drop 5 (command s)) s \<bind> say [LF] = send (crlf (drop 5 (cstr (command s)) @ [LF])) s"
proof -
  have cmd: "command s = cstr (command s) @ dropWhile (\<lambda>c. c \<noteq> NUL) (command s)"
    by (simp add: cstr_def)
  have nul: "NUL \<notin> set (cstr (command s))" by (auto simp: cstr_def dest: set_takeWhileD)
  let ?t = "drop 5 (cstr (command s))" and ?r = "dropWhile (\<lambda>c. c \<noteq> NUL) (command s)"
  have split: "drop 5 (command s) = ?t @ ?r" using assms(2) cmd by (metis drop_append diff_is_0_eq drop0)
  have "?r \<noteq> []" "hd ?r = NUL"
    using assms(1) hd_dropWhile [of "\<lambda>c. c \<noteq> NUL" "command s"] by (auto simp: dropWhile_eq_Nil_conv)
  then obtain r where r: "?r = NUL # r" by (cases ?r) auto
  have "NUL \<notin> set ?t" using nul in_set_dropD by fast
  then have "cstr (drop 5 (command s)) = ?t" 
    unfolding split r cstr_def [of "?t @ NUL # r"] by (subst takeWhile_append2) auto
  moreover have "NUL \<in> set (drop 5 (command s))" unfolding split r by simp
  moreover have "say [LF] = send (crlf [LF])" by (rule say_send) simp
  ultimately show ?thesis by (simp only: sys_write_send crlf_append send_append)
qed

lemma uptime_send:
  "(do { s1 \<leftarrow> say ''uptime ticks: '' s; (r, u, s2) \<leftarrow> nova_syscall_dispatch NOVA_SYS_uptime s1;
         s3 \<leftarrow> write_unsigned (word_of_int r) s2; say [LF] s3 }) =
   send (crlf (''uptime ticks: '' @ dec (unat (ticks s)) @ [LF])) s"
proof -
  have say: "say ''uptime ticks: '' = send (crlf ''uptime ticks: '')" "say [LF] = send (crlf [LF])"
    by (rule say_send, simp)+
  show ?thesis
  proof (cases "send (crlf ''uptime ticks: '') s")
    case None
    then show ?thesis by (simp only: say crlf_append send_append) simp
  next
    case (Some t)
    then have "ticks t = ticks s" by (simp add: send_keeps)
    with Some show ?thesis
      by (simp only: say crlf_append send_append) (simp add: nova_syscall_dispatch_def write_unsigned_send crlf_dec send_append)
  qed
qed

lemma execute_send:
  assumes "NUL \<in> set (command s)" "cstr (command s) = line" "command_length s = length line"
  shows "execute s = send (crlf (response line (ticks s))) s"
proof -
  have cmp: "command_is e s = Some (line = e)" if "NUL \<notin> set e" for e
    using command_is_eq [OF assms(1) that] assms(2) by simp
  have echo: "starts_with (command s) (lit ''echo '') = Some (take 5 line = ''echo '')"
    using starts_with_eq [OF assms(1), of "''echo ''"] assms(2) by (simp add: eval_nat_numeral)
  have echo_out: "sys_write (drop 5 (command s)) s \<bind> say [LF] = send (crlf (drop 5 line @ [LF])) s"
    if "take 5 line = ''echo ''"
  proof -
    have "5 \<le> length line" using arg_cong [OF that, of length] by simp
    then show ?thesis using echo_send [OF assms(1)] assms(2) by simp
  qed
  have info: "say_all [''NovaOS Phase 3.1 Rapid Kernel prototype'' @ [LF],
        ''hybrid layers: microkernel core, BSD/POSIX personality, NovaKit drivers'' @ [LF],
        ''boot: Multiboot kernel with serial command line in QEMU'' @ [LF]] =
      send (crlf (''NovaOS Phase 3.1 Rapid Kernel prototype'' @ [LF] @
        ''hybrid layers: microkernel core, BSD/POSIX personality, NovaKit drivers'' @ [LF] @
        ''boot: Multiboot kernel with serial command line in QEMU'' @ [LF]))"
    by (subst say_all_send) simp_all
  have lf: "say [LF] = send (crlf [LF])" "say ''uptime ticks: '' = send (crlf ''uptime ticks: '')"
    by (rule say_send, simp)+
  show ?thesis
    unfolding execute_def response_def
    using assms(3)
    by (simp add: cmp echo echo_out [unfolded lf] info print_uname_send print_ps_send uptime_send [unfolded lf] say_send
        del: say_all.simps append_Cons append.simps)
qed

subsection \<open>The line editor\<close>

text \<open>What one received byte does to the line and what it makes the kernel print.\<close>

definition edit :: "u8 \<Rightarrow> u32 \<Rightarrow> string \<Rightarrow> string \<times> string" where
  "edit v t line =
     (if v = byte CR \<or> v = byte LF then ([], LF # response line t @ ''nova> '')
      else if v = byte BS \<or> v = 0x7F then
        (if line = [] then ([], []) else (butlast line, [BS] @ '' '' @ [BS]))
      else if 0x20 \<le> v \<and> v \<le> 0x7E \<and> length line < 159 then (line @ [chr v], [chr v])
      else (line, []))"

text \<open>The line that the command buffer holds.\<close>

definition line_of :: "boot_state \<Rightarrow> string" where
  "line_of s = take (command_length s) (command s)"

definition boot_inv :: "boot_state \<Rightarrow> bool" where
  "boot_inv s \<longleftrightarrow> length (command s) = 160 \<and> command_length s \<le> 159 \<and> NUL \<notin> set (line_of s)"

text \<open>A command, sent after changing the buffer: the form every branch of the editor takes.\<close>

definition edited :: "string \<Rightarrow> string \<Rightarrow> boot_state \<Rightarrow> boot_state option \<Rightarrow> bool" where
  "edited out line s r \<longleftrightarrow>
     (\<exists>c n. length c = 160 \<and> n \<le> 159 \<and> take n c = line \<and> NUL \<notin> set line \<and>
        r = map_option (\<lambda>t. t\<lparr>command := c, command_length := n\<rparr>) (send (crlf out) s))"

lemma edited_put:
  assumes "length c = 160" "n \<le> 159" "NUL \<notin> set (take n c)"
  shows "edited out (take n c) s (send (crlf out) (s\<lparr>command := c, command_length := n\<rparr>))"
  using assms unfolding edited_def send_upd by blast

lemma run_command_edited:
  assumes inv: "boot_inv s"
  shows "edited (LF # response (line_of s) (ticks s) @ ''nova> '') [] s (run_command s)"
proof -
  let ?c = "(command s)[command_length s := NUL]" and ?n = "command_length s"
  have c: "length ?c = 160" "?c ! ?n = NUL" "?n < 160" using inv by (auto simp: boot_inv_def)
  have "?c = line_of s @ NUL # drop (Suc ?n) (command s)"
    using inv by (simp add: boot_inv_def line_of_def upd_conv_take_nth_drop)
  then have cs: "cstr ?c = line_of s" "NUL \<in> set ?c"
    using inv cstr_prefix [of "line_of s"] by (auto simp: boot_inv_def is_cstring_def)
  have len: "?n = length (line_of s)" using inv by (simp add: boot_inv_def line_of_def)
  let ?s1 = "s\<lparr>command := ?c\<rparr>"
  have exec: "execute t = send (crlf (response (line_of s) (ticks s))) t"
    if "command t = ?c" "command_length t = ?n" "ticks t = ticks s" for t
    using execute_send [of t "line_of s"] that cs len by simp
  have prompt: "serial_prompt (t\<lparr>command_length := 0\<rparr>) =
      map_option (\<lambda>u. u\<lparr>command := ?c, command_length := 0\<rparr>) (send (crlf ''nova> '') t)" if "command t = ?c" for t
  proof -
    have "t\<lparr>command_length := 0\<rparr> = t\<lparr>command := ?c, command_length := 0\<rparr>" using that by simp
    then show ?thesis unfolding serial_prompt_def 
      using send_upd [where cs = "crlf ''nova> ''" and s = t and c = ?c and n = 0] by (simp add: say_send)
  qed
  have upd: "send x ?s1 = map_option (\<lambda>t. t\<lparr>command := ?c, command_length := ?n\<rparr>) (send x s)" for x
    using send_upd [where cs = x and s = s and c = ?c and n = ?n] by simp
  let ?r = "crlf (response (line_of s) (ticks s))"
  have "run_command s = send (crlf [LF]) ?s1 \<bind> (\<lambda>t. execute t \<bind> (\<lambda>t. serial_prompt (t\<lparr>command_length := 0\<rparr>)))"
    using c(3) inv by (simp add: run_command_def putc_send boot_inv_def)
  also have "\<dots> = map_option (\<lambda>u. u\<lparr>command := ?c, command_length := 0\<rparr>)
      (send (crlf [LF]) ?s1 \<bind> (\<lambda>t. send ?r t \<bind> send (crlf ''nova> '')))"
  proof (cases "send (crlf [LF]) ?s1")
    case (Some t)
    then have t: "command t = ?c" "command_length t = ?n" "ticks t = ticks s" by (simp_all add: send_keeps)
    show ?thesis
    proof (cases "send ?r t")
      case (Some u)
      then have "command u = ?c" using t by (simp add: send_keeps)
      with Some t \<open>send (crlf [LF]) ?s1 = Some t\<close> show ?thesis by (simp add: exec prompt)
    qed (use t \<open>send (crlf [LF]) ?s1 = Some t\<close> in \<open>simp add: exec\<close>)
  qed simp
  also have "send (crlf [LF]) ?s1 \<bind> (\<lambda>t. send ?r t \<bind> send (crlf ''nova> '')) =
      send (crlf ([LF] @ response (line_of s) (ticks s) @ ''nova> '')) ?s1"
    by (simp only: crlf_append send_append send_append_fun)
  finally have "run_command s = map_option (\<lambda>u. u\<lparr>command := ?c, command_length := 0\<rparr>)
      (send (crlf (LF # response (line_of s) (ticks s) @ ''nova> '')) s)"
    by (simp add: upd option.map_comp comp_def)
  then show ?thesis using c(1) unfolding edited_def by (intro exI [of _ ?c] exI [of _ 0]) simp
qed

lemma backspace_edited:
  assumes inv: "boot_inv s"
  shows "edited (if line_of s = [] then [] else [BS] @ '' '' @ [BS]) (butlast (line_of s)) s (serial_backspace s)"
proof (cases "command_length s = 0")
  case True
  then have "line_of s = []" by (simp add: line_of_def)
  moreover have "length (command s) = 160" using inv by (simp add: boot_inv_def)
  moreover have "map_option (\<lambda>t. t\<lparr>command := command s, command_length := 0\<rparr>) (send (crlf []) s) = Some s"
    using True by simp
  moreover have "serial_backspace s = Some s" using True by (simp add: serial_backspace_def)
  ultimately show ?thesis
    unfolding edited_def by (intro exI [of _ "command s"] exI [of _ 0]) simp
next
  case False
  let ?n = "command_length s - 1"
  have len: "length (command s) = 160" "command_length s \<le> 159" and nul: "NUL \<notin> set (line_of s)"
    using inv by (auto simp: boot_inv_def)
  have line: "take ?n (command s) = butlast (line_of s)" using False len by (simp add: line_of_def butlast_take)
  have "line_of s \<noteq> []" using False len by (auto simp: line_of_def)
  moreover have "serial_backspace s = send (crlf ([BS] @ '' '' @ [BS])) (s\<lparr>command := command s, command_length := ?n\<rparr>)"
    using False by (simp add: serial_backspace_def say_send)
  moreover have "NUL \<notin> set (take ?n (command s))" using nul line by (auto dest: in_set_butlastD)
  ultimately show ?thesis
    using edited_put [where c = "command s" and n = ?n and s = s and out = "[BS] @ '' '' @ [BS]"] len line by simp
qed

lemma chr_not_NUL: "0x20 \<le> v \<Longrightarrow> chr v \<noteq> NUL"
proof
  assume v: "0x20 \<le> v" and "chr v = NUL"
  then have "(of_char (char_of (unat v)) :: nat) = of_char NUL" by (simp add: chr_def)
  then have "unat v mod 256 = 0" by (simp add: of_char_of)
  moreover have "unat v < 256" using unsigned_less [of v, where ?'a = nat] by simp
  ultimately have "unat v = 0" by simp
  with v show False by (simp add: word_le_nat_alt)
qed

lemma type_edited:
  assumes inv: "boot_inv s" and v: "0x20 \<le> v" "v \<le> 0x7E" "command_length s < length (command s) - 1"
  shows "edited [chr v] (line_of s @ [chr v]) s
    (serial_putc (chr v) (s\<lparr>command := (command s)[command_length s := chr v], command_length := command_length s + 1\<rparr>))"
proof -
  let ?c = "(command s)[command_length s := chr v]" and ?n = "command_length s + 1"
  have len: "length (command s) = 160" "command_length s < 159" using inv v(3) by (auto simp: boot_inv_def)
  have line: "take ?n ?c = line_of s @ [chr v]" using len by (simp add: line_of_def take_Suc_conv_app_nth)
  have "NUL \<notin> set (take ?n ?c)" unfolding line using inv chr_not_NUL [OF v(1)] by (auto simp: boot_inv_def)
  from edited_put [of ?c ?n, OF _ _ this] len show ?thesis unfolding line by (simp add: putc_send)
qed

lemma serial_poll_edited:
  assumes inv: "boot_inv s" and l: "lsr_reads s = l # ls" "l AND 0x01 \<noteq> 0" and v: "data_reads s = v # vs"
  shows "edited (snd (edit v (ticks s) (line_of s))) (fst (edit v (ticks s) (line_of s)))
    (s\<lparr>lsr_reads := ls, data_reads := vs\<rparr>) (serial_poll s)"
proof -
  let ?s = "s\<lparr>lsr_reads := ls, data_reads := vs\<rparr>"
  have inv': "boot_inv ?s" and line: "line_of ?s = line_of s" using inv by (simp_all add: boot_inv_def line_of_def)
  let ?poll = "(if v = byte CR \<or> v = byte LF then run_command ?s
       else if v = byte BS \<or> v = 0x7F then serial_backspace ?s
       else if 0x20 \<le> v \<and> v \<le> 0x7E \<and> command_length ?s < length (command ?s) - 1 then
         serial_putc (chr v) (?s\<lparr>command := (command ?s)[command_length ?s := chr v], command_length := command_length ?s + 1\<rparr>)
       else Some ?s)"
  have poll: "serial_poll s = ?poll"
    using l v by (simp add: serial_poll_def inb_lsr_def inb_data_def)
  have bound: "command_length ?s < length (command ?s) - 1 \<longleftrightarrow> length (line_of s) < 159"
    using inv by (auto simp: boot_inv_def line_of_def)
  have idle: "edited [] (line_of s) ?s (Some ?s)"
    using edited_put [where c = "command s" and n = "command_length s" and s = ?s and out = "[]"] inv
    by (simp add: boot_inv_def line_of_def)
  note cases = run_command_edited [OF inv'] backspace_edited [OF inv'] type_edited [OF inv']
  show ?thesis
    unfolding poll
  proof (cases "v = byte CR \<or> v = byte LF")
    case True
    with cases(1) line show "edited (snd (edit v (ticks s) (line_of s))) (fst (edit v (ticks s) (line_of s))) ?s ?poll"
      by (simp add: edit_def)
  next
    case no_enter: False
    show "edited (snd (edit v (ticks s) (line_of s))) (fst (edit v (ticks s) (line_of s))) ?s ?poll"
    proof (cases "v = byte BS \<or> v = 0x7F")
      case True
      with no_enter cases(2) line show ?thesis by (simp only: edit_def) (auto split: if_splits)
    next
      case no_erase: False
      show ?thesis
      proof (cases "0x20 \<le> v \<and> v \<le> 0x7E \<and> command_length ?s < length (command ?s) - 1")
        case True
        then have "edit v (ticks s) (line_of s) = (line_of s @ [chr v], [chr v])"
          using no_enter no_erase bound by (simp add: edit_def)
        with True no_enter no_erase cases(3) line show ?thesis by simp
      next
        case False
        then have "edit v (ticks s) (line_of s) = (line_of s, [])"
          using no_enter no_erase bound by (auto simp: edit_def)
        moreover have "?poll = Some ?s" using False no_enter no_erase by auto
        ultimately show ?thesis unfolding \<open>?poll = Some ?s\<close> using idle by simp
      qed
    qed
  qed
qed

lemma edited_inv: "edited out line s (Some t) \<Longrightarrow> boot_inv t"
  by (cases "send (crlf out) s") (auto simp: edited_def boot_inv_def line_of_def)

text \<open>
  The command line is the line editor of the specification: a poll with a pending byte, for
  any state whose buffer holds a well-formed line, leaves exactly the line that the editor leaves,
  keeps the buffer within bounds, writes exactly the editor's output to the data port (echo,
  erase sequence, command response and prompt, with line feeds expanded), takes one
  transmitter-ready status per byte written, and fails to return only if those run out.
\<close>
lemma poll_editor:
  assumes inv: "boot_inv s" and l: "lsr_reads s = l # ls" "l AND 0x01 \<noteq> 0" and v: "data_reads s = v # vs"
  shows "case edit v (ticks s) (line_of s) of (line', out) \<Rightarrow>
    (case skip_ready (length (crlf out)) ls of
       None \<Rightarrow> serial_poll s = None
     | Some rest \<Rightarrow> \<exists>t. serial_poll s = Some t \<and> boot_inv t \<and> line_of t = line' \<and> ticks t = ticks s \<and>
         lsr_reads t = rest \<and> data_reads t = vs \<and>
         port_log t = port_log s @ map (\<lambda>c. (COM1 + SERIAL_DATA, byte c)) (crlf out))"
proof -
  obtain line' out where e: "edit v (ticks s) (line_of s) = (line', out)" by (cases "edit v (ticks s) (line_of s)")
  let ?s = "s\<lparr>lsr_reads := ls, data_reads := vs\<rparr>"
  obtain c n where c: "length c = 160" "n \<le> 159" "take n c = line'" "NUL \<notin> set line'"
    "serial_poll s = map_option (\<lambda>t. t\<lparr>command := c, command_length := n\<rparr>) (send (crlf out) ?s)"
    using serial_poll_edited [OF inv l v] e by (auto simp: edited_def)
  show ?thesis
  proof (cases "skip_ready (length (crlf out)) ls")
    case None
    with c(5) e show ?thesis by (simp add: send_def)
  next
    case (Some rest)
    with c e show ?thesis by (simp add: send_def boot_inv_def line_of_def)
  qed
qed

text \<open>Rounds of \<open>kmain\<close>.\<close>

definition boot_start :: "boot_state \<Rightarrow> bool" where
  "boot_start t \<longleftrightarrow> (\<exists>s. command s = replicate 160 NUL \<and> command_length s = 0 \<and> ticks s = 0 \<and> port_log s = [] \<and>
     kmain_start s = Some t)"

definition boot_step :: "boot_state \<Rightarrow> boot_state \<Rightarrow> bool" where
  "boot_step s t \<longleftrightarrow> kmain_round s = Some t"

lemma kmain_start_send:
  "kmain_start s = send (crlf ([LF] @ ''NovaOS Phase 3.1 Rapid Kernel booted.'' @ [LF] @
     ''QEMU command line online; type help for POSIX and NovaKit commands.'' @ [LF] @ ''nova> '')) (serial_init s)"
proof -
  have "say ([LF] @ ''NovaOS Phase 3.1 Rapid Kernel booted.'' @ [LF]) =
      send (crlf ([LF] @ ''NovaOS Phase 3.1 Rapid Kernel booted.'' @ [LF]))"
    "say (''QEMU command line online; type help for POSIX and NovaKit commands.'' @ [LF]) =
      send (crlf (''QEMU command line online; type help for POSIX and NovaKit commands.'' @ [LF]))"
    "serial_prompt = send (crlf ''nova> '')"
    by (rule say_send, simp)+ (simp add: fun_eq_iff serial_prompt_def say_send)
  then show ?thesis by (simp only: kmain_start_def crlf_append append_assoc send_append_fun bind_assoc)
qed

lemma boot_start_inv: "boot_start t \<Longrightarrow> boot_inv t"
proof -
  assume "boot_start t"
  then obtain s where s: "command s = replicate 160 NUL" "command_length s = 0" "kmain_start s = Some t"
    by (auto simp: boot_start_def)
  have "command (serial_init s) = command s" "command_length (serial_init s) = command_length s"
    by (simp_all add: serial_init_def outb_def Let_def)
  with s send_keeps show ?thesis unfolding kmain_start_send by (fastforce simp: boot_inv_def line_of_def)
qed

lemma boot_step_inv:
  assumes inv: "boot_inv s" and step: "boot_step s t"
  shows "boot_inv t"
proof -
  let ?s = "s\<lparr>ticks := ticks s + 1\<rparr>"
  have inv': "boot_inv ?s" using inv by (simp add: boot_inv_def line_of_def)
  have poll: "serial_poll ?s = Some t" using step by (simp add: boot_step_def kmain_round_def)
  obtain l ls where l: "lsr_reads ?s = l # ls"
    using poll by (cases "lsr_reads s") (auto simp: serial_poll_def inb_lsr_def)
  show ?thesis
  proof (cases "l AND 0x01 = 0")
    case True
    with poll l inv show ?thesis by (auto simp: serial_poll_def inb_lsr_def boot_inv_def line_of_def)
  next
    case False
    obtain v vs where v: "data_reads ?s = v # vs"
      using poll l False by (cases "data_reads s") (auto simp: serial_poll_def inb_lsr_def inb_data_def)
    from serial_poll_edited [OF inv' l False v] poll show ?thesis by (auto intro: edited_inv)
  qed
qed

interpretation boot_machine: invariant_machine boot_start boot_step boot_inv
  by unfold_locales (auto intro: boot_start_inv boot_step_inv)

text \<open>
  Claim C23. Whatever arrives on the serial line and however the statuses fall, in every state that
  \<open>kmain\<close>'s loop reaches the command buffer has its 160 bytes and the length of the line is at most
  159, so that the terminating zero that \<open>run_command\<close> writes is always inside the buffer.
\<close>
theorem boot_buffer_bounded:
  assumes "reach boot_start boot_step s"
  shows "length (command s) = 160 \<and> command_length s < 160 \<and> NUL \<notin> set (line_of s)"
  using boot_machine.reach_inv [OF assms] by (auto simp: boot_inv_def)

lemma dec_leading: "n \<noteq> 0 \<Longrightarrow> hd (dec n) \<noteq> CHR ''0''"
proof (induction n rule: dec.induct)
  case (1 n)
  have ne: "dec m \<noteq> []" for m by (subst dec.simps) simp
  show ?case
  proof (cases "n < 10")
    case True
    then have "(of_char (char_of (48 + n) :: char) :: nat) \<noteq> of_char (CHR ''0'')" using 1(2) by (simp add: digit_char)
    then have "char_of (48 + n) \<noteq> CHR ''0''" by fastforce
    with True show ?thesis by (subst dec.simps) simp
  next
    case False
    then have "hd (dec (n div 10)) \<noteq> CHR ''0''" using 1 by simp
    with False ne [of "n div 10"] show ?thesis by (subst dec.simps) simp
  qed
qed

text \<open>
  Claim C34. \<open>write_unsigned\<close> prints the decimal numeral of its argument, without leading zeros, and
  reading the numeral back gives the argument: the 20-digit buffer is always enough.
\<close>
theorem boot_decimal_roundtrip:
  "write_unsigned v s = send (dec (unat v)) s \<and> dec_value (dec (unat v)) = unat v \<and>
   (hd (dec (unat v)) = CHR ''0'' \<longleftrightarrow> v = 0)"
proof -
  have "dec 0 = ''0''" by code_simp
  then show ?thesis using dec_leading [of "unat v"] by (auto simp: write_unsigned_send dec_value_dec unat_eq_zero)
qed

subsection \<open>Witnesses\<close>

text \<open>Power-on, with a transmitter that is always ready and \<open>ps\<close> typed on the line.\<close>

definition power_on :: boot_state where
  "power_on = \<lparr>command = replicate 160 NUL, command_length = 0, ticks = 0, lsr_reads = replicate 300 0x21,
     data_reads = [byte (CHR ''p''), byte (CHR ''s''), byte CR], port_log = []\<rparr>"

lemma ready_status: "(0x21 :: u8) AND 0x20 \<noteq> 0" "(0x21 :: u8) AND 0x01 \<noteq> 0"
  by code_simp+

lemma skip_ready_replicate: "n \<le> m \<Longrightarrow> skip_ready n (replicate m 0x21) = Some (replicate (m - n) 0x21)"
proof (induction n arbitrary: m)
  case (Suc n)
  then obtain k where "m = Suc k" "n \<le> k" by (cases m) auto
  with Suc.IH [of k] show ?case using ready_status(1) by simp
qed simp

theorem boot_buffer_bounded_witness:
  "\<exists>s. reach boot_start boot_step s \<and> command_length s < 160"
proof -
  have "lsr_reads (serial_init power_on) = replicate 300 0x21"
    by (simp add: serial_init_def outb_def power_on_def Let_def)
  moreover have "length (crlf ([LF] @ ''NovaOS Phase 3.1 Rapid Kernel booted.'' @ [LF] @
      ''QEMU command line online; type help for POSIX and NovaKit commands.'' @ [LF] @ ''nova> '')) \<le> 300"
    by code_simp
  ultimately have "kmain_start power_on \<noteq> None"
    by (simp only: kmain_start_send send_def skip_ready_replicate option.map_disc_iff) simp
  then obtain t where "kmain_start power_on = Some t" by auto
  then have "boot_start t" unfolding boot_start_def by (intro exI [of _ power_on]) (simp add: power_on_def)
  then have "reach boot_start boot_step t" by (rule reach_start)
  with boot_buffer_bounded [OF this] show ?thesis by blast
qed

end
