(* ===== verification/Nova_Boot_Session.thy ===== *)
theory Nova_Boot_Session
  imports Nova_Boot
begin

text \<open>
  Whole sessions at the serial console of \<open>boot/kernel.c\<close>: \<open>kmain\<close> from power-on through any number
  of rounds of its endless loop.  The specification is a console that owns a line and a clock and
  consumes the status and data bytes of the UART; the theory shows that \<open>kmain\<close> transmits exactly
  what the console prints, when its busy waits end, and what a user sees who types commands.
\<close>

subsection \<open>Rounds of the main loop\<close>

fun kmain_rounds :: "nat \<Rightarrow> boot_state \<Rightarrow> boot_state option" where
  "kmain_rounds 0 s = Some s"
| "kmain_rounds (Suc n) s = do { s1 \<leftarrow> kmain_round s; kmain_rounds n s1 }"

definition kmain :: "nat \<Rightarrow> boot_state \<Rightarrow> boot_state option" where
  "kmain n s = do { s1 \<leftarrow> kmain_start s; kmain_rounds n s1 }"

subsection \<open>The console\<close>

definition banner :: string where
  "banner = [LF] @ ''NovaOS Phase 3.1 Rapid Kernel booted.'' @ [LF] @
     ''QEMU command line online; type help for POSIX and NovaKit commands.'' @ [LF] @ ''nova> ''"

text \<open>What \<open>serial_init\<close> writes, as port and value.\<close>

definition uart_setup :: "(nat \<times> u8) list" where
  "uart_setup = [(COM1 + SERIAL_INTERRUPT, 0x00), (COM1 + SERIAL_LINE_CONTROL, 0x80), (COM1 + SERIAL_DATA, 0x03),
     (COM1 + SERIAL_INTERRUPT, 0x00), (COM1 + SERIAL_LINE_CONTROL, 0x03), (COM1 + SERIAL_FIFO, 0xC7),
     (COM1 + SERIAL_MODEM_CONTROL, 0x0B)]"

text \<open>The bytes that reach the data port for a text.\<close>

definition wire :: "string \<Rightarrow> (nat \<times> u8) list" where
  "wire text = map (\<lambda>c. (COM1 + SERIAL_DATA, byte c)) (crlf text)"

text \<open>
  \<open>n\<close> rounds of the console from clock \<open>t\<close> and a line: what it prints, the line it leaves and the
  input it leaves.  A round reads one status; without data it does nothing, otherwise it edits the
  line and waits for the transmitter once per byte printed.
\<close>

fun console :: "nat \<Rightarrow> u32 \<Rightarrow> u8 list \<Rightarrow> u8 list \<Rightarrow> string \<Rightarrow> (string \<times> string \<times> u8 list \<times> u8 list) option" where
  "console 0 t status input line = Some ([], line, status, input)"
| "console (Suc n) t [] input line = None"
| "console (Suc n) t (l # status) input line =
     (if l AND 0x01 = 0 then console n (t + 1) status input line
      else (case input of
          [] \<Rightarrow> None
        | v # vs \<Rightarrow>
            (case edit v (t + 1) line of (line', out) \<Rightarrow> do {
               rest \<leftarrow> skip_ready (length (crlf out)) status;
               (outs, final) \<leftarrow> console n (t + 1) rest vs line';
               Some (out @ outs, final) })))"

subsection \<open>One round\<close>

lemma wire_append [simp]: "wire (as @ bs) = wire as @ wire bs"
  by (simp add: wire_def crlf_append)

lemma wire_Nil [simp]: "wire [] = []"
  by (simp add: wire_def)

text \<open>A state of the main loop that stands for a console.\<close>

definition console_at :: "u32 \<Rightarrow> u8 list \<Rightarrow> u8 list \<Rightarrow> string \<Rightarrow> boot_state \<Rightarrow> bool" where
  "console_at t status input line s \<longleftrightarrow> boot_inv s \<and> line_of s = line \<and> ticks s = t \<and> lsr_reads s = status \<and> data_reads s = input"

lemma round_idle:
  assumes at: "console_at t (l # status) input line s" and l: "l AND 0x01 = 0"
  obtains u where "kmain_round s = Some u" "console_at (t + 1) status input line u" "port_log u = port_log s"
proof
  show "kmain_round s = Some (s\<lparr>ticks := t + 1, lsr_reads := status\<rparr>)"
    using at l by (simp add: kmain_round_def serial_poll_def inb_lsr_def console_at_def)
  show "console_at (t + 1) status input line (s\<lparr>ticks := t + 1, lsr_reads := status\<rparr>)"
    using at by (auto simp: console_at_def boot_inv_def line_of_def)
qed simp

lemma round_no_input:
  "console_at t (l # status) [] line s \<Longrightarrow> l AND 0x01 \<noteq> 0 \<Longrightarrow> kmain_round s = None"
  by (simp add: kmain_round_def serial_poll_def inb_lsr_def inb_data_def console_at_def)

lemma round_edit:
  assumes at: "console_at t (l # status) (v # vs) line s" and l: "l AND 0x01 \<noteq> 0"
    and e: "edit v (t + 1) line = (line', out)"
  shows "case skip_ready (length (crlf out)) status of
      None \<Rightarrow> kmain_round s = None
    | Some rest \<Rightarrow> \<exists>u. kmain_round s = Some u \<and> console_at (t + 1) rest vs line' u \<and>
        port_log u = port_log s @ wire out"
proof -
  let ?s = "s\<lparr>ticks := t + 1\<rparr>"
  have inv: "boot_inv ?s" and line: "line_of ?s = line" and l': "lsr_reads ?s = l # status" and v: "data_reads ?s = v # vs"
    using at by (auto simp: console_at_def boot_inv_def line_of_def)
  have round: "kmain_round s = serial_poll ?s" using at by (simp add: kmain_round_def console_at_def)
  from poll_editor [OF inv l' l v] line e show ?thesis
    by (auto simp: round console_at_def wire_def split: option.splits)
qed

subsection \<open>Sessions\<close>

lemma rounds_console:
  "console_at t status input line s \<Longrightarrow>
     (case console n t status input line of
        None \<Rightarrow> kmain_rounds n s = None
      | Some (out, line', status', input') \<Rightarrow> \<exists>u. kmain_rounds n s = Some u \<and>
          console_at (t + of_nat n) status' input' line' u \<and> port_log u = port_log s @ wire out)"
proof (induction n t status input line arbitrary: s rule: console.induct)
  case (2 n t input line)
  then have "kmain_round s = None" by (simp add: kmain_round_def serial_poll_def inb_lsr_def console_at_def)
  then show ?case by simp
next
  case (3 n t l status input line)
  show ?case
  proof (cases "l AND 0x01 = 0")
    case True
    with 3 obtain u where u: "kmain_round s = Some u" "console_at (t + 1) status input line u" "port_log u = port_log s"
      using round_idle by blast
    from "3.IH"(1) [OF True u(2)] u(1,3) True show ?thesis by (auto simp: add.assoc split: option.splits)
  next
    case data: False
    show ?thesis
    proof (cases input)
      case Nil
      with round_no_input data 3 show ?thesis by simp
    next
      case (Cons v vs)
      obtain line' out where e: "edit v (t + 1) line = (line', out)" by (cases "edit v (t + 1) line")
      note step = round_edit [OF "3.prems" [unfolded Cons] data e]
      show ?thesis
      proof (cases "skip_ready (length (crlf out)) status")
        case None
        with step data Cons e show ?thesis by simp
      next
        case (Some rest)
        with step obtain u where u: "kmain_round s = Some u" "console_at (t + 1) rest vs line' u"
          "port_log u = port_log s @ wire out" by auto
        from "3.IH"(2) [OF data Cons e [symmetric] Some u(2)] u data Cons e Some show ?thesis
          by (auto simp: add.assoc split: option.splits)
      qed
    qed
  qed
qed (simp add: console_at_def)

text \<open>The memory of the kernel image at power-on.\<close>

definition powered_on :: "boot_state \<Rightarrow> bool" where
  "powered_on s \<longleftrightarrow> command s = replicate 160 NUL \<and> command_length s = 0 \<and> ticks s = 0 \<and> port_log s = []"

lemma start_console:
  assumes "powered_on s"
  shows "case skip_ready (length (crlf banner)) (lsr_reads s) of
      None \<Rightarrow> kmain_start s = None
    | Some status \<Rightarrow> \<exists>u. kmain_start s = Some u \<and> console_at 0 status (data_reads s) [] u \<and>
        port_log u = uart_setup @ wire banner"
proof -
  have start: "kmain_start s = send (crlf banner) (serial_init s)"
    by (simp only: kmain_start_send banner_def)
  have "serial_init s = s\<lparr>port_log := uart_setup\<rparr>"
    using assms by (simp add: serial_init_def outb_def Let_def powered_on_def uart_setup_def)
  then show ?thesis
    using assms unfolding start
    by (simp add: send_def powered_on_def console_at_def boot_inv_def line_of_def wire_def split: option.split)
qed

lemma boot_sessions:
  assumes "powered_on s"
  shows "case skip_ready (length (crlf banner)) (lsr_reads s) of
      None \<Rightarrow> kmain n s = None
    | Some status \<Rightarrow>
        (case console n 0 status (data_reads s) [] of
           None \<Rightarrow> kmain n s = None
         | Some (out, line, status', input') \<Rightarrow>
             \<exists>u. kmain n s = Some u \<and> line_of u = line \<and> ticks u = of_nat n \<and>
               lsr_reads u = status' \<and> data_reads u = input' \<and>
               port_log u = uart_setup @ wire (banner @ out))"
proof (cases "skip_ready (length (crlf banner)) (lsr_reads s)")
  case None
  with start_console [OF assms] show ?thesis by (simp add: kmain_def)
next
  case (Some status)
  with start_console [OF assms] obtain u where u: "kmain_start s = Some u"
    "console_at 0 status (data_reads s) [] u" "port_log u = uart_setup @ wire banner" by auto
  from rounds_console [OF u(2), of n] u(1,3) Some show ?thesis
    by (auto simp: kmain_def console_at_def split: option.splits)
qed

text \<open>
  Claim C7. The console from power-on: for any number of rounds of the main loop, any bytes that
  arrive and any statuses the UART reports, \<open>kmain\<close> sets the UART up, transmits the banner and then
  exactly what the console prints, in order; it ends the rounds with the console's line in its
  buffer and the console's remaining input, and it fails to get through them exactly when the
  console runs out of statuses or bytes to wait for.
\<close>
theorem boot_session_refines:
  assumes "powered_on s"
  shows "case skip_ready (length (crlf banner)) (lsr_reads s) of
      None \<Rightarrow> kmain n s = None
    | Some status \<Rightarrow>
        (case console n 0 status (data_reads s) [] of
           None \<Rightarrow> kmain n s = None
         | Some (out, line, status', input') \<Rightarrow>
             \<exists>u. kmain n s = Some u \<and> line_of u = line \<and> ticks u = of_nat n \<and>
               lsr_reads u = status' \<and> data_reads u = input' \<and>
               port_log u = uart_setup @ wire (banner @ out))"
  by (rule boot_sessions [OF assms])

subsection \<open>Typing commands\<close>

definition printable :: "char \<Rightarrow> bool" where
  "printable c \<longleftrightarrow> 0x20 \<le> byte c \<and> byte c \<le> 0x7E"

definition typable :: "string \<Rightarrow> bool" where
  "typable w \<longleftrightarrow> length w \<le> 159 \<and> list_all printable w"

definition typed :: "string \<Rightarrow> u8 list" where
  "typed w = map byte w @ [byte CR]"

text \<open>What the terminal shows while the commands are typed: each line with its response.  The clock
  of a response is the number of bytes typed so far.\<close>

fun transcript :: "u32 \<Rightarrow> string list \<Rightarrow> string" where
  "transcript t [] = []"
| "transcript t (w # ws) =
     (let t' = t + of_nat (length w) + 1
      in w @ [LF] @ response w t' @ ''nova> '' @ transcript t' ws)"

lemma unat_byte [simp]: "unat (byte c) = of_char c"
proof -
  have "byte c = of_nat (of_char c)" by (simp add: byte_def of_nat_of_char)
  then show ?thesis by (simp add: unat_of_nat take_bit_nat_eq_self)
qed

lemma chr_byte [simp]: "chr (byte c) = c"
  by (simp add: chr_def)

lemma edit_printable:
  assumes c: "printable c" and len: "length line < 159"
  shows "edit (byte c) t line = (line @ [c], [c])" "crlf [c] = [c]"
proof -
  have "byte CR = 0x0D" "byte LF = 0x0A" "byte BS = 0x08" by code_simp+
  with c have "byte c \<noteq> byte CR" "byte c \<noteq> byte LF" "byte c \<noteq> byte BS" "byte c \<noteq> 0x7F" "c \<noteq> LF"
    by (auto simp: printable_def)
  with c len show "edit (byte c) t line = (line @ [c], [c])" "crlf [c] = [c]"
    by (simp_all add: edit_def printable_def crlf_def)
qed

lemma console_add:
  "console (m + n) t status input line =
     do { (out1, line1, status1, input1) \<leftarrow> console m t status input line;
          (out2, final) \<leftarrow> console n (t + of_nat m) status1 input1 line1;
          Some (out1 @ out2, final) }"
proof (induction m t status input line rule: console.induct)
  case (3 m t l status input line)
  show ?case
  proof (cases "l AND 0x01 = 0")
    case True
    with 3 show ?thesis by (simp add: add.assoc)
  next
    case data: False
    show ?thesis
    proof (cases input)
      case (Cons v vs)
      obtain line' out where e: "edit v (t + 1) line = (line', out)" by (cases "edit v (t + 1) line")
      show ?thesis
      proof (cases "skip_ready (length (crlf out)) status")
        case (Some rest)
        from "3.IH"(2) [OF data Cons e [symmetric] Some] data Cons e Some show ?thesis
          by (auto simp: add.assoc bind_eq_Some_conv split: bind_splits prod.splits)
      qed (use data Cons e in simp)
    qed (use data in simp)
  qed
qed (auto split: bind_splits)

text \<open>Statuses of a UART with data pending and its transmitter free.\<close>

abbreviation (input) idle_uart :: "nat \<Rightarrow> u8 list" where
  "idle_uart n \<equiv> replicate n 0x21"

lemma console_type:
  "list_all printable w \<Longrightarrow> length line + length w \<le> 159 \<Longrightarrow> 2 * length w \<le> n \<Longrightarrow>
     console (length w) t (idle_uart n) (map byte w @ vs) line =
       Some (w, line @ w, idle_uart (n - 2 * length w), vs)"
proof (induction w arbitrary: t n line)
  case (Cons c w)
  obtain m where m: "n = Suc (Suc m)" "2 * length w \<le> m" using Cons.prems(3) by (cases n; cases "n - 1") auto
  have c: "printable c" "length line < 159" using Cons.prems by simp_all
  have "skip_ready (length (crlf [c])) (idle_uart (Suc m)) = Some (idle_uart m)"
    using edit_printable(2) [OF c] skip_ready_replicate [of 1 "Suc m"] by simp
  moreover have "console (length w) (t + 1) (idle_uart m) (map byte w @ vs) (line @ [c]) =
      Some (w, (line @ [c]) @ w, idle_uart (m - 2 * length w), vs)"
    using Cons.prems m(2) by (intro Cons.IH) simp_all
  ultimately show ?case
    using edit_printable(1) [OF c] ready_status(2) m by simp
qed simp

lemma console_enter:
  assumes "Suc (length (crlf ([LF] @ response line (t + 1) @ ''nova> ''))) \<le> n"
  shows "console 1 t (idle_uart n) (byte CR # vs) line =
    Some ([LF] @ response line (t + 1) @ ''nova> '', [],
      idle_uart (n - Suc (length (crlf ([LF] @ response line (t + 1) @ ''nova> '')))), vs)"
proof -
  obtain m where m: "n = Suc m" "length (crlf ([LF] @ response line (t + 1) @ ''nova> '')) \<le> m"
    using assms by (cases n) auto
  have "edit (byte CR) (t + 1) line = ([], [LF] @ response line (t + 1) @ ''nova> '')" by (simp add: edit_def)
  then show ?thesis
    using skip_ready_replicate [OF m(2)] ready_status(2) m(1) by (simp del: append_Cons)
qed

definition keystrokes :: "string list \<Rightarrow> u8 list" where
  "keystrokes ws = concat (map typed ws)"

lemma keystrokes_simps [simp]:
  "keystrokes [] = []" "keystrokes (w # ws) = map byte w @ byte CR # keystrokes ws"
  by (simp_all add: keystrokes_def typed_def)

lemma crlf_printable: "list_all printable w \<Longrightarrow> crlf w = w"
  by (induction w) (use edit_printable(2) [of _ "[]"] in \<open>auto simp: crlf_def\<close>)

lemma console_command:
  assumes w: "typable w" and n: "length w + 1 + length (crlf (w @ [LF] @ response w (t + of_nat (length w) + 1) @ ''nova> '')) \<le> n"
  shows "console (length w + 1) t (idle_uart n) (map byte w @ byte CR # vs) [] =
    Some (w @ [LF] @ response w (t + of_nat (length w) + 1) @ ''nova> '', [],
      idle_uart (n - (length w + 1 + length (crlf (w @ [LF] @ response w (t + of_nat (length w) + 1) @ ''nova> '')))), vs)"
proof -
  let ?r = "[LF] @ response w (t + of_nat (length w) + 1) @ ''nova> ''"
  have p: "list_all printable w" "length [] + length w \<le> 159" using w by (simp_all add: typable_def)
  have len: "length (crlf (w @ ?r)) = length w + length (crlf ?r)"
    using crlf_printable [OF p(1)] by (simp only: crlf_append length_append)
  then have "2 * length w \<le> n" "Suc (length (crlf ?r)) \<le> n - 2 * length w" using n by simp_all
  moreover note console_type [OF p this(1), of t "byte CR # vs"]
    console_enter [OF this(2), of vs]
  ultimately show ?thesis unfolding console_add len by (simp add: mult_2 del: append_Cons)
qed

lemma console_transcript:
  "list_all typable ws \<Longrightarrow> length (keystrokes ws) + length (crlf (transcript t ws)) \<le> n \<Longrightarrow>
     \<exists>m. console (length (keystrokes ws)) t (idle_uart n) (keystrokes ws) [] = Some (transcript t ws, [], idle_uart m, [])"
proof (induction ws arbitrary: t n)
  case (Cons w ws)
  let ?t = "t + of_nat (length w) + 1"
  let ?r = "w @ [LF] @ response w ?t @ ''nova> ''"
  let ?k = "length w + 1 + length (crlf ?r)"
  have script: "transcript t (w # ws) = ?r @ transcript ?t ws" by (simp add: Let_def)
  have n: "?k + (length (keystrokes ws) + length (crlf (transcript ?t ws))) \<le> n"
    using Cons.prems(2) unfolding script crlf_append by (simp add: crlf_append)
  then have tail: "length (keystrokes ws) + length (crlf (transcript ?t ws)) \<le> n - ?k" by linarith
  have ws: "list_all typable ws" using Cons.prems(1) by simp
  have "console (length w + 1) t (idle_uart n) (map byte w @ byte CR # keystrokes ws) [] =
      Some (?r, [], idle_uart (n - ?k), keystrokes ws)"
    using Cons.prems(1) n by (intro console_command) simp_all
  moreover obtain m where "console (length (keystrokes ws)) ?t (idle_uart (n - ?k)) (keystrokes ws) [] =
      Some (transcript ?t ws, [], idle_uart m, [])"
    using Cons.IH [OF ws tail] by blast
  moreover have "length (keystrokes (w # ws)) = (length w + 1) + length (keystrokes ws)" by simp
  moreover have "t + of_nat (length w + 1) = ?t" by simp
  ultimately show ?case unfolding script by (simp only: console_add keystrokes_simps) simp
qed (auto intro: exI [of _ n])

text \<open>
  Claim C13. What the user of the serial console sees: with a transmitter that is always ready and any
  sequence of command lines typed (printable characters, at most 159 to a line, each line ended by a
  carriage return), \<open>kmain\<close> gets through one round per byte, and the bytes on the data port are the
  banner and then, for each line, its echo, a new line, the response to the command (with the clock
  of that moment for \<open>uptime\<close>) and the prompt; the line buffer is empty again at the end.
\<close>
theorem boot_command_session:
  assumes "powered_on s" "list_all typable ws" "data_reads s = keystrokes ws"
    and "lsr_reads s = replicate n 0x21"
    and "length (keystrokes ws) + length (crlf (banner @ transcript 0 ws)) \<le> n"
  shows "\<exists>u. kmain (length (keystrokes ws)) s = Some u \<and> line_of u = [] \<and>
    port_log u = uart_setup @ wire (banner @ transcript 0 ws)"
proof -
  let ?b = "length (crlf banner)"
  have n: "?b \<le> n" "length (keystrokes ws) + length (crlf (transcript 0 ws)) \<le> n - ?b"
    using assms(5) by (simp_all add: crlf_append)
  obtain m where "console (length (keystrokes ws)) 0 (idle_uart (n - ?b)) (keystrokes ws) [] =
      Some (transcript 0 ws, [], idle_uart m, [])"
    using console_transcript [OF assms(2) n(2)] by blast
  with boot_sessions [OF assms(1), of "length (keystrokes ws)"] skip_ready_replicate [OF n(1)] assms(3,4)
  show ?thesis by auto
qed

subsection \<open>The busy waits end\<close>

text \<open>The statuses that let the transmitter take a byte.\<close>

definition ready_count :: "u8 list \<Rightarrow> nat" where
  "ready_count status = length (filter (\<lambda>l. l AND 0x20 \<noteq> 0) status)"

lemma skip_ready_count:
  "k \<le> ready_count xs \<Longrightarrow> \<exists>ys. skip_ready k xs = Some ys \<and> ready_count ys = ready_count xs - k"
  by (induction k xs rule: skip_ready.induct) (auto simp: ready_count_def)

text \<open>The longest response is that of \<open>info\<close>.\<close>

lemma dec_length: "n < 10 ^ Suc k \<Longrightarrow> length (dec n) \<le> Suc k"
proof (induction k arbitrary: n)
  case (Suc k)
  then have "length (dec (n div 10)) \<le> Suc k" by (intro Suc.IH) auto
  then show ?case by (subst dec.simps) simp
qed (simp add: dec.simps)

lemma response_bound:
  assumes "typable line"
  shows "length (crlf (response line t)) \<le> 171"
proof -
  have line: "list_all printable line" "length line \<le> 159" using assms by (simp_all add: typable_def)
  have "set (drop 5 line) \<subseteq> set line" by (rule set_drop_subset)
  then have "list_all printable (drop 5 line)" using line(1) by (auto simp: list_all_iff)
  then have echo: "length (crlf (drop 5 line @ [LF])) \<le> 171" using line(2) by (simp add: crlf_append crlf_printable) (simp add: crlf_def)
  have "unat t < 10 ^ Suc 9" using unsigned_less [of t, where ?'a = nat] by simp
  then have "length (dec (unat t)) \<le> Suc 9" by (rule dec_length)
  moreover have "length (crlf ''uptime ticks: '') = 14" "length (crlf [LF]) = 2" by code_simp+
  ultimately have uptime: "length (crlf (''uptime ticks: '' @ dec (unat t) @ [LF])) \<le> 171"
    unfolding crlf_append length_append crlf_dec by linarith
  have fixed: "length (crlf ps_text) \<le> 171" "length (crlf uname_text) \<le> 171"
    "length (crlf (''commands: help, info, uname, ps, echo, syscalls, devices, posix, clear, uptime'' @ [LF])) \<le> 171"
    "length (crlf (''NovaOS Phase 3.1 Rapid Kernel prototype'' @ [LF] @
        ''hybrid layers: microkernel core, BSD/POSIX personality, NovaKit drivers'' @ [LF] @
        ''boot: Multiboot kernel with serial command line in QEMU'' @ [LF])) \<le> 171"
    "length (crlf (''implemented syscall ABI: write, uname, getpid, uptime; planned: open/read/close/fork/exec/wait'' @ [LF])) \<le> 171"
    "length (crlf (''novakit registry: console0(com1), cpu0(qemu), bus0(multiboot), blk0(virtio planned)'' @ [LF])) \<le> 171"
    "length (crlf (''POSIX status: command names and uname/getpid/write semantics are present; full POSIX requires BSD VFS/process integration.'' @ [LF])) \<le> 171"
    "length (crlf ([ESC] @ ''[2J'' @ [ESC] @ ''[H'')) \<le> 171" "length (crlf (''unknown command; use help'' @ [LF])) \<le> 171"
    by code_simp+
  show ?thesis unfolding response_def using fixed echo uptime by (simp del: append_Cons append.simps split: if_split)
qed

lemma byte_chr: "byte (chr v) = v"
proof -
  have "unat v < 256" using unsigned_less [of v, where ?'a = nat] by simp
  then have "(of_char (char_of (unat v)) :: nat) = unat v" by (simp add: of_char_of take_bit_nat_eq_self)
  then have "unat (byte (chr v)) = unat v" by (simp add: chr_def)
  then show ?thesis by (simp add: word_unat_eq_iff)
qed

lemma edit_bound:
  assumes line: "typable line" and e: "edit v t line = (line', out)"
  shows "typable line'" "length (crlf out) \<le> 179"
proof -
  have answer: "length (crlf (LF # response line t @ ''nova> '')) \<le> 179"
  proof -
    have "crlf (LF # response line t @ ''nova> '') = crlf [LF] @ crlf (response line t) @ crlf ''nova> ''"
      unfolding crlf_append [symmetric] by simp
    moreover have "length (crlf [LF]) = 2" "length (crlf ''nova> '') = 6" by code_simp+
    ultimately show ?thesis using response_bound [OF line, of t] by simp
  qed
  have erase: "length (crlf ([BS] @ '' '' @ [BS])) \<le> 179" by code_simp
  have one: "length (crlf [chr v]) \<le> 179" by (simp add: crlf_def)
  have short: "typable []" "typable (butlast line)"
    using line by (auto simp: typable_def list_all_iff dest: in_set_butlastD)
  have more: "typable (line @ [chr v])" if "0x20 \<le> v" "v \<le> 0x7E" "length line < 159"
  proof -
    have "byte (chr v) = v" by (rule byte_chr)
    then show ?thesis using that line by (simp add: typable_def printable_def)
  qed
  show "typable line'" "length (crlf out) \<le> 179"
    using e short more line answer erase one by (auto simp: edit_def split: if_splits)
qed

lemma console_returns:
  "typable line \<Longrightarrow> n * 180 \<le> ready_count status \<Longrightarrow> n \<le> length input \<Longrightarrow>
     \<exists>r. console n t status input line = Some r"
proof (induction n t status input line rule: console.induct)
  case (3 n t l status input line)
  have ready: "n * 180 + 179 \<le> ready_count status"
    using "3.prems"(2) by (auto simp: ready_count_def split: if_splits)
  show ?case
  proof (cases "l AND 0x01 = 0")
    case True
    with "3.IH"(1) "3.prems" ready show ?thesis by simp
  next
    case data: False
    obtain v vs where Cons: "input = v # vs" using "3.prems"(3) by (cases input) auto
    obtain line' out where e: "edit v (t + 1) line = (line', out)" by (cases "edit v (t + 1) line")
    note bound = edit_bound [OF "3.prems"(1) e]
    from bound(2) ready have "length (crlf out) \<le> ready_count status" by simp
    then obtain rest where rest: "skip_ready (length (crlf out)) status = Some rest"
      "ready_count rest = ready_count status - length (crlf out)" using skip_ready_count by blast
    have "n * 180 \<le> ready_count rest" using rest(2) ready bound(2) by linarith
    moreover have "n \<le> length vs" using "3.prems"(3) Cons by simp
    ultimately obtain r where "console n (t + 1) rest vs line' = Some r"
      using "3.IH"(2) [OF data Cons e [symmetric] rest(1) bound(1)] by blast
    then show ?thesis using data Cons e rest(1) by (cases r) simp
  qed
qed (auto simp: ready_count_def)

text \<open>
  Claim C14. The kernel does not hang in its busy waits: when the statuses of the UART say often
  enough that the transmitter is free (once per byte of the banner, then 180 times per round, which
  is what the longest response, that of \<open>info\<close>, needs) and a byte is there for every round, every
  number of rounds of \<open>kmain\<close> returns, whatever is typed and however the other statuses fall.
\<close>
theorem boot_rounds_terminate:
  assumes "powered_on s" "length (crlf banner) + n * 180 \<le> ready_count (lsr_reads s)"
    and "n \<le> length (data_reads s)"
  shows "\<exists>u. kmain n s = Some u \<and> ticks u = of_nat n"
proof -
  obtain status where status: "skip_ready (length (crlf banner)) (lsr_reads s) = Some status"
    "ready_count status = ready_count (lsr_reads s) - length (crlf banner)"
    using skip_ready_count [of "length (crlf banner)" "lsr_reads s"] assms(2) by auto
  have "typable []" by (simp add: typable_def)
  moreover have "n * 180 \<le> ready_count status" using status(2) assms(2) by simp
  ultimately obtain r where "console n 0 status (data_reads s) [] = Some r"
    using console_returns assms(3) by blast
  with boot_sessions [OF assms(1), of n] status(1) show ?thesis by (cases r) auto
qed

subsection \<open>Witnesses\<close>

text \<open>A machine at which \<open>ps\<close> and an unknown command are typed.\<close>

definition console_demo :: boot_state where
  "console_demo = power_on\<lparr>lsr_reads := replicate 600 0x21, data_reads := keystrokes [''ps'', ''x'']\<rparr>"

lemma console_demo_on: "powered_on console_demo"
  by (simp add: console_demo_def power_on_def powered_on_def)

theorem boot_session_refines_witness:
  "\<exists>u. kmain 1 console_demo = Some u \<and> line_of u = ''p''"
proof -
  have lsr: "lsr_reads console_demo = replicate 600 0x21" and data: "data_reads console_demo = keystrokes [''ps'', ''x'']"
    by (simp_all add: console_demo_def)
  have len: "length (crlf banner) = 116" by code_simp
  have "map_option (\<lambda>(out, line, _). line) (console 1 0 (replicate 484 0x21) (keystrokes [''ps'', ''x'']) []) = Some ''p''"
    by code_simp
  moreover have "skip_ready (length (crlf banner)) (lsr_reads console_demo) = Some (replicate 484 0x21)"
    unfolding lsr len by (subst skip_ready_replicate) simp_all
  ultimately show ?thesis using boot_session_refines [OF console_demo_on, of 1] data by auto
qed

theorem boot_command_session_witness:
  "\<exists>u. kmain 5 console_demo = Some u \<and> line_of u = [] \<and>
     port_log u = uart_setup @ wire (banner @ ''ps'' @ [LF] @ ps_text @ ''nova> x'' @ [LF] @ ''unknown command; use help'' @ [LF] @ ''nova> '')"
proof -
  have ok: "list_all typable [''ps'', ''x'']" and len: "length (keystrokes [''ps'', ''x'']) = 5"
    and n: "length (keystrokes [''ps'', ''x'']) + length (crlf (banner @ transcript 0 [''ps'', ''x''])) \<le> 600"
    and script: "transcript 0 [''ps'', ''x''] =
      ''ps'' @ [LF] @ ps_text @ ''nova> x'' @ [LF] @ ''unknown command; use help'' @ [LF] @ ''nova> ''"
    by code_simp+
  have "data_reads console_demo = keystrokes [''ps'', ''x'']" "lsr_reads console_demo = replicate 600 0x21"
    by (simp_all add: console_demo_def)
  from boot_command_session [OF console_demo_on ok this n] show ?thesis by (simp only: len script)
qed

theorem boot_rounds_terminate_witness:
  "\<exists>u. kmain 2 console_demo = Some u \<and> ticks u = 2"
proof -
  have len: "length (crlf banner) = 116" by code_simp
  have "length (crlf banner) + 2 * 180 \<le> ready_count (lsr_reads console_demo)"
    unfolding len using ready_status(1) by (simp add: console_demo_def ready_count_def)
  moreover have "2 \<le> length (data_reads console_demo)" by (simp add: console_demo_def)
  ultimately show ?thesis using boot_rounds_terminate [OF console_demo_on, of 2] by simp
qed

end
