(* ===== verification/Nova_Ui.thy ===== *)
theory Nova_Ui
  imports Nova_Interfaces
begin

text \<open>
  The UI boot path of \<open>userland/uimode/desktop/ui_boot_path.c\<close>: the context that leads from the
  serial shell to a desktop or compatibility session, its commands and application launches.

  A pointer argument is an option (\<open>None\<close> is \<open>NULL\<close>), a C string its characters without the final
  zero, and an operation returns its code and the context it was given.
\<close>

datatype nova_ui_mode = NOVA_UI_MODE_TEXT | NOVA_UI_MODE_DESKTOP | NOVA_UI_MODE_COMPAT

record nova_ui_boot_plan =
  plan_mode :: nova_ui_mode
  display_server :: "string option"
  session_manager :: "string option"
  desktop_shell :: "string option"
  compat_shell :: "string option"
  kernel_console_device :: "string option"
  vm_display_device :: "string option"
  auto_start_desktop :: u32
  enable_compat_shell :: u32

record nova_ui_boot_context =
  plan :: nova_ui_boot_plan
  current_mode :: nova_ui_mode
  serial_ready :: int
  userland_ready :: int
  session_started :: int
  desktop_ready :: int
  compat_shell_ready :: int

type_synonym ui_result = "int \<times> nova_ui_boot_context option"

subsection \<open>Operations\<close>

text \<open>\<open>strncmp(value, prefix, strlen(prefix)) == 0\<close>.\<close>

definition ui_starts_with :: "string \<Rightarrow> string \<Rightarrow> bool" where
  "ui_starts_with value prefix \<longleftrightarrow> take (length prefix) value = prefix"

definition is_ui_command :: "string option \<Rightarrow> string \<Rightarrow> bool" where
  "is_ui_command cmd name \<longleftrightarrow> (case cmd of None \<Rightarrow> False | Some c \<Rightarrow> c = name)"

definition nova_ui_boot_prepare ::
  "nova_ui_boot_context option \<Rightarrow> nova_ui_boot_plan option \<Rightarrow> ui_result" where
  "nova_ui_boot_prepare ctx p =
     (case (ctx, p) of
        (Some c, Some q) \<Rightarrow>
          (0, Some (c\<lparr>plan := q, current_mode := plan_mode q, serial_ready := 1, userland_ready := 0,
             session_started := 0, desktop_ready := 0, compat_shell_ready := 0\<rparr>))
      | _ \<Rightarrow> (-1, ctx))"

definition nova_ui_boot_desktop :: "nova_ui_boot_context option \<Rightarrow> ui_result" where
  "nova_ui_boot_desktop ctx =
     (case ctx of None \<Rightarrow> (-1, ctx)
      | Some c \<Rightarrow> (0, Some (c\<lparr>userland_ready := 1, session_started := 1, desktop_ready := 1,
          current_mode := NOVA_UI_MODE_DESKTOP\<rparr>)))"

definition nova_ui_launch_compat_shell :: "nova_ui_boot_context option \<Rightarrow> ui_result" where
  "nova_ui_launch_compat_shell ctx =
     (case ctx of None \<Rightarrow> (-1, ctx)
      | Some c \<Rightarrow>
          if enable_compat_shell (plan c) = 0 \<and> vm_display_device (plan c) = None then (-2, ctx)
          else (0, Some (c\<lparr>compat_shell_ready := 1, current_mode := NOVA_UI_MODE_COMPAT, desktop_ready := 1,
            session_started := 1\<rparr>)))"

definition nova_ui_boot_from_serial_shell :: "nova_ui_boot_context option \<Rightarrow> string option \<Rightarrow> ui_result" where
  "nova_ui_boot_from_serial_shell ctx cmd =
     (case ctx of None \<Rightarrow> (-1, ctx)
      | Some c \<Rightarrow>
          (case cmd of None \<Rightarrow> (-1, ctx)
           | Some s \<Rightarrow>
               if is_ui_command cmd ''desktop'' \<or> ui_starts_with s ''ui desktop'' \<or> ui_starts_with s ''start desktop''
               then nova_ui_boot_desktop (Some (c\<lparr>current_mode := NOVA_UI_MODE_DESKTOP\<rparr>))
               else if is_ui_command cmd ''compat'' \<or> ui_starts_with s ''ui compat'' \<or> ui_starts_with s ''compat shell''
               then nova_ui_launch_compat_shell (Some (c\<lparr>current_mode := NOVA_UI_MODE_COMPAT\<rparr>))
               else if is_ui_command cmd ''text'' \<or> ui_starts_with s ''ui text''
               then (0, Some (c\<lparr>current_mode := NOVA_UI_MODE_TEXT, desktop_ready := 0, compat_shell_ready := 0\<rparr>))
               else (-2, ctx)))"

definition nova_ui_launch_linux_app ::
  "nova_ui_boot_context option \<Rightarrow> string option \<Rightarrow> string option \<Rightarrow> ui_result" where
  "nova_ui_launch_linux_app ctx path args =
     (case (ctx, path) of
        (Some c, Some _) \<Rightarrow>
          if desktop_ready c = 0 then (-2, ctx) else (0, Some (c\<lparr>current_mode := NOVA_UI_MODE_DESKTOP\<rparr>))
      | _ \<Rightarrow> (-1, ctx))"

definition nova_ui_launch_windows_app ::
  "nova_ui_boot_context option \<Rightarrow> string option \<Rightarrow> string option \<Rightarrow> ui_result" where
  "nova_ui_launch_windows_app ctx path args =
     (case (ctx, path) of
        (Some c, Some _) \<Rightarrow>
          if desktop_ready c = 0 then (-2, ctx) else (0, Some (c\<lparr>current_mode := NOVA_UI_MODE_DESKTOP\<rparr>))
      | _ \<Rightarrow> (-1, ctx))"

subsection \<open>Sessions as runs of events\<close>

datatype ui_event =
  Serial "string option" | Boot_desktop | Launch_compat
| Launch_linux "string option" "string option" | Launch_windows "string option" "string option"

fun ui_exec :: "ui_event \<Rightarrow> nova_ui_boot_context \<Rightarrow> ui_result" where
  "ui_exec (Serial cmd) c = nova_ui_boot_from_serial_shell (Some c) cmd"
| "ui_exec Boot_desktop c = nova_ui_boot_desktop (Some c)"
| "ui_exec Launch_compat c = nova_ui_launch_compat_shell (Some c)"
| "ui_exec (Launch_linux path args) c = nova_ui_launch_linux_app (Some c) path args"
| "ui_exec (Launch_windows path args) c = nova_ui_launch_windows_app (Some c) path args"

text \<open>The codes that a session returns, event by event.\<close>

fun ui_run :: "ui_event list \<Rightarrow> nova_ui_boot_context \<Rightarrow> int list" where
  "ui_run [] c = []"
| "ui_run (e # es) c = (case ui_exec e c of (r, Some c') \<Rightarrow> r # ui_run es c' | (r, None) \<Rightarrow> [r])"

inductive ui_step :: "nova_ui_boot_context \<Rightarrow> nova_ui_boot_context \<Rightarrow> bool" where
  event: "ui_exec e c = (r, Some c') \<Longrightarrow> ui_step c c'"

inductive_cases ui_stepE: "ui_step c c'"

definition ui_start :: "nova_ui_boot_context \<Rightarrow> bool" where
  "ui_start c \<longleftrightarrow> (\<exists>raw p. nova_ui_boot_prepare (Some raw) (Some p) = (0, Some c))"

text \<open>What an event asks for.\<close>

datatype request = Want_desktop | Want_compat | Want_text | Want_app | Invalid | Unknown

definition command_request :: "string \<Rightarrow> request" where
  "command_request s =
     (if s = ''desktop'' \<or> ui_starts_with s ''ui desktop'' \<or> ui_starts_with s ''start desktop'' then Want_desktop
      else if s = ''compat'' \<or> ui_starts_with s ''ui compat'' \<or> ui_starts_with s ''compat shell'' then Want_compat
      else if s = ''text'' \<or> ui_starts_with s ''ui text'' then Want_text else Unknown)"

fun request_of :: "ui_event \<Rightarrow> request" where
  "request_of (Serial (Some s)) = command_request s"
| "request_of Boot_desktop = Want_desktop"
| "request_of Launch_compat = Want_compat"
| "request_of (Launch_linux (Some _) _) = Want_app"
| "request_of (Launch_windows (Some _) _) = Want_app"
| "request_of _ = Invalid"

lemma serial_request:
  "nova_ui_boot_from_serial_shell (Some c) (Some s) =
     (case command_request s of
        Want_desktop \<Rightarrow> nova_ui_boot_desktop (Some (c\<lparr>current_mode := NOVA_UI_MODE_DESKTOP\<rparr>))
      | Want_compat \<Rightarrow> nova_ui_launch_compat_shell (Some (c\<lparr>current_mode := NOVA_UI_MODE_COMPAT\<rparr>))
      | Want_text \<Rightarrow> (0, Some (c\<lparr>current_mode := NOVA_UI_MODE_TEXT, desktop_ready := 0, compat_shell_ready := 0\<rparr>))
      | _ \<Rightarrow> (-2, Some c))"
  by (simp add: nova_ui_boot_from_serial_shell_def command_request_def is_ui_command_def)

lemma command_request_range: "command_request s \<in> {Want_desktop, Want_compat, Want_text, Unknown}"
  by (simp add: command_request_def)

subsection \<open>The invariant\<close>

text \<open>A compatibility shell is allowed for this plan.\<close>

definition compat_allowed :: "nova_ui_boot_plan \<Rightarrow> bool" where
  "compat_allowed p \<longleftrightarrow> enable_compat_shell p \<noteq> 0 \<or> vm_display_device p \<noteq> None"

definition ui_inv :: "nova_ui_boot_context \<Rightarrow> bool" where
  "ui_inv c \<longleftrightarrow> serial_ready c = 1 \<and> userland_ready c \<in> {0, 1} \<and> session_started c \<in> {0, 1} \<and>
     desktop_ready c \<in> {0, 1} \<and> compat_shell_ready c \<in> {0, 1} \<and>
     (compat_shell_ready c = 1 \<longrightarrow> desktop_ready c = 1 \<and> compat_allowed (plan c)) \<and>
     (desktop_ready c = 1 \<longrightarrow> session_started c = 1) \<and> (userland_ready c = 1 \<longrightarrow> session_started c = 1)"

lemmas ui_defs = nova_ui_boot_desktop_def nova_ui_launch_compat_shell_def
  nova_ui_launch_linux_app_def nova_ui_launch_windows_app_def

text \<open>Every event by its request.\<close>

lemma ui_exec_cases [case_names desktop compat console app invalid unknown]:
  obtains m where "request_of e = Want_desktop" "ui_exec e c = nova_ui_boot_desktop (Some (c\<lparr>current_mode := m\<rparr>))"
  | m where "request_of e = Want_compat" "ui_exec e c = nova_ui_launch_compat_shell (Some (c\<lparr>current_mode := m\<rparr>))"
  | "request_of e = Want_text"
      "ui_exec e c = (0, Some (c\<lparr>current_mode := NOVA_UI_MODE_TEXT, desktop_ready := 0, compat_shell_ready := 0\<rparr>))"
  | "request_of e = Want_app"
      "ui_exec e c = (if desktop_ready c = 0 then (-2, Some c) else (0, Some (c\<lparr>current_mode := NOVA_UI_MODE_DESKTOP\<rparr>)))"
  | "request_of e = Invalid" "ui_exec e c = (-1, Some c)"
  | "request_of e = Unknown" "ui_exec e c = (-2, Some c)"
proof (cases e rule: request_of.cases)
  case (1 s)
  with command_request_range [of s] that show thesis by (cases "command_request s") (simp_all add: serial_request)
next
  case 2
  with that(1) [of "current_mode c"] show thesis by simp
next
  case 3
  with that(2) [of "current_mode c"] show thesis by simp
qed (use that in \<open>simp_all add: ui_defs nova_ui_boot_from_serial_shell_def\<close>)

lemma ui_exec_total: "\<exists>r c'. ui_exec e c = (r, Some c')"
  by (rule ui_exec_cases [of e c]) (auto simp: ui_defs)

lemma ui_exec_inv:
  assumes "ui_inv c" "ui_exec e c = (r, Some c')"
  shows "ui_inv c' \<and> plan c' = plan c"
  by (rule ui_exec_cases [of e c]) (use assms in \<open>auto simp: ui_defs ui_inv_def compat_allowed_def split: if_splits\<close>)

interpretation ui_machine: invariant_machine ui_start ui_step ui_inv
proof unfold_locales
  show "ui_start c \<Longrightarrow> ui_inv c" for c by (auto simp: ui_start_def nova_ui_boot_prepare_def ui_inv_def)
  show "ui_inv c \<Longrightarrow> ui_step c c' \<Longrightarrow> ui_inv c'" for c c' by (auto elim: ui_stepE dest: ui_exec_inv)
qed

text \<open>
  Claim C33. In every context that commands and launches reach from a prepared one, in any order: the
  flags are 0 or 1, the serial console is ready, a ready compatibility shell means that the desktop
  is ready and that the plan allows such a shell, and a ready desktop that a session was started.
\<close>
theorem ui_flags_consistent:
  assumes "reach ui_start ui_step c"
  shows "ui_inv c"
  by (rule ui_machine.reach_inv [OF assms])

subsection \<open>The abstract session\<close>

text \<open>What a session amounts to: only the console, a desktop, or a desktop with the compatibility
  shell.\<close>

datatype phase = Console | Desktop | Compat

text \<open>The specification: the code and the next phase, for a plan that allows the shell or not.\<close>

fun phase_step :: "bool \<Rightarrow> request \<Rightarrow> phase \<Rightarrow> int \<times> phase" where
  "phase_step ok Want_desktop p = (0, if p = Console then Desktop else p)"
| "phase_step ok Want_compat p = (if ok then (0, Compat) else (-2, p))"
| "phase_step ok Want_text p = (0, Console)"
| "phase_step ok Want_app p = (if p = Console then -2 else 0, p)"
| "phase_step ok Invalid p = (-1, p)"
| "phase_step ok Unknown p = (-2, p)"

fun phase_run :: "bool \<Rightarrow> ui_event list \<Rightarrow> phase \<Rightarrow> int list" where
  "phase_run ok [] p = []"
| "phase_run ok (e # es) p = (case phase_step ok (request_of e) p of (r, p') \<Rightarrow> r # phase_run ok es p')"

definition phase_of :: "nova_ui_boot_context \<Rightarrow> phase" where
  "phase_of c = (if compat_shell_ready c = 1 then Compat else if desktop_ready c = 1 then Desktop else Console)"

lemma ui_exec_refines:
  assumes "ui_inv c" "ui_exec e c = (r, Some c')"
  shows "phase_step (compat_allowed (plan c)) (request_of e) (phase_of c) = (r, phase_of c')"
  by (rule ui_exec_cases [of e c])
    (use assms in \<open>auto simp: ui_defs phase_of_def ui_inv_def compat_allowed_def split: if_splits\<close>)

lemma ui_run_refines: "ui_inv c \<Longrightarrow> ui_run es c = phase_run (compat_allowed (plan c)) es (phase_of c)"
proof (induction es arbitrary: c)
  case (Cons e es)
  obtain r c' where exec: "ui_exec e c = (r, Some c')" using ui_exec_total by blast
  with ui_exec_inv [OF Cons.prems] ui_exec_refines [OF Cons.prems] Cons.IH [of c'] show ?case by simp
qed simp

text \<open>
  Claim C22. A whole session refines the three-phase specification: for every plan and every sequence of
  serial commands, direct calls and launches, the codes returned are those of the specification
  started in the console phase.  In particular an application launch succeeds exactly when the last
  desktop or permitted compatibility request came after the last request for text mode.
\<close>
theorem ui_session_refines:
  assumes "nova_ui_boot_prepare (Some raw) (Some p) = (0, Some c)"
  shows "ui_run es c = phase_run (compat_allowed p) es Console"
proof -
  have "ui_inv c" using assms by (auto simp: nova_ui_boot_prepare_def ui_inv_def)
  moreover have "plan c = p" "phase_of c = Console" using assms by (auto simp: nova_ui_boot_prepare_def phase_of_def)
  ultimately show ?thesis using ui_run_refines by metis
qed

text \<open>
  A compatibility command that the plan does not allow is refused with -2 but still changes the
  current mode: a running desktop session reports the compatibility mode although no compatibility
  shell was started.
\<close>
lemma ui_refused_compat_changes_mode:
  assumes "\<not> compat_allowed (plan c)"
  shows "nova_ui_boot_from_serial_shell (Some c) (Some ''compat'') =
    (-2, Some (c\<lparr>current_mode := NOVA_UI_MODE_COMPAT\<rparr>))"
  using assms by (simp add: serial_request command_request_def ui_starts_with_def ui_defs compat_allowed_def)

subsection \<open>Witnesses\<close>

definition demo_plan :: nova_ui_boot_plan where
  "demo_plan = \<lparr>plan_mode = NOVA_UI_MODE_TEXT, display_server = None, session_manager = None,
     desktop_shell = None, compat_shell = None, kernel_console_device = None, vm_display_device = None,
     auto_start_desktop = 1, enable_compat_shell = 0\<rparr>"

definition demo_ctx :: nova_ui_boot_context where
  "demo_ctx = \<lparr>plan = demo_plan, current_mode = NOVA_UI_MODE_TEXT, serial_ready = 1, userland_ready = 0,
     session_started = 0, desktop_ready = 0, compat_shell_ready = 0\<rparr>"

lemma demo_prepare: "nova_ui_boot_prepare (Some demo_ctx) (Some demo_plan) = (0, Some demo_ctx)"
  by (simp add: nova_ui_boot_prepare_def demo_ctx_def demo_plan_def)

theorem ui_flags_consistent_witness: "ui_inv demo_ctx"
proof (rule ui_flags_consistent)
  have "ui_start demo_ctx" using demo_prepare by (auto simp: ui_start_def)
  then show "reach ui_start ui_step demo_ctx" by (rule reach_start)
qed

theorem ui_session_refines_witness:
  "ui_run [Launch_linux (Some ''a'') None, Serial (Some ''ui desktop''), Launch_linux (Some ''a'') None,
     Serial (Some ''text''), Launch_windows (Some ''b'') None] demo_ctx = [-2, 0, 0, 0, -2]"
  unfolding ui_session_refines [OF demo_prepare] by code_simp

end
