(* ===== verification/Nova_Module.thy ===== *)
theory Nova_Module
  imports Nova_Interfaces
begin

text \<open>
  The kernel module of \<open>kernel/modules/nova_core/nova_core.c\<close>: its event handler and the record that
  registers it.  The event numbers and the error code come from the headers of the host kernel, so
  they are arguments; what \<open>uprintf\<close> prints is appended to a console text.
\<close>

record 'h moduledata =
  md_name :: string
  md_evhand :: 'h
  md_priv :: "nat option"

datatype module_handler = Nova_core_modevent

definition nova_core_modevent :: "int \<Rightarrow> int \<Rightarrow> int \<Rightarrow> int \<Rightarrow> string \<Rightarrow> int \<times> string" where
  "nova_core_modevent MOD_LOAD MOD_UNLOAD EOPNOTSUPP event out =
     (if event = MOD_LOAD then (0, out @ ''NovaOS core module loaded'' @ [CHR 0x0A])
      else if event = MOD_UNLOAD then (0, out @ ''NovaOS core module unloaded'' @ [CHR 0x0A])
      else (EOPNOTSUPP, out))"

definition nova_core_data :: "module_handler moduledata" where
  "nova_core_data = \<lparr>md_name = ''nova_core'', md_evhand = Nova_core_modevent, md_priv = None\<rparr>"

text \<open>The events a module loader delivers, and the one line that each of the two known ones prints.\<close>

definition module_line :: "int \<Rightarrow> int \<Rightarrow> int \<Rightarrow> string" where
  "module_line load unload event =
     (if event = load then ''NovaOS core module loaded'' @ [CHR 0x0A]
      else if event = unload then ''NovaOS core module unloaded'' @ [CHR 0x0A] else [])"

text \<open>Any sequence of events is answered event by event, and prints the lines of its loads and unloads.\<close>

lemma module_events:
  assumes "unsupported \<noteq> 0"
  shows "call_run (\<lambda>e out. Some (nova_core_modevent load unload unsupported e out)) events out =
    Some (map (\<lambda>e. if e = load \<or> e = unload then 0 else unsupported) events,
      out @ concat (map (module_line load unload) events))"
  by (induction events arbitrary: out) (simp_all add: nova_core_modevent_def module_line_def)

end
