(* ===== verification/Nova_Host_Tests.thy ===== *)
theory Nova_Host_Tests
  imports Nova_Scheduler Nova_Ipc Nova_Vm Novakit_Registry Nova_Linuxkpi Nova_Sockets
begin

text \<open>
  The host programs of the tree, which drive the components the way a client does:
  \<open>kernel/core/host_test.c\<close>, \<open>kernel/novakit/host_test.c\<close>, \<open>kernel/network/host_test.c\<close> and
  \<open>drivers/linuxkpi/example_module.c\<close>.  A failing \<open>assert\<close> is \<open>None\<close>, like undefined behaviour in
  the code under test.  Local variables that C leaves uninitialised are arguments.  The theory shows
  that the programs end with status 0 whatever these hold, and what the network program leaves
  behind.
\<close>

definition check :: "bool \<Rightarrow> unit option" where
  "check b = (if b then Some () else None)"

lemma check_simps [simp]: "check True = Some ()" "check False = None"
  by (simp_all add: check_def)

subsection \<open>The core\<close>

definition test_scheduler :: "nova_scheduler_t \<Rightarrow> unit option" where
  "test_scheduler raw = do {
     let scheduler = nova_sched_init raw;
     let (r1, s1, out1) = nova_sched_add scheduler 10;
     check (r1 = NOVA_OK);
     low_priority \<leftarrow> out1;
     let (r2, s2, out2) = nova_sched_add s1 50;
     check (r2 = NOVA_OK);
     high_priority \<leftarrow> out2;
     check (nova_sched_pick_next s2 = sint high_priority);
     let s3 = nova_sched_account s2 high_priority;
     let (r4, s4) = nova_sched_set_state s3 high_priority NOVA_THREAD_BLOCKED;
     check (r4 = NOVA_OK);
     check (nova_sched_pick_next s4 = sint low_priority) }"

definition hello :: "u8 list" where
  "hello = map of_char (''hello from ipc'' @ [NUL])"

definition test_ipc :: "nova_ipc_endpoint_t \<Rightarrow> unit option" where
  "test_ipc raw = do {
     let e0 = nova_ipc_endpoint_init raw;
     let (r1, e1, out1) = nova_ipc_receive e0;
     check (r1 = NOVA_EMPTY);
     let (r2, e2) = nova_ipc_send e1 7 hello (length hello);
     check (r2 = NOVA_OK);
     let (r3, e3, out3) = nova_ipc_receive e2;
     check (r3 = NOVA_OK);
     message \<leftarrow> out3;
     check (msg_sender message = 7);
     check (unat (msg_length message) = length hello);
     check (take (length hello) (msg_payload message) = hello) }"

definition test_vm :: "nova_page_allocator_t \<Rightarrow> nova_address_space_t \<Rightarrow> unit option" where
  "test_vm raw_allocator raw_space = do {
     let a0 = nova_vm_init raw_allocator;
     let (r1, a1, out1) = nova_vm_alloc_page a0;
     check (r1 = NOVA_OK);
     physical \<leftarrow> out1;
     let s0 = nova_vm_address_space_init raw_space;
     let (r2, s1) = nova_vm_map s0 0x1000 physical 1;
     check (r2 = NOVA_OK);
     let (r3, out3) = nova_vm_translate s1 0x1000;
     check (r3 = NOVA_OK);
     (translated, wr) \<leftarrow> out3;
     check (translated = physical);
     check (wr = 1);
     let (r4, a2) = nova_vm_free_page a1 physical;
     check (r4 = NOVA_OK) }"

definition core_main ::
  "nova_scheduler_t \<Rightarrow> nova_ipc_endpoint_t \<Rightarrow> nova_page_allocator_t \<Rightarrow> nova_address_space_t \<Rightarrow> int option" where
  "core_main scheduler endpoint allocator space = do {
     test_scheduler scheduler;
     test_ipc endpoint;
     test_vm allocator space;
     Some 0 }"

text \<open>Adding to a table whose first \<open>n\<close> slots are the live ones takes slot \<open>n\<close>.\<close>

lemma add_next_slot:
  assumes wf: "sched_wf s" and live: "live_slots s = {..<n}" and n: "n < NOVA_MAX_THREADS"
  obtains s' where "nova_sched_add s p = (NOVA_OK, s', Some (slot_id n))" "sched_wf s'"
    "live_slots s' = {..<Suc n}" "threads s' = (threads s)[n := new_thread p (slot_id n)]"
  using wf
proof (cases rule: add_cases [of s p])
  case full
  with live n have "n \<in> {..<n}" by blast
  then show ?thesis by simp
next
  case (added i)
  then have "\<not> i < n" "\<not> n < i" using live added(3) [of n] by auto
  then have i: "i = n" by simp
  let ?s' = "s\<lparr>threads := (threads s)[n := new_thread p (slot_id n)], sched_count := sched_count s + 1\<rparr>"
  have "live_slots ?s' = insert n (live_slots s)"
    using live_slots_set_slot [of n s ?s' "new_thread p (slot_id n)"] n wf by (simp add: sched_wf_def)
  then have "live_slots ?s' = {..<Suc n}" using live by (simp add: lessThan_Suc)
  moreover have "sched_wf ?s'" using sched_wf_add [OF wf, of p] added(4) i by simp
  ultimately show ?thesis using that [of ?s'] added(4) i by simp
qed

text \<open>A runnable thread whose priority exceeds that of all others is the one picked.\<close>

lemma pick_highest:
  assumes wf: "sched_wf s" and run: "runnable s i"
    and high: "\<And>j. runnable s j \<Longrightarrow> j \<noteq> i \<Longrightarrow> th_priority (threads s ! j) < th_priority (threads s ! i)"
  shows "nova_sched_pick_next s = int i + 1"
  using wf
proof (cases rule: pick_next_cases)
  case idle
  with run show ?thesis by blast
next
  case (picked k)
  have "k = i"
  proof (rule ccontr)
    assume "k \<noteq> i"
    with high picked(1) have "th_priority (threads s ! k) < th_priority (threads s ! i)" by blast
    moreover have "preferred (threads s) k i" using picked(2) run by blast
    ultimately show False by (auto simp: preferred_def)
  qed
  with picked(3) show ?thesis by simp
qed

lemma runnable_live: "runnable s i \<Longrightarrow> i \<in> live_slots s"
  by (simp add: runnable_def live_slots_def)

lemma test_scheduler_passes:
  assumes "length (threads raw) = NOVA_MAX_THREADS"
  shows "test_scheduler raw = Some ()"
proof -
  let ?s0 = "nova_sched_init raw"
  have wf0: "sched_wf ?s0" and empty: "live_slots ?s0 = {..<0}" using sched_wf_init [OF assms] by auto
  obtain s1 where s1: "nova_sched_add ?s0 10 = (NOVA_OK, s1, Some (slot_id 0))" "sched_wf s1"
    "live_slots s1 = {..<Suc 0}" "threads s1 = (threads ?s0)[0 := new_thread 10 (slot_id 0)]"
    by (rule add_next_slot [OF wf0 empty]) simp
  obtain s2 where s2: "nova_sched_add s1 50 = (NOVA_OK, s2, Some (slot_id (Suc 0)))" "sched_wf s2"
    "live_slots s2 = {..<Suc (Suc 0)}" "threads s2 = (threads s1)[Suc 0 := new_thread 50 (slot_id (Suc 0))]"
    by (rule add_next_slot [OF s1(2,3)]) simp
  have len: "length (threads ?s0) = NOVA_MAX_THREADS" "length (threads s2) = NOVA_MAX_THREADS"
    using wf0 s2(2) by (simp_all add: sched_wf_def)
  have t: "threads s2 ! 0 = new_thread 10 (slot_id 0)" "threads s2 ! Suc 0 = new_thread 50 (slot_id (Suc 0))"
    using len by (simp_all add: s1(4) s2(4))
  have pick2: "nova_sched_pick_next s2 = sint (slot_id (Suc 0))"
  proof -
    have "nova_sched_pick_next s2 = int (Suc 0) + 1"
    proof (rule pick_highest [OF s2(2)])
      show "runnable s2 (Suc 0)" using t by (simp add: runnable_def)
      show "th_priority (threads s2 ! j) < th_priority (threads s2 ! Suc 0)" if "runnable s2 j" "j \<noteq> Suc 0" for j
        using runnable_live [OF that(1)] that(2) t s2(3) by (auto simp: less_Suc_eq)
    qed
    then show ?thesis by (simp add: sint_slot_id)
  qed
  let ?t3 = "(threads s2 ! Suc 0)\<lparr>th_quanta := 1\<rparr>"
  let ?s3 = "s2\<lparr>threads := (threads s2)[Suc 0 := ?t3], sched_tick := sched_tick s2 + 1\<rparr>"
  let ?s4 = "?s3\<lparr>threads := (threads ?s3)[Suc 0 := ?t3\<lparr>th_state := NOVA_THREAD_BLOCKED\<rparr>]\<rparr>"
  have id: "slot_id (Suc 0) \<noteq> 0" "unat (slot_id (Suc 0)) = Suc (Suc 0)"
    by (simp_all add: slot_id_nonzero unat_slot_id)
  have acc: "nova_sched_account s2 (slot_id (Suc 0)) = ?s3"
    using id t(2) by (simp add: nova_sched_account_def Let_def)
  have set: "nova_sched_set_state ?s3 (slot_id (Suc 0)) NOVA_THREAD_BLOCKED = (NOVA_OK, ?s4)"
    using id t(2) len(2) by (simp add: nova_sched_set_state_def Let_def)
  have wf4: "sched_wf ?s4"
    using sched_wf_set_state [OF sched_wf_account [OF s2(2)]] acc set by (metis snd_conv)
  have "nova_sched_pick_next ?s4 = int 0 + 1"
  proof (rule pick_highest [OF wf4])
    show "runnable ?s4 0" using t by (simp add: runnable_def)
    have "runnable ?s4 j \<Longrightarrow> runnable s2 j \<and> j \<noteq> Suc 0" for j
      using len(2) by (auto simp: runnable_def nth_list_update split: if_splits)
    then have "runnable ?s4 j \<Longrightarrow> j = 0" for j using runnable_live [of s2 j] s2(3) by (auto simp: less_Suc_eq)
    then show "th_priority (threads ?s4 ! j) < th_priority (threads ?s4 ! 0)" if "runnable ?s4 j" "j \<noteq> 0" for j
      using that by blast
  qed
  then have "nova_sched_pick_next ?s4 = sint (slot_id 0)" by (simp add: sint_slot_id)
  with s1(1) s2(1) pick2 acc set show ?thesis by (simp add: test_scheduler_def)
qed

lemma test_ipc_passes:
  assumes "length (messages raw) = NOVA_IPC_QUEUE_LENGTH" "\<forall>i < NOVA_IPC_QUEUE_LENGTH. msg_wf (messages raw ! i)"
  shows "test_ipc raw = Some ()"
proof -
  let ?e = "nova_ipc_endpoint_init raw"
  have wf: "ep_wf ?e" and empty: "ep_contents ?e = []" using ep_wf_init [OF assms] by auto
  have count: "ep_count ?e = 0" by (simp add: nova_ipc_endpoint_init_def)
  have len: "length hello = 15" by (simp add: hello_def)
  obtain e2 where e2: "nova_ipc_send ?e 7 hello 15 = (NOVA_OK, e2)" "ep_wf e2"
    "ep_contents e2 = ep_contents ?e @ [(7, take 15 hello)]" "ep_count e2 = Suc (ep_count ?e)"
    by (rule send_ok [OF wf, of 15 hello 7]) (simp_all add: len count)
  obtain e3 where e3: "nova_ipc_receive e2 = (NOVA_OK, e3, Some (messages e2 ! ep_head e2))"
    "ep_contents e2 = msg_view (messages e2 ! ep_head e2) # ep_contents e3"
    by (rule receive_ok [OF e2(2)]) (simp_all add: e2(4))
  let ?m = "messages e2 ! ep_head e2"
  have "msg_view ?m = (7, hello)" using e3(2) e2(3) empty len by simp
  then have view: "msg_sender ?m = 7" "take (unat (msg_length ?m)) (msg_payload ?m) = hello"
    by (simp_all add: msg_view_def)
  have "length (msg_payload ?m) = NOVA_IPC_PAYLOAD_SIZE" using e2(2) by (simp add: ep_wf_def msg_wf_def)
  then have "unat (msg_length ?m) = 15" using arg_cong [OF view(2), of length] len by simp
  with view e2(1) e3(1) count show ?thesis
    by (simp add: test_ipc_def nova_ipc_receive_def [of ?e] len)
qed

lemma test_vm_passes:
  assumes "length (allocated raw_a) = NOVA_VM_MAX_PAGES" "length (mappings raw_s) = NOVA_MAX_MAPPINGS"
  shows "test_vm raw_a raw_s = Some ()"
proof -
  let ?a = "nova_vm_init raw_a" and ?sp = "nova_vm_address_space_init raw_s"
  have wfa: "pages_wf ?a" "used_pages ?a = {}" using pages_init [OF assms(1)] by auto
  have wfs: "space_wf ?sp"
    using assms(2) by (simp add: space_wf_def nova_vm_address_space_init_def space_alist_def)
  show ?thesis
  proof (cases rule: alloc_page_cases [of ?a])
    case full
    then have "(0::nat) \<in> {}" using wfa(2) by (metis lessThan_iff zero_less_numeral)
    then show ?thesis by simp
  next
    case (got i)
    let ?a1 = "?a\<lparr>allocated := (allocated ?a)[i := 1]\<rparr>" and ?p = "of_nat i :: u32"
    have free: "\<exists>a2. nova_vm_free_page ?a1 ?p = (NOVA_OK, a2)"
      using got(1) wfa(1) by (simp add: nova_vm_free_page_def pages_wf_def)
    have none: "space_alist ?sp = []" by (simp add: space_alist_def nova_vm_address_space_init_def)
    have "\<exists>s1. nova_vm_map ?sp 0x1000 ?p 1 = (NOVA_OK, s1) \<and> space_lookup s1 0x1000 = Some (?p, 1)"
      using wfs
    proof (cases rule: vm_map_cases [of ?sp "0x1000" ?p 1])
      case (added s1)
      then show ?thesis using none by (simp add: space_lookup_alist)
    qed (simp_all add: none nova_vm_address_space_init_def)
    then obtain s1 where s1: "nova_vm_map ?sp 0x1000 ?p 1 = (NOVA_OK, s1)"
      "nova_vm_translate s1 0x1000 = (NOVA_OK, Some (?p, 1))"
      by (auto simp: space_lookup_def nova_vm_translate_def split: option.splits)
    with got(4) free show ?thesis by (auto simp: test_vm_def)
  qed
qed

lemma core_main_passes:
  assumes "length (threads scheduler) = NOVA_MAX_THREADS" "length (messages endpoint) = NOVA_IPC_QUEUE_LENGTH"
    "\<forall>i < NOVA_IPC_QUEUE_LENGTH. msg_wf (messages endpoint ! i)"
    "length (allocated allocator) = NOVA_VM_MAX_PAGES" "length (mappings space) = NOVA_MAX_MAPPINGS"
  shows "core_main scheduler endpoint allocator space = Some 0"
  using test_scheduler_passes [OF assms(1)] test_ipc_passes [OF assms(2,3)] test_vm_passes [OF assms(4,5)]
  by (simp add: core_main_def)

subsection \<open>NovaKit and LinuxKPI\<close>

definition novakit_main :: "novakit_registry_t \<Rightarrow> int option" where
  "novakit_main raw = do {
     let r0 = novakit_registry_init raw;
     let (c1, r1, out1) = novakit_register_device r0 0x1AF4 0x1000 NOVAKIT_NETWORK ''virtio-net'';
     check (c1 = 0);
     device_id \<leftarrow> out1;
     let (c2, r2) = novakit_set_state r1 device_id NOVAKIT_ATTACHED;
     check (c2 = 0);
     device \<leftarrow> novakit_find r2 device_id;
     check (nk_state device = NOVAKIT_ATTACHED);
     check (nk_class device = NOVAKIT_NETWORK);
     check (cstr (nk_name device) = ''virtio-net'');
     Some 0 }"

lemma novakit_main_passes: "novakit_main raw = Some 0"
proof -
  have "novakit_main raw = novakit_main raw_registry" by (simp add: novakit_main_def novakit_registry_init_def)
  also have "\<dots> = Some 0" by code_simp
  finally show ?thesis .
qed

definition example_module :: nova_linuxkpi_module_t where
  "example_module = \<lparr>mod_name = Some ''nova-linuxkpi-example'', mod_license = Some ''GPL-2.0-or-later'',
     mod_upstream_revision = Some ''not-vendored''\<rparr>"

definition linuxkpi_main :: "linuxkpi_state \<Rightarrow> int \<times> linuxkpi_state" where
  "linuxkpi_main s =
     (let (r, t) = nova_linuxkpi_register (Some example_module) s
      in (if r = 0 \<and> nova_linuxkpi_module_count t = 1 then 0 else 1, t))"

lemma linuxkpi_main_passes: "fst (linuxkpi_main linuxkpi_start) = 0"
  by code_simp

subsection \<open>The network\<close>

text \<open>The block that both halves of the network test repeat: allocate a packet of \<open>n\<close> bytes, fill it
  with the byte \<open>v\<close>, address it to a device and queue it.\<close>

definition transmit :: "u8 \<Rightarrow> nat \<Rightarrow> dev_addr \<Rightarrow> net_state \<Rightarrow> net_state option" where
  "transmit v n dev s = do {
     (skb, s1) \<leftarrow> nova_alloc_skb n s;
     a \<leftarrow> skb;
     k \<leftarrow> get_skb a s1;
     data \<leftarrow> skb_data k;
     s2 \<leftarrow> (case cells (net_heap s1) data of
              Some (Bytes bs) \<Rightarrow>
                if n \<le> length bs
                then Some (s1\<lparr>net_heap := store data (Bytes (replicate n v @ drop n bs)) (net_heap s1)\<rparr>)
                else None
            | _ \<Rightarrow> None);
     (r, s3) \<leftarrow> nova_dev_queue_xmit (Some a) (put_skb a (k\<lparr>skb_len := n, skb_dev := Some dev\<rparr>) s2);
     check (r = 0);
     Some s3 }"

definition network_main :: "net_state \<Rightarrow> (int \<times> net_state) option" where
  "network_main s = do {
     let s0 = snd (nova_network_init s);
     (r1, s1) \<leftarrow> nova_loopback_init s0;
     check (r1 = 0);
     found_lo \<leftarrow> nova_netdev_find (Some ''lo'') s1;
     lo \<leftarrow> found_lo;
     check (nd_flags (devices s1 lo) AND NOVA_IFF_LOOPBACK \<noteq> 0);
     (fd, s2) \<leftarrow> nova_socket 2 1 6 s1;
     check (0 \<le> fd);
     (r3, s3) \<leftarrow> nova_bind fd s2;
     check (r3 = 0);
     (r4, s4) \<leftarrow> nova_connect fd s3;
     check (r4 = 0);
     s5 \<leftarrow> transmit (of_char (CHR ''A'')) 32 lo s4;
     check (1 \<le> rx_packets (nd_stats (devices s5 lo)));
     (r6, s6) \<leftarrow> nova_close fd s5;
     check (r6 = 0);
     (r7, s7) \<leftarrow> nova_nic_stub_init s6;
     check (r7 = 0);
     found_nic \<leftarrow> nova_netdev_find (Some ''nic0'') s7;
     nic \<leftarrow> found_nic;
     check (nd_flags (devices s7 nic) AND NOVA_IFF_UP \<noteq> 0);
     s8 \<leftarrow> transmit (of_char (CHR ''B'')) 20 nic s7;
     check (1 \<le> tx_packets (nd_stats (devices s8 nic)));
     Some (0, s8) }"

text \<open>A transmission is the packet half of a send.\<close>

lemma transmit_send:
  assumes "send_skb (replicate n v) n dev s = Some (ssize_of n, t)" "ssize_of n \<noteq> -1"
  shows "transmit v n dev s = Some t"
  using assms
  by (auto simp: send_skb_def transmit_def memcpy_def Let_def check_def split: option.splits if_splits
      net_obj.splits bind_splits)

text \<open>No allocation fails, now or later.\<close>

definition memory_ok :: "net_state \<Rightarrow> bool" where
  "memory_ok s \<longleftrightarrow> (\<forall>i. \<not> calloc_fails (net_heap s) i)"

lemma calloc_fails_heap [simp]:
  "calloc_fails (snd (calloc obj h)) = calloc_fails h" "calloc_fails (store a obj h) = calloc_fails h"
  by (simp_all add: calloc_def store_def)

lemma calloc_fails_free: "free p h = Some h' \<Longrightarrow> calloc_fails h' = calloc_fails h"
  by (auto simp: free_def split: option.splits)

lemma memory_ok_sel [simp]:
  "memory_ok (put_skb a k s) = memory_ok s" "memory_ok (put_sock a ks s) = memory_ok s"
  "memory_ok (upd_dev d f s) = memory_ok s"
  by (simp_all add: memory_ok_def)

lemma memory_ok_heap: "memory_ok s \<Longrightarrow> calloc_fails h = calloc_fails (net_heap s) \<Longrightarrow> memory_ok (s\<lparr>net_heap := h\<rparr>)"
  by (simp add: memory_ok_def)

lemma alloc_skb_memory: "memory_ok s \<Longrightarrow> nova_alloc_skb sz s = Some (r, t) \<Longrightarrow> memory_ok t"
  by (auto simp: nova_alloc_skb_def memory_ok_def calloc_def Let_def dest: calloc_fails_free
      split: option.splits bind_splits)

lemma free_skb_memory: "memory_ok s \<Longrightarrow> nova_free_skb p s = Some t \<Longrightarrow> memory_ok t"
  by (auto simp: nova_free_skb_def memory_ok_def dest!: calloc_fails_free split: option.splits bind_splits)

lemma receive_memory: "memory_ok s \<Longrightarrow> nova_netif_receive_skb p s = Some (r, t) \<Longrightarrow> memory_ok t"
  by (auto simp: nova_netif_receive_skb_def Let_def split: option.splits bind_splits)

lemma queue_xmit_memory:
  assumes "memory_ok s" "nova_dev_queue_xmit p s = Some (r, t)"
  shows "memory_ok t"
proof -
  have "memory_ok t" if "call_xmit_fn f d p s = Some (r, t)" for f d
    using that assms(1)
    by (cases f) (auto simp: lo_start_xmit_def nic_start_xmit_def Let_def 
        dest: receive_memory [rotated] free_skb_memory [rotated] split: option.splits bind_splits)
  then show ?thesis using assms by (auto simp: nova_dev_queue_xmit_def split: option.splits bind_splits)
qed

lemma transmit_memory:
  assumes "memory_ok s" "transmit v n d s = Some t"
  shows "memory_ok t"
proof -
  obtain a s1 k bs data r where "nova_alloc_skb n s = Some (Some a, s1)"
    "nova_dev_queue_xmit (Some a) (put_skb a k (s1\<lparr>net_heap := store data bs (net_heap s1)\<rparr>)) = Some (r, t)"
    using assms(2)
    by (auto simp: transmit_def Let_def check_def split: option.splits bind_splits net_obj.splits if_splits)
  with assms(1) show ?thesis by (auto dest: alloc_skb_memory intro!: memory_ok_heap elim!: queue_xmit_memory [rotated])
qed

lemma socket_made:
  assumes up: "net_up s" "memory_ok s" and room: "g_next_socket_fd s < NOVA_SOCKET_TABLE_SIZE"
    and args: "af_of_int domain = Some af" "sock_type_of_int ty = Some st"
    and lo: "nova_netdev_find (Some ''lo'') s = Some dev"
  obtains t a where "nova_socket domain ty protocol s = Some (int (g_next_socket_fd s), t)" "net_up t" "memory_ok t"
    "devices t = devices s" "g_nova_netdev_registry t = g_nova_netdev_registry s"
    "nova_socket_lookup (int (g_next_socket_fd s)) t = Some a" "get_sock a t = Some (fresh_sock af st protocol dev)"
    "a \<notin> dom (cells (net_heap s))" "dom (cells (net_heap t)) = insert a (dom (cells (net_heap s)))"
proof -
  have wf: "net_wf s" and init: "g_network_initialized s" using up by (simp_all add: net_up_def)
  have swf: "heap_wf (net_heap s)" "length (g_socket_table s) = 64" "1 \<le> g_next_socket_fd s"
    using wf by (simp_all add: net_wf_def sock_wf_def)
  let ?h = "net_heap s" let ?a = "next_addr ?h" let ?fd = "g_next_socket_fd s"
  let ?t = "s\<lparr>net_heap := store ?a (Sock (fresh_sock af st protocol dev)) (snd (calloc (Sock zero_sock) ?h)),
    g_next_socket_fd := ?fd + 1, g_socket_table := (g_socket_table s)[?fd := Some ?a]\<rparr>"
  have made: "nova_socket domain ty protocol s = Some (int ?fd, ?t)"
    using up(2) args room lo init
    by (simp add: nova_socket_def calloc_ok memory_ok_def fresh_sock_def put_sock_def Let_def)
  have "net_wf ?t" using nova_socket_wf [OF wf, of domain ty protocol] made by simp
  then have "net_up ?t" using init by (simp add: net_up_def)
  moreover have "memory_ok ?t" using up(2) by (simp add: memory_ok_def)
  moreover have "nova_socket_lookup (int ?fd) ?t = Some ?a" using room swf by (simp add: nova_socket_lookup_def)
  moreover have "?a \<notin> dom (cells ?h)" using heap_wf_fresh [OF swf(1)] by (simp add: domIff)
  moreover have "dom (cells (net_heap ?t)) = insert ?a (dom (cells ?h))"
    using up(2) by (auto simp: calloc_ok memory_ok_def store_def)
  ultimately show ?thesis using made by (intro that [of ?t ?a]) (simp_all add: get_sock_def)
qed

text \<open>A transmission over either device, when memory does not run out.\<close>

lemma transmit_lo:
  assumes up: "net_up s" "memory_ok s" and hook: "xmit_hook d s = Some Lo_start_xmit" and n: "0 < n" "n < 2 ^ 63"
  obtains t m where "transmit v n d s = Some t" "net_up t" "memory_ok t"
    "devices t = (devices s)(d := count_rx n (count_rx n (count_tx n (devices s d))))"
    "g_nova_netdev_registry t = g_nova_netdev_registry s" "g_socket_table t = g_socket_table s"
    "m \<notin> dom (cells (net_heap s))" "Suc m \<notin> dom (cells (net_heap s))"
    "cells (net_heap t) = (cells (net_heap s))(m \<mapsto> Skb ((new_skb (Suc m) n)\<lparr>skb_dev := Some d\<rparr>),
       Suc m \<mapsto> Bytes (replicate n v))"
proof -
  have wf: "sock_wf s" "netdev_wf s" "heap_wf (net_heap s)" "g_network_initialized s"
    using up(1) by (simp_all add: net_up_def net_wf_def sock_wf_def)
  have ok: "\<not> skb_oom s" using up(2) by (simp add: skb_oom_def memory_ok_def)
  have len: "0 < n \<and> n \<le> length (replicate n v)" using n by simp
  have small: "ssize_of n \<noteq> -1" using ssize_of_small [OF n(2)] by simp
  from wf(3) hook len show ?thesis
  proof (cases rule: send_skb_cases [of s d Lo_start_xmit n "replicate n v"])
    case (lo h m)
    let ?t = "(upd_dev d (count_rx n \<circ> count_rx n \<circ> count_tx n) s)\<lparr>net_heap := h\<rparr>"
    have run: "transmit v n d s = Some ?t" by (rule transmit_send [OF lo(3) small])
    have "sock_wf ?t"
      using lo(4-7) by (intro sock_wf_more_cells [OF wf(1), where m =
          "[m \<mapsto> Skb ((new_skb (Suc m) n)\<lparr>skb_dev := Some d\<rparr>), Suc m \<mapsto> Bytes (take n (replicate n v))]"])
        (auto split: if_splits)
    then have "net_up ?t" using wf(2,4) by (simp add: net_up_def net_wf_def)
    then show ?thesis
      using that [OF run _ transmit_memory [OF up(2) run], of m] lo(4-6) by (auto simp: comp_def)
  qed (use ok in simp_all)
qed

lemma transmit_nic:
  assumes up: "net_up s" "memory_ok s" and hook: "xmit_hook d s = Some Nic_start_xmit" and n: "0 < n" "n < 2 ^ 63"
  obtains t where "transmit v n d s = Some t" "devices t = (devices s)(d := count_tx n (devices s d))"
    "cells (net_heap t) = cells (net_heap s)"
proof -
  have wf: "heap_wf (net_heap s)" using up(1) by (simp add: net_up_def net_wf_def sock_wf_def)
  have ok: "\<not> skb_oom s" using up(2) by (simp add: skb_oom_def memory_ok_def)
  have len: "0 < n \<and> n \<le> length (replicate n v)" using n by simp
  have small: "ssize_of n \<noteq> -1" using ssize_of_small [OF n(2)] by simp
  from wf hook len show ?thesis
  proof (cases rule: send_skb_cases [of s d Nic_start_xmit n "replicate n v"])
    case (nic h)
    show ?thesis by (rule that [OF transmit_send [OF nic(3) small]]) (use nic(4) in simp_all)
  qed (use ok in simp_all)
qed

text \<open>Connecting a socket that has a device.\<close>

lemma connect_routed:
  assumes "nova_socket_lookup fd s = Some a" "get_sock a s = Some k" "sk_dev k = Some d"
  shows "nova_connect fd s = Some (0, put_sock a (k\<lparr>sk_state := 1\<rparr>) s)"
  using assms by (simp add: nova_connect_def with_socket_def)

lemma xmit_hook_static:
  "devices s Lo_dev = lo_netdev \<Longrightarrow> xmit_hook Lo_dev s = Some Lo_start_xmit"
  "devices s Nic_dev = nic_netdev \<Longrightarrow> xmit_hook Nic_dev s = Some Nic_start_xmit"
  by (simp_all add: xmit_hook_def lo_ops_def nic_ops_def)

lemma close_frame:
  assumes "nova_close fd s = Some (r, t)"
  shows "devices t = devices s" "g_nova_netdev_registry t = g_nova_netdev_registry s"
    "g_network_initialized t = g_network_initialized s" "memory_ok s \<Longrightarrow> memory_ok t"
  using assms
  by (auto simp: nova_close_def with_socket_def memory_ok_def dest!: calloc_fails_free
      split: option.splits bind_splits)

text \<open>The network test up to the end of its first half: the loopback packet is sent and the socket
  closed again.\<close>

lemma first_half:
  assumes up: "net_up s" "memory_ok s" and fd: "g_next_socket_fd s = 1" and reg: "registered s [Lo_dev]"
    and lo: "devices s Lo_dev = lo_netdev"
  obtains s2 s4 s5 s6 m where "nova_socket 2 1 6 s = Some (1, s2)" "nova_bind 1 s2 = Some (0, s2)"
    "nova_connect 1 s2 = Some (0, s4)" "transmit v 32 Lo_dev s4 = Some s5" "nova_close 1 s5 = Some (0, s6)"
    "net_up s6" "memory_ok s6" "registered s6 [Lo_dev]"
    "devices s5 = (devices s)(Lo_dev := count_rx 32 (count_rx 32 (count_tx 32 lo_netdev)))" "devices s6 = devices s5"
    "dom (cells (net_heap s6)) = dom (cells (net_heap s)) \<union> {m, Suc m}"
    "m \<notin> dom (cells (net_heap s))" "Suc m \<notin> dom (cells (net_heap s))"
proof -
  have find: "nova_netdev_find (Some ''lo'') s = Some (Some Lo_dev)"
    using netdev_find_registered [OF reg, of "''lo''"] lo by simp
  have args: "af_of_int 2 = Some NOVA_AF_INET" "sock_type_of_int 1 = Some NOVA_SOCK_STREAM"
    by (simp_all add: af_of_int_def sock_type_of_int_def)
  have room: "g_next_socket_fd s < NOVA_SOCKET_TABLE_SIZE" using fd by simp
  obtain s2 a where s2: "nova_socket 2 1 6 s = Some (1, s2)" "net_up s2" "memory_ok s2" "devices s2 = devices s"
    "g_nova_netdev_registry s2 = g_nova_netdev_registry s" "nova_socket_lookup 1 s2 = Some a"
    "get_sock a s2 = Some (fresh_sock NOVA_AF_INET NOVA_SOCK_STREAM 6 (Some Lo_dev))"
    "a \<notin> dom (cells (net_heap s))" "dom (cells (net_heap s2)) = insert a (dom (cells (net_heap s)))"
    by (rule socket_made [OF up room args find, of 6]) (simp add: fd)
  have bind: "nova_bind 1 s2 = Some (0, s2)" using s2(6) by (simp add: nova_bind_def with_socket_def)
  let ?s4 = "put_sock a ((fresh_sock NOVA_AF_INET NOVA_SOCK_STREAM 6 (Some Lo_dev))\<lparr>sk_state := 1\<rparr>) s2"
  have connect: "nova_connect 1 s2 = Some (0, ?s4)"
    by (rule connect_routed [OF s2(6,7)]) (simp add: fresh_sock_def)
  have up4: "net_up ?s4" "memory_ok ?s4"
    using state_call_wf(3) [of s2 1] s2(2,3) connect by (simp_all add: net_up_def)
  have dom4: "dom (cells (net_heap ?s4)) = insert a (dom (cells (net_heap s)))" using s2(9) by auto
  obtain s5 m where s5: "transmit v 32 Lo_dev ?s4 = Some s5" "net_up s5" "memory_ok s5"
    "devices s5 = (devices ?s4)(Lo_dev := count_rx 32 (count_rx 32 (count_tx 32 (devices ?s4 Lo_dev))))"
    "g_nova_netdev_registry s5 = g_nova_netdev_registry ?s4" "g_socket_table s5 = g_socket_table ?s4"
    "m \<notin> dom (cells (net_heap ?s4))" "Suc m \<notin> dom (cells (net_heap ?s4))"
    "cells (net_heap s5) = (cells (net_heap ?s4))(m \<mapsto> Skb ((new_skb (Suc m) 32)\<lparr>skb_dev := Some Lo_dev\<rparr>),
       Suc m \<mapsto> Bytes (replicate 32 v))"
    by (rule transmit_lo [OF up4, of Lo_dev 32 v]) (use lo s2(4) in \<open>simp_all add: xmit_hook_static\<close>)
  have a5: "get_sock a s5 = Some ((fresh_sock NOVA_AF_INET NOVA_SOCK_STREAM 6 (Some Lo_dev))\<lparr>sk_state := 1\<rparr>)"
    using s5(7,8) unfolding get_sock_cells s5(9) by auto
  have look5: "nova_socket_lookup 1 s5 = Some a" using s2(6) s5(6) by (simp add: nova_socket_lookup_def)
  then have "socket_at s5 1 \<noteq> None" using a5 by (simp add: socket_at_def)
  with nova_close_effect [of s5 1] s5(2) look5 obtain s6 where s6: "nova_close 1 s5 = Some (0, s6)" "net_wf s6"
    "cells (net_heap s6) = (cells (net_heap s5))(a := None)"
    by (auto simp: net_up_def split: option.splits)
  note frame = close_frame [OF s6(1)]
  have "registered s6 [Lo_dev]"
    using s5(4,5) s2(4,5) frame(1,2) reg lo by (simp add: registered_def count_rx_def count_tx_def)
  moreover have "net_up s6" using s6(2) frame(3) s5(2) by (simp add: net_up_def)
  moreover have "dom (cells (net_heap s6)) = dom (cells (net_heap s)) \<union> {m, Suc m}"
  proof -
    have "dom (cells (net_heap s5)) = insert a (dom (cells (net_heap s)) \<union> {m, Suc m})"
      unfolding s5(9) using dom4 by auto
    moreover have "a \<noteq> m" "a \<noteq> Suc m" using s5(7,8) unfolding dom4 by auto
    ultimately show ?thesis using s2(8) by (simp add: s6(3))
  qed
  moreover have "m \<notin> dom (cells (net_heap s))" "Suc m \<notin> dom (cells (net_heap s))"
    using s5(7,8) unfolding dom4 by simp_all
  moreover have "devices s5 = (devices s)(Lo_dev := count_rx 32 (count_rx 32 (count_tx 32 lo_netdev)))"
    using s5(4) s2(4) lo by simp
  ultimately show ?thesis
    by (intro that [OF s2(1) bind connect s5(1) s6(1) _ frame(4) [OF s5(3)] _ _ frame(1)])
qed


text \<open>
  The whole network test, from program start and with enough memory: it passes, the device counters
  are exactly those of one packet sent over each device, counted as received twice on loopback, and
  the two blocks of the loopback packet are the only memory it leaves allocated.
\<close>

lemma network_main_passes:
  assumes start: "net_start s" and mem: "memory_ok s"
  shows "\<exists>t m. network_main s = Some (0, t) \<and>
     devices t = (devices s)(Lo_dev := count_rx 32 (count_rx 32 (count_tx 32 lo_netdev)),
       Nic_dev := count_tx 20 nic_netdev) \<and>
     m \<notin> dom (cells (net_heap s)) \<and> Suc m \<notin> dom (cells (net_heap s)) \<and>
     dom (cells (net_heap t)) = dom (cells (net_heap s)) \<union> {m, Suc m}"
proof -
  have wf: "net_wf s" by (rule net_start_wf [OF start])
  let ?s0 = "snd (nova_network_init s)"
  let ?s1 = "(upd_dev Lo_dev (\<lambda>_. lo_netdev) ?s0)\<lparr>g_nova_netdev_registry := Some Lo_dev\<rparr>"
  have lo: "nova_loopback_init ?s0 = Some (0, ?s1)"
    by (rule loopback_up) (simp add: registered_def nova_network_init_def)
  have wf1: "net_wf ?s1"
    using net_exec_safe [OF net_wf_init(1) [OF wf], of Loopback_init] lo by simp
  then have up1: "net_up ?s1" "memory_ok ?s1"
    using mem by (simp_all add: net_up_def memory_ok_def nova_network_init_def)
  have reg1: "registered ?s1 [Lo_dev]" by (simp add: registered_def)
  have find1: "nova_netdev_find (Some ''lo'') ?s1 = Some (Some Lo_dev)"
    using netdev_find_registered [OF reg1, of "''lo''"] by simp
  have fd1: "g_next_socket_fd ?s1 = 1" and lo1: "devices ?s1 Lo_dev = lo_netdev"
    by (simp_all add: nova_network_init_def)
  let ?v = "65 :: u8"
  obtain s2 s4 s5 s6 m where h: "nova_socket 2 1 6 ?s1 = Some (1, s2)" "nova_bind 1 s2 = Some (0, s2)"
    "nova_connect 1 s2 = Some (0, s4)" "transmit ?v 32 Lo_dev s4 = Some s5" "nova_close 1 s5 = Some (0, s6)"
    "net_up s6" "memory_ok s6" "registered s6 [Lo_dev]"
    "devices s5 = (devices ?s1)(Lo_dev := count_rx 32 (count_rx 32 (count_tx 32 lo_netdev)))" "devices s6 = devices s5"
    "dom (cells (net_heap s6)) = dom (cells (net_heap ?s1)) \<union> {m, Suc m}"
    "m \<notin> dom (cells (net_heap ?s1))" "Suc m \<notin> dom (cells (net_heap ?s1))"
    by (rule first_half [OF up1 fd1 reg1 lo1, where v = ?v])
  have name6: "dev_name s6 Lo_dev = ''lo''" by (simp add: h(9,10) count_rx_def count_tx_def)
  let ?s7 = "(upd_dev Nic_dev (\<lambda>_. nic_netdev) s6)\<lparr>g_nova_netdev_registry := Some Nic_dev\<rparr>"
  have nic: "nova_nic_stub_init s6 = Some (0, ?s7)" by (rule nic_up [OF h(8) name6])
  have up7: "net_up ?s7" "memory_ok ?s7"
    using net_exec_safe [of s6 Nic_stub_init] nic h(6,7) by (simp_all add: net_up_def memory_ok_def)
  have reg7: "registered ?s7 [Nic_dev, Lo_dev]" by (simp add: registered_def h(9,10) count_rx_def count_tx_def)
  have find7: "nova_netdev_find (Some ''nic0'') ?s7 = Some (Some Nic_dev)"
    using netdev_find_registered [OF reg7, of "''nic0''"] by simp
  let ?w = "66 :: u8"
  obtain s8 where s8: "transmit ?w 20 Nic_dev ?s7 = Some s8"
    "devices s8 = (devices ?s7)(Nic_dev := count_tx 20 (devices ?s7 Nic_dev))"
    "cells (net_heap s8) = cells (net_heap ?s7)"
    by (rule transmit_nic [OF up7, of Nic_dev 20 ?w]) (simp_all add: xmit_hook_static)
  have "network_main s = Some (0, s8)"
    unfolding network_main_def
    by (simp add: lo find1 h(1-5) nic find7 s8(1)) (simp add: h(9) s8(2) count_rx_def count_tx_def zero_stats_def)
  moreover have "devices s8 = (devices s)(Lo_dev := count_rx 32 (count_rx 32 (count_tx 32 lo_netdev)),
      Nic_dev := count_tx 20 nic_netdev)"
    by (simp add: s8(2) h(9,10) nova_network_init_def)
  moreover have "cells (net_heap s8) = cells (net_heap s6)" using s8(3) by simp
  ultimately show ?thesis
    using h(11-13) by (intro exI [of _ s8] exI [of _ m]) (simp add: nova_network_init_def)
qed

subsection \<open>Property\<close>

text \<open>
  Claim C25. The host programs end with status 0: the core test whatever its uninitialised local
  variables hold, the NovaKit test likewise, the LinuxKPI example from the initial module table, and
  the network test from program start on the condition that no call of \<open>calloc\<close> fails (its
  assertions fail otherwise).  On that condition the network test leaves the
  devices with exactly the counters of one packet sent over each, received twice on loopback, and
  leaves two blocks allocated, those of the loopback packet, although it closes its socket.
\<close>
theorem host_programs_pass:
  assumes core: "length (threads scheduler) = NOVA_MAX_THREADS" "length (messages endpoint) = NOVA_IPC_QUEUE_LENGTH"
      "\<forall>i < NOVA_IPC_QUEUE_LENGTH. msg_wf (messages endpoint ! i)"
      "length (allocated allocator) = NOVA_VM_MAX_PAGES" "length (mappings space) = NOVA_MAX_MAPPINGS"
    and net: "net_start s" "memory_ok s"
  shows "core_main scheduler endpoint allocator space = Some 0 \<and> novakit_main raw = Some 0 \<and>
    fst (linuxkpi_main linuxkpi_start) = 0 \<and>
    (\<exists>t m. network_main s = Some (0, t) \<and>
       devices t = (devices s)(Lo_dev := count_rx 32 (count_rx 32 (count_tx 32 lo_netdev)),
         Nic_dev := count_tx 20 nic_netdev) \<and>
       m \<notin> dom (cells (net_heap s)) \<and> Suc m \<notin> dom (cells (net_heap s)) \<and>
       dom (cells (net_heap t)) = dom (cells (net_heap s)) \<union> {m, Suc m})"
  using core_main_passes [OF core] novakit_main_passes linuxkpi_main_passes network_main_passes [OF net] by simp

lemma cold_net_ready: "net_start cold_net" "memory_ok cold_net"
  by (simp_all add: net_start_def cold_net_def heap_wf_def memory_ok_def)

theorem host_programs_pass_witness:
  "core_main blank_scheduler demo_endpoint demo_allocator demo_space = Some 0 \<and>
   (\<exists>t. network_main cold_net = Some (0, t))"
proof -
  have "length (threads blank_scheduler) = NOVA_MAX_THREADS" "length (messages demo_endpoint) = NOVA_IPC_QUEUE_LENGTH"
    "\<forall>i < NOVA_IPC_QUEUE_LENGTH. msg_wf (messages demo_endpoint ! i)"
    "length (allocated demo_allocator) = NOVA_VM_MAX_PAGES" "length (mappings demo_space) = NOVA_MAX_MAPPINGS"
    by (simp_all add: blank_scheduler_def demo_endpoint_def demo_allocator_def demo_space_def msg_wf_def)
  from host_programs_pass [OF this cold_net_ready] show ?thesis by blast
qed

end
