(* ===== verification/Spec2Isabelle.thy ===== *)
theory Spec2Isabelle
  imports Nova_Sched_Api Nova_Ipc Nova_Vm_Api Novakit_Registry Nova_Linuxkpi Nova_Net_Packets Nova_Net_Traffic Nova_Byteorder
    Nova_Io_Machine Nova_Io_Registry Nova_Io_Requests Nova_Boot_Session Nova_Ui Nova_Module Nova_Host_Tests
begin

text \<open>
  A verification development for NovaOS, the prototype kernel under \<open>src/nova-os\<close>.

  The program.  NovaOS is a set of C components that are tied together by host programs and a
  serial boot console rather than by one kernel image:

  \<^item> \<open>kernel/core\<close>: scheduler, IPC endpoints and virtual memory, as tables in caller-owned structures;
  \<^item> \<open>kernel/novakit\<close> and \<open>drivers/linuxkpi\<close>: append-only registries of devices and of modules;
  \<^item> \<open>kernel/network\<close>: a registry of network devices (a linked list of caller-owned structures),
    packet buffers, the loopback device and a NIC stub, and a socket layer that sends through them;
  \<^item> \<open>kernel/io\<close>: a doubly linked registry of I/O devices, requests handed to a driver, sector transfers;
  \<^item> \<open>boot/kernel.c\<close>: the serial console with its line editor, command interpreter and prototype
    system calls;
  \<^item> \<open>userland/uimode/desktop/ui_boot_path.c\<close>: the state machine from the serial shell to a desktop;
  \<^item> \<open>kernel/modules/nova_core\<close>: the event handler of a module for a FreeBSD-like kernel;
  \<^item> the host tests and the LinuxKPI example, which call the components as clients.

  Theories and sources.

  \<^item> \<open>Nova_Prelude\<close>: machine integers, the search loop \<open>for_find\<close>, \<open>memcpy\<close>, \<open>strncpy\<close>, C strings.
  \<^item> \<open>Nova_Interfaces\<close>: the contracts, as locales: \<open>handle_table\<close>, \<open>bounded_handle_table\<close>,
    \<open>bounded_queue\<close>, \<open>bounded_map\<close>, \<open>invariant_machine\<close>, \<open>call_refinement\<close> (sequences of calls that
    implement a specification), each with the lemmas its clients use.
  \<^item> \<open>Nova_Core_Types\<close>: constants and enumerations of \<open>nova_core.h\<close>.
  \<^item> \<open>Nova_Scheduler\<close> (\<open>scheduler.c\<close>): the thread table is a bounded handle table; selection is the
    best thread in the order \<open>preferred\<close>, the greatest in the linear order of ranks; pick-and-account rounds share time fairly.
  \<^item> \<open>Nova_Sched_Api\<close>, \<open>Nova_Vm_Api\<close>: the contracts of the two, a map of threads, and a set of pages
    with a map of translations, and that any sequence of calls answers as they do.
  \<^item> \<open>Nova_Ipc\<close> (\<open>ipc.c\<close>): the ring is a bounded FIFO queue; what a received structure contains.
  \<^item> \<open>Nova_Vm\<close> (\<open>vm.c\<close>): the page allocator is a bounded handle table, an address space a bounded map.
  \<^item> \<open>Novakit_Registry\<close> (\<open>registry.c\<close>), \<open>Nova_Linuxkpi\<close> (\<open>linuxkpi.c\<close>): the two registries; the first
    implements a list of devices for any sequence of calls.
  \<^item> \<open>Nova_Heap\<close>: the C heap that the next theories use, with \<open>calloc\<close>, \<open>free\<close> and pointer lists.
  \<^item> \<open>Nova_Net\<close> (\<open>network_stack.c\<close>, \<open>loopback.c\<close>, \<open>nic_stub.c\<close>): the device registry as a pointer
    list, packet buffers, transmission, start-up and shut-down.
  \<^item> \<open>Nova_Sockets\<close> (\<open>network_stack.c\<close>): the socket layer on top of it; an invariant of devices
    and sockets, kept by every device and socket call, from which each returns; descriptors as a handle table.
  \<^item> \<open>Nova_Net_Packets\<close>: every public call of the stack in one machine, the packet-buffer calls and the
    client's stores to its packets and devices included; under the client's contract every call
    returns, and every live packet keeps a data block of its own.
  \<^item> \<open>Nova_Socket_Api\<close>: the contract of the network calls, an abstract machine over descriptors, and
    that the stack implements it for every sequence of calls; the typing of its memory.
  \<^item> \<open>Nova_Net_Traffic\<close>: the counters and the heap over whole sessions of socket calls: what \<open>lo\<close>
    counts is a function of the sends that succeeded, and the packets it keeps are the only leak.
  \<^item> \<open>Nova_Byteorder\<close> (\<open>network_stack.c\<close>): \<open>nova_htonl\<close> and the like, byte by byte.
  \<^item> \<open>Nova_Io\<close> (\<open>io_stack.c\<close>): the device registry, its lock, requests and transfers, for any driver.
  \<^item> \<open>Nova_Io_Machine\<close>: the calls of the I/O stack as a machine, the contracts of its clients and
    drivers, and an invariant under which every call returns and releases the lock.
  \<^item> \<open>Nova_Io_Registry\<close>: the contract of the device registry, an abstract list, and that the linked
    list implements it for every sequence of calls of a client that registers no device twice.
  \<^item> \<open>Nova_Io_Requests\<close>: the contract of requests and transfers, an abstract table of requests, for
    drivers that do anything to the request they get, and that the stack implements it.
  \<^item> \<open>Nova_Boot\<close> (\<open>boot/kernel.c\<close>): one poll of the console refines the line editor \<open>edit\<close>, which
    gives the new line and every byte written; the buffer invariant of the main loop.
  \<^item> \<open>Nova_Boot_Session\<close> (\<open>boot/kernel.c\<close>): \<open>kmain\<close> from power-on through any number of rounds
    transmits what an abstract console prints; the transcript of a session of typed commands; how many
    transmitter-ready statuses are enough for its busy waits to end.
  \<^item> \<open>Nova_Ui\<close> (\<open>ui_boot_path.c\<close>): sessions refine a machine with three phases.
  \<^item> \<open>Nova_Module\<close> (\<open>nova_core.c\<close>): what each event of the module loader returns and prints.
  \<^item> \<open>Nova_Host_Tests\<close>: the host programs, and that they end with status 0.
  \<^item> this theory: the bootstrap path across the network components, and the commands that the UI boot
    path and the boot console understand.

  How the model corresponds to the code.  A struct is a record, an enumeration a datatype, a table a
  list of its fixed length, a C function a HOL function of the same name from the old state to the
  result and the new state.  An out-parameter is an option that is \<open>None\<close> where the code does not
  write it; a pointer is an option, \<open>None\<close> for \<open>NULL\<close>; static variables are fields of the state
  records \<open>net_state\<close>, \<open>io_state\<close>, \<open>boot_state\<close> and \<open>linuxkpi_state\<close>.  Function pointers of the two
  network drivers are datatypes with one constructor per function, and a device of another driver can
  carry only these; a block device is taken to carry a block operation table, and a device name to be
  terminated within its 16 bytes, as the code takes them to be.  In the network, I/O and boot
  theories the outermost option of a result is \<open>None\<close> when the C function does not return normally:
  a dead block is read or freed, a byte outside a buffer is touched, a lock is taken twice, or a
  loop does not end.  Arguments that the code discards with a cast to void are left out.

  Bounds and loops.  There is no fuel.  Loops over a range end by a measure; walks along pointers
  and the spinlock are \<open>partial_function (option)\<close> or tests whose \<open>None\<close> stands for not returning,
  and the theorems say when the result is \<open>Some\<close>.  Loops that wait for the serial line consume a
  list of status bytes read from the port; a list that runs out stands for waiting for ever, so a
  statement about all lists covers every behaviour of the line.  The endless loop of \<open>kmain\<close> is
  the step relation \<open>boot_step\<close>, and \<open>kmain n\<close> is its first \<open>n\<close> rounds: the theorems hold for every
  \<open>n\<close>.  One transmitter-ready status per byte of the banner and 180 per round are always enough for
  the \<open>n\<close> rounds to return, since no response is longer than that of \<open>info\<close>.  Counters that can
  overflow are words of their C width; indices into tables are natural numbers bounded by the
  invariants.

  Parameters.  The submit function of a block driver is an argument of the I/O operations, so the
  theorems hold for any driver; which calls of \<open>calloc\<close> fail is an arbitrary predicate in the heap;
  \<open>INFINITE\<close>, which the tree uses and does not define, is an argument, and so are the module events
  and \<open>EOPNOTSUPP\<close> of \<open>nova_core.c\<close>, which its host kernel's headers define.  \<open>io_stack.c\<close> uses a field
  \<open>prev\<close> that \<open>struct nova_device\<close> lacks; the model has the field.

  Not modelled.  \<open>desktop.h\<close> declares an interface that nothing implements.  \<open>boot.asm\<close>, the linker script
  and the shell scripts are not C; the virtio-net skeleton is Rust and not linked.  The two
  compatibility fixtures print a line.  Structures of \<open>network_stack.h\<close> and \<open>io_stack.h\<close> that no
  function reads (socket addresses, interface requests, character, framebuffer and input operations)
  have no counterpart.  Concurrency other than the I/O lock is not modelled: the code has none.
\<close>

text \<open>
  Claim C2. The bootstrap path that the network README describes, from program start to the first
  packet, when memory does not run out (no call of \<open>calloc\<close> fails; \<open>nova_socket\<close> and \<open>nova_send\<close>
  return -1 otherwise, see \<open>socket_create_spec\<close> and \<open>socket_send_spec\<close>): \<open>nova_network_init\<close>,
  \<open>nova_loopback_init\<close> and \<open>nova_nic_stub_init\<close> succeed, a \<open>nova_socket\<close> call with any supported
  family and type returns descriptor 1, and sending a non-empty message through it returns the
  message's length and arrives over loopback: \<open>lo\<close> counts one packet sent and two received, \<open>nic0\<close>
  none, and no other device is touched.
\<close>
theorem bootstrap_send:
  assumes start: "net_start s" and mem: "memory_ok s"
    and args: "af_of_int domain = Some af" "sock_type_of_int ty = Some st"
    and len: "0 < len" "len \<le> length buf" "len < 2 ^ 63"
  shows "\<exists>s1 s2 s3 s4. nova_loopback_init (snd (nova_network_init s)) = Some (0, s1) \<and>
    nova_nic_stub_init s1 = Some (0, s2) \<and> nova_socket domain ty protocol s2 = Some (1, s3) \<and>
    nova_send 1 (Some buf) len s3 = Some (int len, s4) \<and>
    devices s4 = (devices s)(Lo_dev := count_rx len (count_rx len (count_tx len lo_netdev)), Nic_dev := nic_netdev)"
proof -
  obtain s1 s2 where init: "nova_loopback_init (snd (nova_network_init s)) = Some (0, s1)" "nova_nic_stub_init s1 = Some (0, s2)"
    and find: "nova_netdev_find (Some ''lo'') s2 = Some (Some Lo_dev)"
    and devs: "devices s2 = (devices s)(Lo_dev := lo_netdev, Nic_dev := nic_netdev)"
    and up: "g_network_initialized s2" "g_next_socket_fd s2 = 1" "net_heap s2 = net_heap s"
    using network_bootstrap [of s] by auto
  have "net_wf (snd (nova_network_init s))" by (rule net_wf_init(1) [OF net_start_wf [OF start]])
  then have "net_wf s1" using net_exec_safe [of _ Loopback_init] init(1) by fastforce
  then have "net_wf s2" using net_exec_safe [of _ Nic_stub_init] init(2) by fastforce
  then have up2: "net_up s2" "memory_ok s2" using up mem by (simp_all add: net_up_def memory_ok_def)
  have room: "g_next_socket_fd s2 < NOVA_SOCKET_TABLE_SIZE" using up(2) by simp
  obtain s3 a where s3: "nova_socket domain ty protocol s2 = Some (1, s3)" "net_up s3" "memory_ok s3"
    "devices s3 = devices s2" "nova_socket_lookup 1 s3 = Some a" "get_sock a s3 = Some (fresh_sock af st protocol (Some Lo_dev))"
    by (rule socket_made [OF up2 room args find, of protocol]) (simp add: up(2))
  have wf3: "net_wf s3" using s3(2) by (simp add: net_up_def)
  have route: "route (fresh_sock af st protocol (Some Lo_dev)) s3 = Some (Some Lo_dev)"
    by (simp add: route_def fresh_sock_def)
  have hook: "xmit_hook Lo_dev s3 = Some Lo_start_xmit" by (rule xmit_hook_static) (simp add: s3(4) devs)
  have "\<not> skb_oom s3" using s3(3) by (simp add: skb_oom_def memory_ok_def)
  with nova_send_effect [OF wf3 s3(5,6) route hook len(1,2)] obtain s4 where
    s4: "nova_send 1 (Some buf) len s3 = Some (int len, s4)"
    "devices s4 = (devices s3)(Lo_dev := count_rx len (count_rx len (count_tx len (devices s3 Lo_dev))))"
    by (auto simp: ssize_of_small [OF len(3)])
  have "devices s4 = (devices s)(Lo_dev := count_rx len (count_rx len (count_tx len lo_netdev)), Nic_dev := nic_netdev)"
    unfolding s4(2) s3(4) devs by (simp add: fun_upd_twist)
  with init s3(1) s4(1) show ?thesis by blast
qed

theorem bootstrap_send_witness:
  "\<exists>s1 s2 s3 s4. nova_loopback_init (snd (nova_network_init cold_net)) = Some (0, s1) \<and>
    nova_nic_stub_init s1 = Some (0, s2) \<and> nova_socket 1 5 0 s2 = Some (1, s3) \<and>
    nova_send 1 (Some [7, 8, 9]) 2 s3 = Some (2, s4)"
proof -
  have args: "af_of_int 1 = Some NOVA_AF_UNIX" "sock_type_of_int 5 = Some NOVA_SOCK_SEQPACKET" by code_simp+
  show ?thesis using bootstrap_send [OF cold_net_ready args, of 2 "[7, 8, 9]" 0] by auto
qed

subsection \<open>The boot console and the UI boot path\<close>

text \<open>
  The UI README says that the kernel shell can run \<open>ui desktop\<close> or \<open>ui compat\<close> to hand over to
  userland.  The two command sets are disjoint: every command that the UI boot path acts on is an
  unknown command at the boot console.
\<close>
lemma ui_commands_unknown_at_console:
  assumes "command_request w \<noteq> Unknown"
  shows "response w t = ''unknown command; use help'' @ [LF]"
proof -
  have "list_all (\<lambda>c. command_request c = Unknown)
      [''help'', ''info'', ''uname'', ''ps'', ''syscalls'', ''devices'', ''posix'', ''clear'', ''uptime'', []]"
    by code_simp
  then have "list_all (\<lambda>c. w \<noteq> c)
      [''help'', ''info'', ''uname'', ''ps'', ''syscalls'', ''devices'', ''posix'', ''clear'', ''uptime'', []]"
    using assms by (auto simp only: list_all_iff)
  moreover have "take 5 w \<noteq> ''echo ''"
  proof
    assume "take 5 w = ''echo ''"
    then obtain v where "w = ''echo '' @ v" by (metis append_take_drop_id)
    with assms show False by (simp add: command_request_def ui_starts_with_def split: if_splits)
  qed
  ultimately show ?thesis by (simp add: response_def)
qed

end
